(* ===== verification/Nets_Prelude.thy ===== *)
theory Nets_Prelude
  imports Main "HOL-Library.Word"
begin

text \<open>
  Shared vocabulary of the development: the machine types of \<^verbatim>\<open>nets/base/Types.h\<close>,
  the outcome of an operation that may throw, touch memory out of range or never return,
  \<^verbatim>\<open>memcpy\<close> on bounded byte arrays, unsigned 64-bit arithmetic with its wrap-around
  written out, the byte representation of integers in memory, decimal text, signed division,
  and forward simulations as a locale.
  Nothing here models a function of the repository: these are the parts of C++ and of its
  standard library that the components use.
\<close>

unbundle bit_operations_syntax

named_theorems nets_size \<open>size_t arithmetic\<close>
named_theorems nets_mem \<open>bounded memory\<close>

section \<open>Machine types\<close>

text \<open>
  A \<^verbatim>\<open>char\<close> in memory is an 8-bit word. \<^verbatim>\<open>SizeType\<close> (\<^verbatim>\<open>size_t\<close>) values are natural
  numbers below \<open>2 ^ 64\<close>; every addition, subtraction and shift that could leave that
  range is written with the functions below, which wrap as the hardware does.
\<close>

type_synonym byte = "8 word"
type_synonym SizeType = nat
type_synonym FdType = int

definition ptrdiff_max :: nat where
  "ptrdiff_max = 9223372036854775807"

definition size_mod :: nat where
  "size_mod = 18446744073709551616"

definition sz_add :: "nat \<Rightarrow> nat \<Rightarrow> nat" where
  "sz_add a b = (a + b) mod size_mod"

definition sz_sub :: "nat \<Rightarrow> nat \<Rightarrow> nat" where
  "sz_sub a b = (if b \<le> a then a - b else (a + size_mod - b) mod size_mod)"

definition sz_double :: "nat \<Rightarrow> nat" where
  "sz_double a = (2 * a) mod size_mod"

lemma sz_add_small [nets_size]: "a + b < size_mod \<Longrightarrow> sz_add a b = a + b"
  by (simp add: sz_add_def)

lemma sz_sub_small [nets_size]: "b \<le> a \<Longrightarrow> sz_sub a b = a - b"
  by (simp add: sz_sub_def)

lemma sz_double_small [nets_size]: "2 * a < size_mod \<Longrightarrow> sz_double a = 2 * a"
  by (simp add: sz_double_def)

text \<open>For evaluation on small concrete values.\<close>

lemma sz_add_tiny: "a + b \<le> 1000 \<Longrightarrow> sz_add a b = a + b"
  by (simp add: sz_add_def size_mod_def)

lemma sz_add_sub_cancel: "b \<le> a \<Longrightarrow> a < size_mod \<Longrightarrow> sz_add (sz_sub a b) b = a"
  by (simp add: sz_add_def sz_sub_def)

section \<open>Outcomes\<close>

text \<open>
  \<open>Throw\<close> carries the C++ exception, \<open>Undefined\<close> is an access outside an array (or another
  use of an indeterminate value), for which C++ promises nothing, and \<open>Hang\<close> is a loop that
  does not end. A result is \<open>Inl\<close> of one of these or \<open>Inr\<close> of the value. Every throwing
  operation below throws before it changes its object, so \<open>Inl\<close> carries no state. An exception
  carries the constant part of its message, or the number that goes into it; theory \<open>Exceptions\<close>
  has the class hierarchy and the composition of the message.
\<close>

datatype exn =
    IndexOutOfBoundsException nat
  | OutOfMemoryException nat
  | BadAlloc nat
  | InvalidArgument string
  | RuntimeError string
  | FutureError string
  | DateTimeFormatException string
  | FileCreateException string
  | FileOpenException string
  | SegmentationFaultException string
  | ChannelRegisterException string
  | InetSockAddressException string
  | ServerSocketChannelException string
  | SocketCreationException string
  | SocketOperationException string

datatype fault = Throw exn | Undefined | Hang

type_synonym 'a res = "fault + 'a"

definition ebind :: "'a res \<Rightarrow> ('a \<Rightarrow> 'b res) \<Rightarrow> 'b res" where
  "ebind m f = (case m of Inl e \<Rightarrow> Inl e | Inr x \<Rightarrow> f x)"

lemma ebind_simps [simp]:
  "ebind (Inl e) f = Inl e"
  "ebind (Inr x) f = f x"
  by (simp_all add: ebind_def)

lemma ebind_assoc: "ebind (ebind m f) g = ebind m (\<lambda>x. ebind (f x) g)"
  by (cases m) simp_all

lemma ebind_eq_Inr: "ebind m f = Inr y \<longleftrightarrow> (\<exists>x. m = Inr x \<and> f x = Inr y)"
  by (cases m) auto

lemma ebind_eq_Inl: "ebind m f = Inl e \<longleftrightarrow> m = Inl e \<or> (\<exists>x. m = Inr x \<and> f x = Inl e)"
  by (cases m) auto

text \<open>
  \<open>res_all P r\<close>: no memory fault and no endless loop; a C++ exception, or a value that
  satisfies \<open>P\<close>.
\<close>

fun res_all :: "('a \<Rightarrow> bool) \<Rightarrow> 'a res \<Rightarrow> bool" where
  "res_all P (Inr x) = P x"
| "res_all P (Inl (Throw e)) = True"
| "res_all P (Inl Undefined) = False"
| "res_all P (Inl Hang) = False"

lemma res_all_ebind:
  "res_all Q m \<Longrightarrow> (\<And>x. Q x \<Longrightarrow> res_all P (f x)) \<Longrightarrow> res_all P (ebind m f)"
  by (cases "(Q, m)" rule: res_all.cases) auto

lemma res_all_mono: "res_all Q m \<Longrightarrow> (\<And>x. Q x \<Longrightarrow> P x) \<Longrightarrow> res_all P m"
  by (cases "(Q, m)" rule: res_all.cases) auto

lemma res_all_pair_map:
  "res_all (\<lambda>(x, b). P b) m \<Longrightarrow> res_all (\<lambda>(y, b). P b) (ebind m (\<lambda>(x, b). Inr (g x, b)))"
  by (erule res_all_ebind) auto

lemma res_all_snd: "res_all (\<lambda>(x, b). P b) m \<Longrightarrow> res_all P (ebind m (\<lambda>(x, b). Inr b))"
  by (erule res_all_ebind) auto

section \<open>Arrays of bytes\<close>

text \<open>
  \<^verbatim>\<open>make_unique<char[]>(n)\<close> followed by \<^verbatim>\<open>MEMZERO\<close>: zeroed storage, or
  \<^verbatim>\<open>std::bad_array_new_length\<close> above the largest object size.
  \<^verbatim>\<open>memcpy\<close>, \<^verbatim>\<open>memmove\<close> and \<^verbatim>\<open>std::string(p, n)\<close> read and write a range of an array.
\<close>

definition new_array :: "nat \<Rightarrow> byte list res" where
  "new_array n = (if n \<le> ptrdiff_max then Inr (replicate n 0) else Inl (Throw (BadAlloc n)))"

definition mem_read :: "'a list \<Rightarrow> nat \<Rightarrow> nat \<Rightarrow> 'a list res" where
  "mem_read buf off n =
     (if off + n \<le> length buf then Inr (take n (drop off buf)) else Inl Undefined)"

definition mem_write :: "'a list \<Rightarrow> nat \<Rightarrow> 'a list \<Rightarrow> 'a list res" where
  "mem_write buf off bs =
     (if off + length bs \<le> length buf
      then Inr (take off buf @ bs @ drop (off + length bs) buf) else Inl Undefined)"

lemma new_array_ok [nets_mem]: "n \<le> ptrdiff_max \<Longrightarrow> new_array n = Inr (replicate n 0)"
  by (simp add: new_array_def)

lemma new_array_tiny: "n \<le> 1000 \<Longrightarrow> new_array n = Inr (replicate n 0)"
  by (simp add: new_array_def ptrdiff_max_def)

lemma mem_read_ok [nets_mem]:
  "off + n \<le> length buf \<Longrightarrow> mem_read buf off n = Inr (take n (drop off buf))"
  by (simp add: mem_read_def)

lemma mem_write_ok [nets_mem]:
  "off + length bs \<le> length buf \<Longrightarrow>
     mem_write buf off bs = Inr (take off buf @ bs @ drop (off + length bs) buf)"
  by (simp add: mem_write_def)

lemma mem_write_length: "mem_write buf off bs = Inr buf' \<Longrightarrow> length buf' = length buf"
  by (auto simp: mem_write_def split: if_splits)

lemma mem_read_write_same:
  "mem_write buf off bs = Inr buf' \<Longrightarrow> mem_read buf' off (length bs) = Inr bs"
  by (auto simp: mem_write_def mem_read_def split: if_splits)

text \<open>A window that ends where the write starts is extended by exactly the written bytes.\<close>

lemma window_extend:
  assumes "r \<le> w" and "w + length bs \<le> length buf"
  shows "take (w + length bs - r) (drop r (take w buf @ bs @ drop (w + length bs) buf))
       = take (w - r) (drop r buf) @ bs"
proof -
  have "drop r (take w buf @ bs @ drop (w + length bs) buf)
      = take (w - r) (drop r buf) @ bs @ drop (w + length bs) buf"
    using assms by (simp add: drop_take)
  moreover have "length (take (w - r) (drop r buf)) = w - r"
    using assms by simp
  ultimately show ?thesis
    using assms by simp
qed

section \<open>Integers in memory\<close>

text \<open>
  The library targets Linux on little-endian hosts: \<open>store_le n w\<close> is what
  \<^verbatim>\<open>memcpy(dst, &w, n)\<close> copies and \<open>load_le\<close> what the reverse copy produces.
  \<^verbatim>\<open>htobe16/32/64\<close> and \<^verbatim>\<open>be16/32/64toh\<close> reverse the bytes of a value.
\<close>

definition store_le :: "nat \<Rightarrow> 'a::len word \<Rightarrow> byte list" where
  "store_le n w = map (\<lambda>i. ucast (drop_bit (8 * i) w)) [0..<n]"

fun load_le :: "byte list \<Rightarrow> 'a::len word" where
  "load_le [] = 0"
| "load_le (b # bs) = ucast b OR push_bit 8 (load_le bs)"

definition bswap :: "nat \<Rightarrow> 'a::len word \<Rightarrow> 'a word" where
  "bswap n w = load_le (rev (store_le n w))"

lemma length_store_le [simp]: "length (store_le n w) = n"
  by (simp add: store_le_def)

lemma bit_load_le:
  "bit (load_le bs :: 'a::len word) k \<longleftrightarrow>
     k < LENGTH('a) \<and> k < 8 * length bs \<and> bit (bs ! (k div 8)) (k mod 8)"
proof (induction bs arbitrary: k)
  case Nil
  show ?case by simp
next
  case (Cons b bs)
  show ?case
  proof (cases "k < 8")
    case True
    then show ?thesis
      by (auto simp: bit_or_iff bit_push_bit_iff bit_ucast_iff)
  next
    case False
    then obtain j where k: "k = j + 8"
      by (metis le_add_diff_inverse2 not_less)
    have nb: "\<not> bit b (j + 8)"
      using bit_imp_le_length [of b "j + 8"] by auto
    have "(j + 8) div 8 = Suc (j div 8)"
      by simp
    show ?thesis
      using Cons.IH [of j] nb \<open>(j + 8) div 8 = Suc (j div 8)\<close>
      by (auto simp: k bit_or_iff bit_push_bit_iff bit_ucast_iff)
  qed
qed

lemma bit_store_le:
  "i < n \<Longrightarrow> k < 8 \<Longrightarrow> bit (store_le n w ! i) k \<longleftrightarrow> bit w (8 * i + k)"
  by (auto simp: store_le_def bit_ucast_iff bit_drop_bit_eq)

lemma load_store_le:
  fixes w :: "'a::len word"
  assumes "LENGTH('a) = 8 * n"
  shows "load_le (store_le n w) = w"
proof (rule bit_word_eqI)
  fix k assume "k < LENGTH('a)"
  then show "bit (load_le (store_le n w) :: 'a word) k = bit w k"
    using assms by (auto simp: bit_load_le bit_store_le)
qed

lemma store_load_le:
  fixes bs :: "byte list"
  assumes "LENGTH('a::len) = 8 * length bs"
  shows "store_le (length bs) (load_le bs :: 'a word) = bs"
proof (rule nth_equalityI)
  fix i assume i: "i < length (store_le (length bs) (load_le bs :: 'a word))"
  show "store_le (length bs) (load_le bs :: 'a word) ! i = bs ! i"
  proof (rule bit_word_eqI)
    fix k assume k: "k < LENGTH(8)"
    have "8 * i + k < 8 * length bs"
      using i k by simp
    then show "bit (store_le (length bs) (load_le bs :: 'a word) ! i) k = bit (bs ! i) k"
      using i k assms by (simp add: bit_store_le bit_load_le)
  qed
qed simp

text \<open>Big-endian (network order) bytes, and that swapping before a copy produces them.\<close>

definition be_bytes :: "nat \<Rightarrow> 'a::len word \<Rightarrow> byte list" where
  "be_bytes n w = rev (store_le n w)"

lemma length_be_bytes [simp]: "length (be_bytes n w) = n"
  by (simp add: be_bytes_def)

lemma store_bswap:
  fixes w :: "'a::len word"
  assumes "LENGTH('a) = 8 * n"
  shows "store_le n (bswap n w) = be_bytes n w"
  using store_load_le [where bs = "rev (store_le n w)" and ?'a = 'a] assms
  by (simp add: bswap_def be_bytes_def)

lemma bswap_load_be_bytes:
  fixes w :: "'a::len word"
  assumes "LENGTH('a) = 8 * n"
  shows "bswap n (load_le (be_bytes n w)) = w"
proof -
  have "store_le n (load_le (be_bytes n w) :: 'a word) = be_bytes n w"
    using store_load_le [where bs = "be_bytes n w" and ?'a = 'a] assms by simp
  then show ?thesis
    using load_store_le [OF assms, of w] by (simp add: bswap_def be_bytes_def)
qed

section \<open>Decimal text\<close>

text \<open>The decimal digits of an unsigned number, as \<^verbatim>\<open>printf\<close> writes them.\<close>

definition digit :: "nat \<Rightarrow> char" where
  "digit n = char_of (48 + n)"

fun dec :: "nat \<Rightarrow> string" where
  "dec n = (if n < 10 then [digit n] else dec (n div 10) @ [digit (n mod 10)])"

declare dec.simps [simp del]

lemma dec_not_Nil [simp]: "dec n \<noteq> []"
  by (subst dec.simps) simp

lemma dec_length: "n < 10 ^ k \<Longrightarrow> 0 < k \<Longrightarrow> length (dec n) \<le> k"
proof (induction k arbitrary: n)
  case (Suc k)
  show ?case
  proof (cases "n < 10")
    case True then show ?thesis by (simp add: dec.simps[of n])
  next
    case False
    then have "k \<noteq> 0" using Suc.prems(1) by (cases k) simp_all
    moreover have "n div 10 < 10 ^ k" using Suc.prems(1) by (simp add: less_mult_imp_div_less mult.commute)
    ultimately have "n div 10 < 10 ^ k" and "0 < k" by simp_all
    then show ?thesis using Suc.IH[of "n div 10"] False by (simp add: dec.simps[of n])
  qed
qed simp

lemma dec_no_NUL: "CHR 0x00 \<notin> set (dec n)"
proof (induction n rule: dec.induct)
  case (1 n)
  have d: "digit k \<noteq> CHR 0x00" if "k < 10" for k
  proof
    assume "digit k = CHR 0x00"
    then have "of_char (digit k) = (of_char (CHR 0x00) :: nat)" by simp
    then show False using that by (simp add: digit_def of_char_of)
  qed
  show ?case using 1 d[of n] d[of "n mod 10"] by (cases "n < 10") (simp_all add: dec.simps[of n])
qed

section \<open>Signed division\<close>

text \<open>C++ integer division truncates towards zero and \<^verbatim>\<open>%\<close> has the sign of the dividend.\<close>

definition cdiv :: "int \<Rightarrow> int \<Rightarrow> int" where
  "cdiv a b = (if 0 \<le> a then a div b else - ((- a) div b))"

definition cmod :: "int \<Rightarrow> int \<Rightarrow> int" where
  "cmod a b = a - b * cdiv a b"

section \<open>Simulations\<close>

text \<open>Sequences of calls, on an implementation that may fail and on a specification.\<close>

fun run_ops :: "('op \<Rightarrow> 'c \<Rightarrow> ('r \<times> 'c) res) \<Rightarrow> 'op list \<Rightarrow> 'c \<Rightarrow> ('r list \<times> 'c) res" where
  "run_ops exec [] c = Inr ([], c)"
| "run_ops exec (op # ops) c =
     ebind (exec op c) (\<lambda>(r, c'). ebind (run_ops exec ops c') (\<lambda>(rs, c''). Inr (r # rs, c'')))"

fun spec_ops :: "('op \<Rightarrow> 'a \<Rightarrow> 'r \<times> 'a) \<Rightarrow> 'op list \<Rightarrow> 'a \<Rightarrow> 'r list \<times> 'a" where
  "spec_ops spec [] a = ([], a)"
| "spec_ops spec (op # ops) a =
     (case spec op a of (r, a') \<Rightarrow> case spec_ops spec ops a' of (rs, a'') \<Rightarrow> (r # rs, a''))"

fun ops_allowed :: "('op \<Rightarrow> 'a \<Rightarrow> 'r \<times> 'a) \<Rightarrow> ('op \<Rightarrow> 'a \<Rightarrow> bool) \<Rightarrow> 'op list \<Rightarrow> 'a \<Rightarrow> bool" where
  "ops_allowed spec allowed [] a \<longleftrightarrow> True"
| "ops_allowed spec allowed (op # ops) a \<longleftrightarrow> allowed op a \<and> ops_allowed spec allowed ops (snd (spec op a))"

text \<open>
  A forward simulation between an implementation and a specification, under a condition on the
  calls, gives the same for whole sequences of calls.
\<close>

locale simulation =
  fixes exec :: "'op \<Rightarrow> 'c \<Rightarrow> ('r \<times> 'c) res" and spec :: "'op \<Rightarrow> 'a \<Rightarrow> 'r \<times> 'a"
    and allowed :: "'op \<Rightarrow> 'a \<Rightarrow> bool" and rel :: "'c \<Rightarrow> 'a \<Rightarrow> bool"
  assumes sim: "rel c a \<Longrightarrow> allowed op a \<Longrightarrow>
      \<exists>c'. exec op c = Inr (fst (spec op a), c') \<and> rel c' (snd (spec op a))"
begin

lemma run_ops_sim:
  "rel c a \<Longrightarrow> ops_allowed spec allowed ops a \<Longrightarrow>
   \<exists>c'. run_ops exec ops c = Inr (fst (spec_ops spec ops a), c') \<and> rel c' (snd (spec_ops spec ops a))"
proof (induction ops arbitrary: c a)
  case (Cons op ops)
  obtain c1 where c1: "exec op c = Inr (fst (spec op a), c1)" "rel c1 (snd (spec op a))"
    using sim[of c a op] Cons(2,3) by auto
  then obtain c2 where "run_ops exec ops c1 = Inr (fst (spec_ops spec ops (snd (spec op a))), c2)"
    "rel c2 (snd (spec_ops spec ops (snd (spec op a))))"
    using Cons(1)[of c1 "snd (spec op a)"] Cons(3) by auto
  then show ?case using c1 by (auto simp: case_prod_beta)
qed simp

end

end
