(* ===== verification/Kernel_Interface.thy ===== *)
theory Kernel_Interface
  imports Nets_Prelude
begin

text \<open>
  The system calls the channels make (\<^verbatim>\<open>read\<close>, \<^verbatim>\<open>write\<close>, \<^verbatim>\<open>writev\<close>, \<^verbatim>\<open>shutdown\<close>,
  \<^verbatim>\<open>epoll_ctl\<close>, through the one-line wrappers of \<^verbatim>\<open>nets/net/core/Socket.cpp\<close>). The kernel is
  not part of the repository: it is a parameter, a record of functions over an abstract
  kernel state \<open>'k\<close>, and what the library relies on is stated as predicates on that record,
  taken from the manual pages.
\<close>

section \<open>Error numbers and arguments\<close>

abbreviation EINTR :: nat where "EINTR \<equiv> 4"
abbreviation EAGAIN :: nat where "EAGAIN \<equiv> 11"

datatype epoll_op = EPOLL_CTL_ADD | EPOLL_CTL_MOD | EPOLL_CTL_DEL

datatype shutdown_how = SHUT_RD | SHUT_WR | SHUT_RDWR

text \<open>
  A transfer answers with the error number or with what it did: \<open>sys_write\<close> and
  \<open>sys_writev\<close> with the number of bytes taken, \<open>sys_read\<close> with the bytes delivered (none at
  end of stream).
\<close>

record 'k sys =
  sys_read :: "'k \<Rightarrow> FdType \<Rightarrow> nat \<Rightarrow> (nat + byte list) \<times> 'k"
  sys_write :: "'k \<Rightarrow> FdType \<Rightarrow> byte list \<Rightarrow> (nat + nat) \<times> 'k"
  sys_writev :: "'k \<Rightarrow> FdType \<Rightarrow> byte list list \<Rightarrow> (nat + nat) \<times> 'k"
  sys_shutdown :: "'k \<Rightarrow> FdType \<Rightarrow> shutdown_how \<Rightarrow> 'k"
  sys_epoll_ctl :: "'k \<Rightarrow> epoll_op \<Rightarrow> FdType \<Rightarrow> 32 word \<Rightarrow> bool \<times> 'k"

section \<open>What the library relies on\<close>

text \<open>
  \<open>read(2)\<close>: \<open>rcvd k fd\<close> is what has been delivered so far, \<open>avail k fd\<close> bounds what can still be
  delivered without new data arriving. A read delivers at most the requested number of bytes,
  out of those available; an error delivers nothing.
\<close>

definition read_spec ::
    "'k sys \<Rightarrow> ('k \<Rightarrow> FdType \<Rightarrow> byte list) \<Rightarrow> ('k \<Rightarrow> FdType \<Rightarrow> nat) \<Rightarrow> bool" where
  "read_spec S rcvd avail \<longleftrightarrow>
     (\<forall>k fd n got k'. sys_read S k fd n = (Inr got, k') \<longrightarrow>
        length got \<le> n \<and> rcvd k' fd = rcvd k fd @ got \<and> avail k' fd + length got \<le> avail k fd) \<and>
     (\<forall>k fd n e k'. sys_read S k fd n = (Inl e, k') \<longrightarrow> rcvd k' fd = rcvd k fd)"

lemma read_specD:
  assumes "read_spec S rcvd avail" and "sys_read S k fd n = (r, k')"
  shows "case r of Inl e \<Rightarrow> rcvd k' fd = rcvd k fd
         | Inr got \<Rightarrow> length got \<le> n \<and> rcvd k' fd = rcvd k fd @ got \<and>
             avail k' fd + length got \<le> avail k fd"
  using assms by (cases r) (auto simp: read_spec_def)

text \<open>
  \<open>write(2)\<close>, \<open>writev(2)\<close> on a stream socket: the answer \<open>n\<close> means that the first \<open>n\<close> bytes
  of the request, and nothing else, were appended to the stream \<open>sent k fd\<close>; an error
  appends nothing. \<open>epoll_ctl\<close> does not touch streams.
\<close>

definition stream_spec :: "'k sys \<Rightarrow> ('k \<Rightarrow> FdType \<Rightarrow> byte list) \<Rightarrow> bool" where
  "stream_spec S sent \<longleftrightarrow>
     (\<forall>k fd bs e k'. sys_write S k fd bs = (Inl e, k') \<longrightarrow> sent k' fd = sent k fd) \<and>
     (\<forall>k fd bs n k'. sys_write S k fd bs = (Inr n, k') \<longrightarrow>
        n \<le> length bs \<and> sent k' fd = sent k fd @ take n bs) \<and>
     (\<forall>k fd bss e k'. sys_writev S k fd bss = (Inl e, k') \<longrightarrow> sent k' fd = sent k fd) \<and>
     (\<forall>k fd bss n k'. sys_writev S k fd bss = (Inr n, k') \<longrightarrow>
        n \<le> length (concat bss) \<and> sent k' fd = sent k fd @ take n (concat bss)) \<and>
     (\<forall>k op fd' ev fd. sent (snd (sys_epoll_ctl S k op fd' ev)) fd = sent k fd)"

text \<open>
  \<open>epoll_ctl(2)\<close>: \<open>interest k fd\<close> is the event mask registered for a descriptor. \<open>ADD\<close>
  succeeds only on an absent descriptor, \<open>MOD\<close> and \<open>DEL\<close> only on a present one; a failed
  call changes nothing.
\<close>

definition epoll_spec :: "'k sys \<Rightarrow> ('k \<Rightarrow> FdType \<rightharpoonup> 32 word) \<Rightarrow> bool" where
  "epoll_spec S interest \<longleftrightarrow>
     (\<forall>k op fd ev k'. sys_epoll_ctl S k op fd ev = (False, k') \<longrightarrow> interest k' = interest k) \<and>
     (\<forall>k fd ev k'. sys_epoll_ctl S k EPOLL_CTL_ADD fd ev = (True, k') \<longrightarrow>
        interest k fd = None \<and> interest k' = (interest k)(fd \<mapsto> ev)) \<and>
     (\<forall>k fd ev k'. sys_epoll_ctl S k EPOLL_CTL_MOD fd ev = (True, k') \<longrightarrow>
        interest k fd \<noteq> None \<and> interest k' = (interest k)(fd \<mapsto> ev)) \<and>
     (\<forall>k fd ev k'. sys_epoll_ctl S k EPOLL_CTL_DEL fd ev = (True, k') \<longrightarrow>
        interest k fd \<noteq> None \<and> interest k' = (interest k)(fd := None))"

lemma stream_writeD:
  assumes "stream_spec S sent" and "sys_write S k fd bs = (r, k')"
  shows "case r of Inl e \<Rightarrow> sent k' fd = sent k fd
         | Inr n \<Rightarrow> n \<le> length bs \<and> sent k' fd = sent k fd @ take n bs"
  using assms by (cases r) (auto simp: stream_spec_def)

lemma stream_writevD:
  assumes "stream_spec S sent" and "sys_writev S k fd bss = (r, k')"
  shows "case r of Inl e \<Rightarrow> sent k' fd = sent k fd
         | Inr n \<Rightarrow> n \<le> length (concat bss) \<and> sent k' fd = sent k fd @ take n (concat bss)"
  using assms by (cases r) (auto simp: stream_spec_def)

lemma stream_epoll_ctl:
  "stream_spec S sent \<Longrightarrow> sent (snd (sys_epoll_ctl S k op fd' ev)) fd = sent k fd"
  by (simp add: stream_spec_def)

text \<open>A healthy connection: the only errors of a non-blocking write are the temporary ones.\<close>

definition soft_errors :: "'k sys \<Rightarrow> bool" where
  "soft_errors S \<longleftrightarrow>
     (\<forall>k fd bs e k'. sys_write S k fd bs = (Inl e, k') \<longrightarrow> e = EAGAIN \<or> e = EINTR) \<and>
     (\<forall>k fd bss e k'. sys_writev S k fd bss = (Inl e, k') \<longrightarrow> e = EAGAIN \<or> e = EINTR)"

lemma soft_errorsD:
  "soft_errors S \<Longrightarrow> sys_write S k fd bs = (Inl e, k') \<Longrightarrow> e = EAGAIN \<or> e = EINTR"
  "soft_errors S \<Longrightarrow> sys_writev S k fd bss = (Inl e, k') \<Longrightarrow> e = EAGAIN \<or> e = EINTR"
  unfolding soft_errors_def by blast+

section \<open>A concrete kernel\<close>

text \<open>
  A scripted kernel with one stream and an epoll set, for closed examples: the answers to
  successive transfers are read off lists, bounded by the request.
\<close>

record script =
  reads :: "(nat + byte list) list"
  inp :: "byte list"
  writes :: "(nat + nat) list"
  out :: "byte list"
  epset :: "FdType \<rightharpoonup> 32 word"

fun script_take :: "(nat + nat) list \<Rightarrow> byte list \<Rightarrow> (nat + nat) \<times> byte list" where
  "script_take (Inr n # rs) bs = (Inr (min n (length bs)), take n bs)"
| "script_take (Inl e # rs) bs = (Inl e, [])"
| "script_take [] bs = (Inl EAGAIN, [])"

fun script_read :: "(nat + byte list) list \<Rightarrow> nat \<Rightarrow> nat + byte list" where
  "script_read (Inr bs # rs) n = Inr (take n bs)"
| "script_read (Inl e # rs) n = Inl e"
| "script_read [] n = Inl EAGAIN"

definition script_send :: "script \<Rightarrow> byte list \<Rightarrow> (nat + nat) \<times> script" where
  "script_send k bs =
     (let (r, taken) = script_take (writes k) bs
      in (r, k\<lparr>writes := tl (writes k), out := out k @ taken\<rparr>))"

definition script_ctl :: "script \<Rightarrow> epoll_op \<Rightarrow> FdType \<Rightarrow> 32 word \<Rightarrow> bool \<times> script" where
  "script_ctl k op fd ev =
     (case (op, epset k fd) of
        (EPOLL_CTL_ADD, None) \<Rightarrow> (True, k\<lparr>epset := (epset k)(fd \<mapsto> ev)\<rparr>)
      | (EPOLL_CTL_MOD, Some e) \<Rightarrow> (True, k\<lparr>epset := (epset k)(fd \<mapsto> ev)\<rparr>)
      | (EPOLL_CTL_DEL, Some e) \<Rightarrow> (True, k\<lparr>epset := (epset k)(fd := None)\<rparr>)
      | _ \<Rightarrow> (False, k))"

definition script_recv :: "script \<Rightarrow> nat \<Rightarrow> (nat + byte list) \<times> script" where
  "script_recv k n =
     (let r = script_read (reads k) n
      in (r, k\<lparr>reads := tl (reads k), inp := inp k @ (case r of Inr bs \<Rightarrow> bs | Inl e \<Rightarrow> [])\<rparr>))"

definition script_avail :: "script \<Rightarrow> nat" where
  "script_avail k = sum_list (map (\<lambda>r. case r of Inr bs \<Rightarrow> length bs | Inl e \<Rightarrow> 0) (reads k))"

definition script_sys :: "script sys" where
  "script_sys = \<lparr>
     sys_read = (\<lambda>k fd n. script_recv k n),
     sys_write = (\<lambda>k fd bs. script_send k bs),
     sys_writev = (\<lambda>k fd bss. script_send k (concat bss)),
     sys_shutdown = (\<lambda>k fd how. k),
     sys_epoll_ctl = script_ctl\<rparr>"

lemma script_sys_simps [simp]:
  "sys_read script_sys k fd n = script_recv k n"
  "sys_write script_sys k fd bs = script_send k bs"
  "sys_writev script_sys k fd bss = script_send k (concat bss)"
  "sys_shutdown script_sys k fd how = k"
  "sys_epoll_ctl script_sys k op fd ev = script_ctl k op fd ev"
  by (simp_all add: script_sys_def)

lemma script_recv_inp: "script_recv k n = (r, k') \<Longrightarrow>
    (case r of Inl e \<Rightarrow> inp k' = inp k
     | Inr got \<Rightarrow> length got \<le> n \<and> inp k' = inp k @ got \<and>
         script_avail k' + length got \<le> script_avail k)"
  by (cases "(reads k, n)" rule: script_read.cases)
    (auto simp: script_recv_def script_avail_def Let_def)

lemma script_read_spec: "read_spec script_sys (\<lambda>k fd. inp k) (\<lambda>k fd. script_avail k)"
  using script_recv_inp by (fastforce simp: read_spec_def)

lemma script_send_out: "script_send k bs = (r, k') \<Longrightarrow>
    case r of Inl e \<Rightarrow> out k' = out k | Inr n \<Rightarrow> n \<le> length bs \<and> out k' = out k @ take n bs"
  by (cases "(writes k, bs)" rule: script_take.cases) (auto simp: script_send_def min_def)

lemma script_ctl_out: "out (snd (script_ctl k op fd ev)) = out k"
  by (simp add: script_ctl_def split: epoll_op.split option.split)

lemma script_stream_spec: "stream_spec script_sys (\<lambda>k fd. out k)"
  using script_send_out script_ctl_out by (fastforce simp: stream_spec_def)

lemma script_epoll_spec: "epoll_spec script_sys epset"
  by (auto simp: epoll_spec_def script_ctl_def split: epoll_op.splits option.splits)

text \<open>The same kernel on a healthy connection: every scripted write error is \<open>EAGAIN\<close>.\<close>

definition soft_sys :: "script sys" where
  "soft_sys = script_sys\<lparr>
     sys_write := (\<lambda>k fd bs. apfst (map_sum (\<lambda>e. EAGAIN) id) (script_send k bs)),
     sys_writev := (\<lambda>k fd bss. apfst (map_sum (\<lambda>e. EAGAIN) id) (script_send k (concat bss)))\<rparr>"

lemma soft_sys_simps [simp]:
  "sys_read soft_sys k fd n = script_recv k n"
  "sys_write soft_sys k fd bs = apfst (map_sum (\<lambda>e. EAGAIN) id) (script_send k bs)"
  "sys_writev soft_sys k fd bss = apfst (map_sum (\<lambda>e. EAGAIN) id) (script_send k (concat bss))"
  "sys_shutdown soft_sys k fd how = k"
  "sys_epoll_ctl soft_sys k op fd ev = script_ctl k op fd ev"
  by (simp_all add: soft_sys_def)

lemma soft_sys_soft: "soft_errors soft_sys"
  by (auto simp: soft_errors_def apfst_def map_prod_def map_sum_def split: prod.splits sum.splits)

lemma soft_send_out:
  assumes "apfst (map_sum (\<lambda>e. EAGAIN) id) (script_send k bs) = (r, k')"
  shows "case r of Inl e \<Rightarrow> out k' = out k | Inr n \<Rightarrow> n \<le> length bs \<and> out k' = out k @ take n bs"
proof -
  obtain r0 k0 where s: "script_send k bs = (r0, k0)" by force
  from script_send_out[OF s] show ?thesis using assms s by (cases r0) auto
qed

lemma soft_stream_spec: "stream_spec soft_sys (\<lambda>k fd. out k)"
  using soft_send_out script_ctl_out by (fastforce simp: stream_spec_def)

end
