(* ===== verification/Epoll_Channel.thy ===== *)
theory Epoll_Channel
  imports Kernel_Interface
begin

text \<open>
  \<^verbatim>\<open>nets/net/channel/Channel.{h,cpp}\<close> and \<^verbatim>\<open>nets/net/poller/EpollPoller.{h,cpp}\<close>: the
  event masks a channel keeps, their translation to and from epoll, registration, and the
  dispatch of ready events. The socket options a channel accepts are in \<open>Socket_Options\<close>.
\<close>

section \<open>Channel\<close>

text \<open>
  The members of the base class; \<open>fd\<close> is what the virtual \<^verbatim>\<open>fd()\<close> of the concrete channel
  returns. Concrete channels extend this record as their classes extend \<^verbatim>\<open>Channel\<close>.
\<close>

record channel =
  fd :: FdType
  events :: "32 word"
  readyEvents :: "32 word"
  isRegistered :: bool

definition kNoneEvent :: "32 word" where "kNoneEvent = 0"
definition kReadEvent :: "32 word" where "kReadEvent = 1"
definition kWriteEvent :: "32 word" where "kWriteEvent = 2"
definition kErrorEvent :: "32 word" where "kErrorEvent = 4"

lemmas kEvent_defs = kNoneEvent_def kReadEvent_def kWriteEvent_def kErrorEvent_def

definition setEvents :: "32 word \<Rightarrow> 'a channel_scheme \<Rightarrow> 'a channel_scheme" where
  "setEvents ev c = c\<lparr>events := ev\<rparr>"

definition addEvent :: "32 word \<Rightarrow> 'a channel_scheme \<Rightarrow> 'a channel_scheme" where
  "addEvent ev c = c\<lparr>events := events c OR ev\<rparr>"

definition isNoneEvent :: "'a channel_scheme \<Rightarrow> bool" where
  "isNoneEvent c \<longleftrightarrow> events c = kNoneEvent"

definition hasReadEvent :: "'a channel_scheme \<Rightarrow> bool" where
  "hasReadEvent c \<longleftrightarrow> events c AND kReadEvent \<noteq> 0"

definition hasWriteEvent :: "'a channel_scheme \<Rightarrow> bool" where
  "hasWriteEvent c \<longleftrightarrow> events c AND kWriteEvent \<noteq> 0"

definition setReadyEvents :: "32 word \<Rightarrow> 'a channel_scheme \<Rightarrow> 'a channel_scheme" where
  "setReadyEvents ev c = c\<lparr>readyEvents := ev\<rparr>"

definition addReadyEvent :: "32 word \<Rightarrow> 'a channel_scheme \<Rightarrow> 'a channel_scheme" where
  "addReadyEvent ev c = c\<lparr>readyEvents := readyEvents c OR ev\<rparr>"

definition setRegistered :: "bool \<Rightarrow> 'a channel_scheme \<Rightarrow> 'a channel_scheme" where
  "setRegistered r c = c\<lparr>isRegistered := r\<rparr>"

text \<open>
  \<^verbatim>\<open>handleEvent\<close> of a state \<open>s\<close> whose ready mask is \<open>ready s\<close>; the three handlers are the
  virtual functions of the concrete channel. The mask is read again before each test.
\<close>

definition handleEvent ::
    "('s \<Rightarrow> 32 word) \<Rightarrow> ('s \<Rightarrow> 's res) \<Rightarrow> ('s \<Rightarrow> 's res) \<Rightarrow> ('s \<Rightarrow> 's res) \<Rightarrow> 's \<Rightarrow> 's res" where
  "handleEvent ready handleErrorEvent handleReadEvent handleWriteEvent s =
     ebind (if ready s AND kErrorEvent \<noteq> 0 then handleErrorEvent s else Inr s) (\<lambda>s.
     ebind (if ready s AND kReadEvent \<noteq> 0 then handleReadEvent s else Inr s) (\<lambda>s.
       if ready s AND kWriteEvent \<noteq> 0 then handleWriteEvent s else Inr s))"

section \<open>EpollPoller\<close>

definition EPOLLIN :: "32 word" where "EPOLLIN = 1"
definition EPOLLPRI :: "32 word" where "EPOLLPRI = 2"
definition EPOLLOUT :: "32 word" where "EPOLLOUT = 4"
definition EPOLLERR :: "32 word" where "EPOLLERR = 8"
definition EPOLLHUP :: "32 word" where "EPOLLHUP = 16"
definition EPOLLRDHUP :: "32 word" where "EPOLLRDHUP = 8192"

lemmas EPOLL_defs = EPOLLIN_def EPOLLPRI_def EPOLLOUT_def EPOLLERR_def EPOLLHUP_def EPOLLRDHUP_def

definition kEpollEventInitialSize :: nat where "kEpollEventInitialSize = 12"
definition kMaxEpollEventSize :: nat where "kMaxEpollEventSize = 2147483647"

text \<open>The mask \<^verbatim>\<open>epollCtl\<close> computes, and the call.\<close>

definition epoll_mask :: "32 word \<Rightarrow> 32 word" where
  "epoll_mask ev =
     (let m = 0;
          m = (if ev AND kReadEvent \<noteq> 0 then m OR EPOLLIN else m)
      in (if ev AND kWriteEvent \<noteq> 0 then m OR EPOLLOUT else m))"

definition epollCtl :: "'k sys \<Rightarrow> epoll_op \<Rightarrow> 'a channel_scheme \<Rightarrow> 'k \<Rightarrow> bool \<times> 'k" where
  "epollCtl S opt c k = sys_epoll_ctl S k opt (fd c) (epoll_mask (events c))"

definition poller_deregisterChannel ::
    "'k sys \<Rightarrow> 'a channel_scheme \<Rightarrow> 'k \<Rightarrow> bool \<times> 'a channel_scheme \<times> 'k" where
  "poller_deregisterChannel S c k =
     (let c' = setRegistered False c; (ok, k') = epollCtl S EPOLL_CTL_DEL c' k in (ok, c', k'))"

text \<open>
  \<^verbatim>\<open>registerChannel\<close> and \<^verbatim>\<open>modifyChannel\<close> call each other in the branch where the other one's
  first test is already decided; the two decided branches are written once.
\<close>

definition poller_add ::
    "'k sys \<Rightarrow> 'a channel_scheme \<Rightarrow> 'k \<Rightarrow> bool \<times> 'a channel_scheme \<times> 'k" where
  "poller_add S c k =
     (let (ok, k') = epollCtl S EPOLL_CTL_ADD c k
      in if ok then (True, setRegistered True c, k') else (False, c, k'))"

definition poller_change ::
    "'k sys \<Rightarrow> 'a channel_scheme \<Rightarrow> 'k \<Rightarrow> bool \<times> 'a channel_scheme \<times> 'k" where
  "poller_change S c k =
     (if \<not> isNoneEvent c
      then (let (ok, k') = epollCtl S EPOLL_CTL_MOD c k in (ok, c, k'))
      else poller_deregisterChannel S c k)"

definition poller_registerChannel ::
    "'k sys \<Rightarrow> 'a channel_scheme \<Rightarrow> 'k \<Rightarrow> bool \<times> 'a channel_scheme \<times> 'k" where
  "poller_registerChannel S c k = (if \<not> isRegistered c then poller_add S c k else poller_change S c k)"

definition poller_modifyChannel ::
    "'k sys \<Rightarrow> 'a channel_scheme \<Rightarrow> 'k \<Rightarrow> bool \<times> 'a channel_scheme \<times> 'k" where
  "poller_modifyChannel S c k = (if isRegistered c then poller_change S c k else poller_add S c k)"

text \<open>One channel's ready mask from the mask epoll reported.\<close>

definition prepareReady :: "32 word \<Rightarrow> 'a channel_scheme \<Rightarrow> 'a channel_scheme" where
  "prepareReady revents c =
     (let c = setReadyEvents kNoneEvent c;
          c = (if revents AND EPOLLIN \<noteq> 0 \<and> revents AND (EPOLLERR OR EPOLLHUP) \<noteq> 0
               then addReadyEvent kErrorEvent c else c);
          c = (if revents AND (EPOLLIN OR EPOLLPRI OR EPOLLRDHUP) \<noteq> 0
               then addReadyEvent kReadEvent c else c)
      in (if revents AND EPOLLOUT \<noteq> 0 then addReadyEvent kWriteEvent c else c))"

text \<open>
  \<^verbatim>\<open>prepareChannelReadyEvents\<close> over the entries epoll filled in: \<open>ptr\<close> stands for the channel
  pointer stored in \<^verbatim>\<open>data.ptr\<close>, \<open>heap\<close> for the channels it points to.
\<close>

fun prepareChannelReadyEvents ::
    "('p \<times> 32 word) list \<Rightarrow> ('p \<Rightarrow> 'a channel_scheme) \<Rightarrow> 'p list
     \<Rightarrow> ('p \<Rightarrow> 'a channel_scheme) \<times> 'p list" where
  "prepareChannelReadyEvents [] heap activeChannels = (heap, activeChannels)"
| "prepareChannelReadyEvents ((p, revents) # es) heap activeChannels =
     prepareChannelReadyEvents es (heap(p := prepareReady revents (heap p))) (activeChannels @ [p])"

text \<open>
  \<^verbatim>\<open>poll\<close>: \<open>answer\<close> is the result of \<^verbatim>\<open>epoll_wait\<close> on an array of \<open>sz\<close> entries. When the array
  was filled it grows by half, up to one below the maximum.
\<close>

definition poll ::
    "nat \<Rightarrow> nat + ('p \<times> 32 word) list \<Rightarrow> ('p \<Rightarrow> 'a channel_scheme) \<Rightarrow> 'p list
     \<Rightarrow> nat \<times> ('p \<Rightarrow> 'a channel_scheme) \<times> 'p list" where
  "poll sz answer heap activeChannels =
     (case answer of
        Inl errNum \<Rightarrow> (sz, heap, activeChannels)
      | Inr ready \<Rightarrow>
          if length ready > 0
          then (let (heap', active') = prepareChannelReadyEvents ready heap activeChannels;
                    sz' = (if length ready \<ge> sz
                             then (let s = sz + sz div 2
                                   in if s \<ge> kMaxEpollEventSize then kMaxEpollEventSize - 1 else s)
                             else sz)
                in (sz', heap', active'))
          else (sz, heap, activeChannels))"

section \<open>Facts\<close>

lemma event_bits [simp]:
  "x AND kReadEvent \<noteq> 0 \<longleftrightarrow> bit x 0"
  "x AND kWriteEvent \<noteq> 0 \<longleftrightarrow> bit x 1"
  "x AND kErrorEvent \<noteq> 0 \<longleftrightarrow> bit x 2"
  using and_exp_eq_0_iff_not_bit[of x 0] and_exp_eq_0_iff_not_bit[of x 1]
    and_exp_eq_0_iff_not_bit[of x 2]
  by (simp_all add: kEvent_defs)


lemma bit_kEvent [simp]:
  "\<not> bit kNoneEvent n" "bit kReadEvent n \<longleftrightarrow> n = 0" "bit kWriteEvent n \<longleftrightarrow> n = 1"
  "bit kErrorEvent n \<longleftrightarrow> n = 2"
  using bit_exp_iff[where 'a="32 word", of 0 n] bit_exp_iff[where 'a="32 word", of 1 n]
    bit_exp_iff[where 'a="32 word", of 2 n]
  by (auto simp: kEvent_defs)

lemma epoll_bits [simp]:
  "x AND EPOLLIN \<noteq> 0 \<longleftrightarrow> bit x 0"
  "x AND EPOLLPRI \<noteq> 0 \<longleftrightarrow> bit x 1"
  "x AND EPOLLOUT \<noteq> 0 \<longleftrightarrow> bit x 2"
  "x AND EPOLLERR \<noteq> 0 \<longleftrightarrow> bit x 3"
  "x AND EPOLLHUP \<noteq> 0 \<longleftrightarrow> bit x 4"
  "x AND EPOLLRDHUP \<noteq> 0 \<longleftrightarrow> bit x 13"
  using and_exp_eq_0_iff_not_bit[of x 0] and_exp_eq_0_iff_not_bit[of x 1]
    and_exp_eq_0_iff_not_bit[of x 2] and_exp_eq_0_iff_not_bit[of x 3]
    and_exp_eq_0_iff_not_bit[of x 4] and_exp_eq_0_iff_not_bit[of x 13]
  by (simp_all add: EPOLL_defs)

lemma and_or_nonzero [simp]: "(x::32 word) AND (a OR b) \<noteq> 0 \<longleftrightarrow> x AND a \<noteq> 0 \<or> x AND b \<noteq> 0"
  by (auto simp: bit.conj_disj_distrib bit_eq_iff bit_or_iff)

text \<open>The fields that the event operations leave alone.\<close>

lemma channel_op_fields [simp]:
  "fd (setEvents ev c) = fd c" "events (setEvents ev c) = ev"
  "readyEvents (setEvents ev c) = readyEvents c" "isRegistered (setEvents ev c) = isRegistered c"
  "fd (addEvent ev c) = fd c" "events (addEvent ev c) = events c OR ev"
  "readyEvents (addEvent ev c) = readyEvents c" "isRegistered (addEvent ev c) = isRegistered c"
  "fd (setRegistered r c) = fd c" "events (setRegistered r c) = events c"
  "readyEvents (setRegistered r c) = readyEvents c" "isRegistered (setRegistered r c) = r"
  "channel.more (setEvents ev c) = channel.more c"
  "channel.more (addEvent ev c) = channel.more c"
  "channel.more (setRegistered r c) = channel.more c"
  by (simp_all add: setEvents_def addEvent_def setRegistered_def)

text \<open>When a call of the poller is to take the channel out of the interest set.\<close>

definition taken_out ::
    "'k sys \<Rightarrow> ('a channel_scheme \<Rightarrow> 'k \<Rightarrow> bool \<times> 'a channel_scheme \<times> 'k) \<Rightarrow> 'a channel_scheme \<Rightarrow> bool" where
  "taken_out S f c \<longleftrightarrow> f = poller_deregisterChannel S \<or> isRegistered c \<and> isNoneEvent c"

lemma epoll_ctl_others:
  assumes "epoll_spec S interest" and "sys_epoll_ctl S k op f ev = (r, k')" and "g \<noteq> f"
  shows "interest k' g = interest k g"
  using assms by (cases r; cases op) (auto simp: epoll_spec_def)

lemma epoll_mask_bits: "bit (epoll_mask ev) n \<longleftrightarrow> n = 0 \<and> bit ev 0 \<or> n = 2 \<and> bit ev 1"
proof -
  have "bit (4::32 word) n \<longleftrightarrow> n = 2" using bit_exp_iff[where 'a="32 word", of 2 n] by auto
  then show ?thesis by (auto simp: epoll_mask_def EPOLL_defs Let_def bit_simps)
qed

lemma prepareReady_fields [simp]:
  "fd (prepareReady r c) = fd c" "events (prepareReady r c) = events c"
  "isRegistered (prepareReady r c) = isRegistered c"
  "channel.more (prepareReady r c) = channel.more c"
  by (simp_all add: prepareReady_def setReadyEvents_def addReadyEvent_def Let_def)

lemma prepareReady_bits:
  "bit (readyEvents (prepareReady r c)) n \<longleftrightarrow>
     n = 0 \<and> (bit r 0 \<or> bit r 1 \<or> bit r 13)
   \<or> n = 1 \<and> bit r 2
   \<or> n = 2 \<and> bit r 0 \<and> (bit r 3 \<or> bit r 4)"
  by (auto simp: prepareReady_def setReadyEvents_def addReadyEvent_def Let_def bit_or_iff)


lemma epollCtl_answer:
  assumes "epoll_spec S interest" and "epollCtl S op c k = (ok, k')"
  shows "if ok then interest k' = (interest k)(fd c := if op = EPOLL_CTL_DEL then None
                                                       else Some (epoll_mask (events c)))
         else interest k' = interest k"
  using assms by (cases ok; cases op) (auto simp: epoll_spec_def epollCtl_def)

lemma epollCtl_stream:
  "stream_spec S sent \<Longrightarrow> epollCtl S op c k = (ok, k') \<Longrightarrow> sent k' f = sent k f"
  using stream_epoll_ctl[of S sent k op "fd c" "epoll_mask (events c)" f]
  by (simp add: epollCtl_def)

lemmas poller_defs = poller_registerChannel_def poller_modifyChannel_def poller_add_def
  poller_change_def poller_deregisterChannel_def

text \<open>The three calls of the poller as one relation.\<close>

definition poller_call ::
    "'k sys \<Rightarrow> ('a channel_scheme \<Rightarrow> 'k \<Rightarrow> bool \<times> 'a channel_scheme \<times> 'k) \<Rightarrow> bool" where
  "poller_call S f \<longleftrightarrow>
     f = poller_registerChannel S \<or> f = poller_modifyChannel S \<or> f = poller_deregisterChannel S"

lemma poller_call_cases:
  assumes "poller_call S f" and "f c k = (ok, c', k')"
  shows "f c k = poller_add S c k \<and> \<not> isRegistered c \<or>
         f c k = poller_deregisterChannel S c k \<or>
         isRegistered c \<and> \<not> isNoneEvent c \<and> c' = c \<and> epollCtl S EPOLL_CTL_MOD c k = (ok, k')"
  using assms
  by (auto simp: poller_call_def poller_registerChannel_def poller_modifyChannel_def
      poller_change_def split: if_splits prod.splits)

lemma poller_call_fields:
  assumes "poller_call S f" and "f c k = (ok, c', k')"
  shows "fd c' = fd c" and "events c' = events c" and "readyEvents c' = readyEvents c"
    and "channel.more c' = channel.more c"
  using poller_call_cases[OF assms] assms(2)
  by (auto simp: poller_add_def poller_deregisterChannel_def Let_def
      split: prod.splits if_splits)

lemma poller_call_stream:
  assumes "poller_call S f" and "f c k = (ok, c', k')" and "stream_spec S sent"
  shows "sent k' g = sent k g"
  using poller_call_cases[OF assms(1,2)] assms(2) epollCtl_stream[OF assms(3)]
  by (auto simp: poller_add_def poller_deregisterChannel_def Let_def
      split: prod.splits if_splits)

lemma prepareChannelReadyEvents_active:
  "prepareChannelReadyEvents es heap act = (heap', act') \<Longrightarrow> act' = act @ map fst es"
  by (induction es heap act rule: prepareChannelReadyEvents.induct) auto

lemma prepareChannelReadyEvents_other:
  "prepareChannelReadyEvents es heap act = (heap', act') \<Longrightarrow> p \<notin> fst ` set es \<Longrightarrow>
   heap' p = heap p"
  by (induction es heap act rule: prepareChannelReadyEvents.induct) auto

lemma prepareChannelReadyEvents_ready:
  "prepareChannelReadyEvents es heap act = (heap', act') \<Longrightarrow> distinct (map fst es) \<Longrightarrow>
   (p, r) \<in> set es \<Longrightarrow> heap' p = prepareReady r (heap p)"
proof (induction es heap act rule: prepareChannelReadyEvents.induct)
  case (2 q revents es heap act)
  show ?case
  proof (cases "p = q")
    case True
    then have "p \<notin> fst ` set es" and "r = revents" using "2.prems"(2,3) by (auto simp: rev_image_eqI)
    then show ?thesis using "2.prems"(1) True prepareChannelReadyEvents_other by fastforce
  next
    case False then show ?thesis using 2 by (auto simp: fun_upd_def)
  qed
qed auto

text \<open>The handlers \<^verbatim>\<open>handleEvent\<close> calls on a channel, in order, when none of them changes its mask.\<close>

datatype handler_call = HError | HRead | HWrite

definition dispatched :: "'a channel_scheme \<Rightarrow> handler_call list res" where
  "dispatched c = handleEvent (\<lambda>hs. readyEvents c) (\<lambda>hs. Inr (hs @ [HError]))
     (\<lambda>hs. Inr (hs @ [HRead])) (\<lambda>hs. Inr (hs @ [HWrite])) []"

lemma dispatched_bits:
  "dispatched c = Inr ((if bit (readyEvents c) 2 then [HError] else [])
     @ (if bit (readyEvents c) 0 then [HRead] else [])
     @ (if bit (readyEvents c) 1 then [HWrite] else []))"
  by (simp add: dispatched_def handleEvent_def)

section \<open>Properties\<close>

text \<open>
  C19. Registration. Whatever the poller is asked (register, modify, deregister), the
  descriptor and the interest of the channel do not change and no other descriptor is
  touched; when the call reports success, the kernel's interest set holds exactly the mask
  of the channel's events and the channel is marked registered, or, if it was to be taken out
  (deregistered, or registered with an empty mask), the set holds nothing for it and it is marked
  unregistered. When the call reports failure the interest set is as before, and so is the channel,
  except that one that was to be taken out is marked unregistered all the same.
\<close>

theorem poller_keeps_epoll_in_sync:
  assumes "epoll_spec S interest" and "poller_call S f" and "f c k = (ok, c', k')"
  shows "fd c' = fd c \<and> events c' = events c \<and>
    (\<forall>g. g \<noteq> fd c \<longrightarrow> interest k' g = interest k g) \<and>
    (if ok then interest k' (fd c) = (if taken_out S f c then None else Some (epoll_mask (events c)))
     else interest k' = interest k) \<and>
    c' = (if taken_out S f c then setRegistered False c else if ok then setRegistered True c else c)"
proof (cases "f = poller_deregisterChannel S")
  case True
  then show ?thesis using assms(3) epollCtl_answer[OF assms(1)]
    by (auto simp: taken_out_def poller_deregisterChannel_def Let_def split: prod.splits if_splits dest!: epollCtl_answer[OF assms(1)])
next
  case False
  then have out: "taken_out S f c = (isRegistered c \<and> isNoneEvent c)" by (simp add: taken_out_def)
  have reg: "isRegistered c \<Longrightarrow> setRegistered True c = c" by (simp add: setRegistered_def)
  have f: "f = poller_registerChannel S \<or> f = poller_modifyChannel S" using assms(2) False by (simp add: poller_call_def)
  show ?thesis unfolding out using f assms(3) reg
    by (auto simp: poller_defs Let_def split: prod.splits if_splits dest!: epollCtl_answer[OF assms(1)])
qed

theorem poller_keeps_epoll_in_sync_witness:
  "\<exists>c' k'. poller_registerChannel script_sys
      \<lparr>fd = 5, events = kReadEvent, readyEvents = 0, isRegistered = False\<rparr>
      \<lparr>reads = [], inp = [], writes = [], out = [], epset = (\<lambda>g. None)\<rparr> = (True, c', k') \<and>
    isRegistered c' \<and> epset k' 5 = Some EPOLLIN \<and> epset k' 6 = None"
proof -
  let ?c = "\<lparr>fd = 5, events = kReadEvent, readyEvents = 0, isRegistered = False\<rparr>"
  let ?k = "\<lparr>reads = [], inp = [], writes = [], out = [], epset = (\<lambda>g. None)\<rparr>"
  have run: "poller_registerChannel script_sys ?c ?k =
      (True, setRegistered True ?c, ?k\<lparr>epset := (\<lambda>g. None)(5 \<mapsto> epoll_mask kReadEvent)\<rparr>)"
    by (simp add: poller_defs epollCtl_def script_ctl_def)
  have "setRegistered True ?c \<noteq> setRegistered False ?c" by (simp add: setRegistered_def)
  then have "\<not> taken_out script_sys (poller_registerChannel script_sys) ?c"
    using poller_keeps_epoll_in_sync[where f="poller_registerChannel script_sys", OF script_epoll_spec _ run] by (auto simp: poller_call_def)
  with poller_keeps_epoll_in_sync[where f="poller_registerChannel script_sys", OF script_epoll_spec _ run]
  have "epset (?k\<lparr>epset := (\<lambda>g. None)(5 \<mapsto> epoll_mask kReadEvent)\<rparr>) 5 = Some (epoll_mask kReadEvent)"
    by (simp add: poller_call_def)
  moreover have "epoll_mask kReadEvent = EPOLLIN" by (simp add: epoll_mask_def kReadEvent_def kWriteEvent_def)
  ultimately show ?thesis using run by (auto simp: setRegistered_def)
qed

text \<open>
  C20. Dispatch. After epoll has answered with entries for distinct channels, every one of
  them is appended to the active list in order, channels without an entry keep their state,
  and \<^verbatim>\<open>handleEvent\<close> on a channel with reported mask \<open>r\<close> calls exactly: the error handler if
  \<open>EPOLLIN\<close> came together with \<open>EPOLLERR\<close> or \<open>EPOLLHUP\<close>; then the read handler if \<open>EPOLLIN\<close>,
  \<open>EPOLLPRI\<close> or \<open>EPOLLRDHUP\<close> is set; then the write handler if \<open>EPOLLOUT\<close> is set.
\<close>

theorem epoll_dispatch_exact:
  assumes "prepareChannelReadyEvents es heap act = (heap', act')" and "distinct (map fst es)"
  shows "act' = act @ map fst es \<and> (\<forall>p. p \<notin> fst ` set es \<longrightarrow> heap' p = heap p) \<and>
    (\<forall>(p, r) \<in> set es. dispatched (heap' p) = Inr (
       (if r AND EPOLLIN \<noteq> 0 \<and> (r AND EPOLLERR \<noteq> 0 \<or> r AND EPOLLHUP \<noteq> 0) then [HError] else []) @
       (if r AND EPOLLIN \<noteq> 0 \<or> r AND EPOLLPRI \<noteq> 0 \<or> r AND EPOLLRDHUP \<noteq> 0 then [HRead] else []) @
       (if r AND EPOLLOUT \<noteq> 0 then [HWrite] else [])))"
  using prepareChannelReadyEvents_active[OF assms(1)] prepareChannelReadyEvents_other[OF assms(1)]
    prepareChannelReadyEvents_ready[OF assms]
  by (auto simp: dispatched_bits prepareReady_bits)

theorem epoll_dispatch_exact_witness:
  "snd (prepareChannelReadyEvents [(0::nat, EPOLLOUT)] (\<lambda>p. \<lparr>fd = 5, events = 0, readyEvents = 7,
     isRegistered = True\<rparr>) []) = [0] \<and>
   dispatched (fst (prepareChannelReadyEvents [(0::nat, EPOLLOUT)] (\<lambda>p. \<lparr>fd = 5, events = 0,
     readyEvents = 7, isRegistered = True\<rparr>) []) 0) = Inr [HWrite]"
proof -
  let ?h = "\<lambda>p::nat. \<lparr>fd = 5, events = 0, readyEvents = 7, isRegistered = True\<rparr>"
  obtain h' a' where run: "prepareChannelReadyEvents [(0, EPOLLOUT)] ?h [] = (h', a')"
    by fastforce
  have "\<not> bit EPOLLOUT 0" "\<not> bit EPOLLOUT 1" "bit EPOLLOUT 2" "\<not> bit EPOLLOUT 13"
    by (simp_all add: EPOLLOUT_def)
  then show ?thesis using epoll_dispatch_exact[OF run] run by simp
qed

text \<open>
  An error or hang-up that epoll reports without \<open>EPOLLIN\<close> reaches no handler at all.
\<close>

lemma epollerr_without_epollin_ignored:
  "dispatched (prepareReady (EPOLLERR OR EPOLLHUP) c) = Inr []"
  by (simp add: dispatched_bits prepareReady_bits EPOLL_defs)

text \<open>
  The array given to \<^verbatim>\<open>epoll_wait\<close>. From its initial size it never shrinks and always stays
  below \<^verbatim>\<open>INT32_MAX\<close>, so the cast of its size to a 32-bit int is exact; after a call that
  filled it, it is strictly larger unless it has reached the maximum.
\<close>

lemma poll_event_array_size:
  assumes "kEpollEventInitialSize \<le> sz" and "sz < kMaxEpollEventSize"
    and "poll sz answer heap act = (sz', heap', act')"
  shows "sz \<le> sz' \<and> sz' < kMaxEpollEventSize \<and>
    (\<forall>ready. answer = Inr ready \<longrightarrow> length ready = sz \<longrightarrow> sz < sz' \<or> sz' = kMaxEpollEventSize - 1)"
  using assms
  by (auto simp: poll_def kEpollEventInitialSize_def kMaxEpollEventSize_def Let_def
      split: sum.splits if_splits prod.splits)

end
