(* ===== verification/Byte_Buffer.thy ===== *)
theory Byte_Buffer
  imports Nets_Prelude
begin

text \<open>
  \<^verbatim>\<open>nets/net/core/ByteBuffer.h\<close> and \<^verbatim>\<open>ByteBuffer.cpp\<close>: the growable byte buffer every
  channel reads into and writes from. The record holds the four members of the class;
  a null \<^verbatim>\<open>buffer_\<close> (after a move, or before the first write of a buffer built from data)
  is the empty array, which is what a capacity of 0 leaves accessible.
  Memory safety, the growth policy, the first-in first-out contract and the network byte
  order of the typed accessors are proved for every operation.
\<close>

section \<open>State\<close>

record byte_buffer =
  buffer :: "byte list"
  readerIndex :: nat
  writerIndex :: nat
  capacity :: nat

definition kDefaultInitialCapacity :: nat where
  "kDefaultInitialCapacity = 1024"

definition kMaxCapacity :: nat where
  "kMaxCapacity = 2147483646"

definition discardReadBytes :: "byte_buffer \<Rightarrow> nat" where
  "discardReadBytes b = readerIndex b"

definition readableBytes :: "byte_buffer \<Rightarrow> nat" where
  "readableBytes b = sz_sub (writerIndex b) (readerIndex b)"

definition writableBytes :: "byte_buffer \<Rightarrow> nat" where
  "writableBytes b = sz_sub (capacity b) (writerIndex b)"

definition isReadable :: "byte_buffer \<Rightarrow> bool" where
  "isReadable b \<longleftrightarrow> writerIndex b > readerIndex b"

definition isWritable :: "byte_buffer \<Rightarrow> bool" where
  "isWritable b \<longleftrightarrow> capacity b > writerIndex b"

definition setReaderIndex :: "nat \<Rightarrow> byte_buffer \<Rightarrow> byte_buffer" where
  "setReaderIndex i b = b\<lparr>readerIndex := i\<rparr>"

definition setWriterIndex :: "nat \<Rightarrow> byte_buffer \<Rightarrow> byte_buffer" where
  "setWriterIndex i b = b\<lparr>writerIndex := i\<rparr>"

definition bb_empty :: "byte_buffer \<Rightarrow> bool" where
  "bb_empty b \<longleftrightarrow> readerIndex b = writerIndex b"

definition bb_clear :: "byte_buffer \<Rightarrow> byte_buffer" where
  "bb_clear b = b\<lparr>readerIndex := 0, writerIndex := 0\<rparr>"

section \<open>Growth\<close>

text \<open>
  The loop of \<^verbatim>\<open>calculateNewCapacity\<close>: it doubles until the target is reached. Beyond
  \<open>2 ^ 63\<close> the shift drops the only bit and the loop spins on 0, so it is a partial
  function.
\<close>

partial_function (option) capacityLoop :: "nat \<Rightarrow> nat \<Rightarrow> nat option" where
  "capacityLoop newCapacity targetCapacity =
     (if newCapacity < targetCapacity
      then capacityLoop (sz_double newCapacity) targetCapacity
      else Some newCapacity)"

definition calculateNewCapacity :: "nat \<Rightarrow> nat res" where
  "calculateNewCapacity targetCapacity =
     (if targetCapacity = 0 then Inr 0
      else case capacityLoop 1 targetCapacity of None \<Rightarrow> Inl Hang | Some c \<Rightarrow> Inr c)"

definition adjustCapacity :: "nat \<Rightarrow> byte_buffer \<Rightarrow> byte_buffer res" where
  "adjustCapacity newCapacity b =
     (let contentBytes = readableBytes b in
      ebind
        (if newCapacity \<noteq> capacity b
         then ebind (new_array newCapacity) (\<lambda>newBuffer.
                if contentBytes > 0
                then ebind (mem_read (buffer b) (readerIndex b) contentBytes)
                       (\<lambda>bs. mem_write newBuffer 0 bs)
                else Inr newBuffer)
         else ebind (mem_read (buffer b) (readerIndex b) contentBytes)
                (\<lambda>bs. mem_write (buffer b) 0 bs))
        (\<lambda>buf. Inr (b\<lparr>buffer := buf, capacity := newCapacity,
                       readerIndex := 0, writerIndex := contentBytes\<rparr>)))"

definition ensureWritable :: "nat \<Rightarrow> byte_buffer \<Rightarrow> byte_buffer res" where
  "ensureWritable writeLen b =
     (if writableBytes b < writeLen
      then ebind
             (if capacity b \<noteq> 0
              then ebind
                     (if sz_add (writableBytes b) (discardReadBytes b) < writeLen
                      then calculateNewCapacity (sz_add (writerIndex b) writeLen)
                      else Inr (capacity b))
                     (\<lambda>newCapacity.
                        if newCapacity > kMaxCapacity
                        then Inl (Throw (OutOfMemoryException newCapacity))
                        else Inr newCapacity)
              else calculateNewCapacity writeLen)
             (\<lambda>newCapacity. adjustCapacity newCapacity b)
      else Inr b)"

section \<open>Writing\<close>

definition writeBytes :: "byte list \<Rightarrow> byte_buffer \<Rightarrow> byte_buffer res" where
  "writeBytes data b =
     ebind (ensureWritable (length data) b) (\<lambda>b1.
     ebind (mem_write (buffer b1) (writerIndex b1) data) (\<lambda>buf.
       Inr (b1\<lparr>buffer := buf, writerIndex := sz_add (writerIndex b1) (length data)\<rparr>)))"

text \<open>
  \<^verbatim>\<open>writeBytes(channel, length)\<close>: room for \<^verbatim>\<open>length\<close> bytes, then one \<^verbatim>\<open>read\<close> (for a
  datagram channel one \<^verbatim>\<open>recvfrom\<close>) into it. \<open>reply\<close> is the kernel's answer: the bytes it
  stored, or the error number; a result of 0 is \<open>Inr []\<close>. The kernel writes at most
  \<^verbatim>\<open>length\<close> bytes, and a longer reply would overrun the array, which \<open>mem_write\<close> reports.
\<close>

type_synonym io_reply = "nat + byte list"

definition writeBytesFrom ::
    "nat \<Rightarrow> io_reply \<Rightarrow> byte_buffer \<Rightarrow> (int \<times> byte_buffer) res" where
  "writeBytesFrom len reply b =
     ebind (ensureWritable len b) (\<lambda>b1.
       case reply of
         Inl errNum \<Rightarrow> Inr (- 1, b1)
       | Inr got \<Rightarrow>
           ebind (mem_write (buffer b1) (writerIndex b1) got) (\<lambda>buf.
             Inr (int (length got),
                  if length got > 0
                  then b1\<lparr>buffer := buf, writerIndex := sz_add (writerIndex b1) (length got)\<rparr>
                  else b1\<lparr>buffer := buf\<rparr>)))"

definition writeString :: "byte list \<Rightarrow> byte_buffer \<Rightarrow> byte_buffer res" where
  "writeString message b = writeBytes message b"

text \<open>
  \<^verbatim>\<open>writeByteBuffer\<close> copies from \<^verbatim>\<open>&byteBuffer.buffer_[readerIndex_]\<close>: the source array is
  indexed with the reader index of the destination.
\<close>

definition writeByteBuffer :: "byte_buffer \<Rightarrow> byte_buffer \<Rightarrow> byte_buffer res" where
  "writeByteBuffer other b =
     ebind (mem_read (buffer other) (readerIndex b) (readableBytes other))
       (\<lambda>bs. writeBytes bs b)"

definition writeBoolean :: "bool \<Rightarrow> byte_buffer \<Rightarrow> byte_buffer res" where
  "writeBoolean value b = writeBytes [if value then 1 else 0] b"

definition writeByte :: "byte \<Rightarrow> byte_buffer \<Rightarrow> byte_buffer res" where
  "writeByte value b = writeBytes (store_le 1 value) b"

definition writeInt8 :: "8 word \<Rightarrow> byte_buffer \<Rightarrow> byte_buffer res" where
  "writeInt8 value b = writeBytes (store_le 1 value) b"

definition writeUint8 :: "8 word \<Rightarrow> byte_buffer \<Rightarrow> byte_buffer res" where
  "writeUint8 value b = writeBytes (store_le 1 value) b"

definition writeInt16 :: "16 word \<Rightarrow> byte_buffer \<Rightarrow> byte_buffer res" where
  "writeInt16 value b = (let tmp = bswap 2 value in writeBytes (store_le 2 tmp) b)"

definition writeUint16 :: "16 word \<Rightarrow> byte_buffer \<Rightarrow> byte_buffer res" where
  "writeUint16 value b = (let tmp = bswap 2 value in writeBytes (store_le 2 tmp) b)"

definition writeInt32 :: "32 word \<Rightarrow> byte_buffer \<Rightarrow> byte_buffer res" where
  "writeInt32 value b = (let tmp = bswap 4 value in writeBytes (store_le 4 tmp) b)"

definition writeUint32 :: "32 word \<Rightarrow> byte_buffer \<Rightarrow> byte_buffer res" where
  "writeUint32 value b = (let tmp = bswap 4 value in writeBytes (store_le 4 tmp) b)"

definition writeInt64 :: "64 word \<Rightarrow> byte_buffer \<Rightarrow> byte_buffer res" where
  "writeInt64 value b = (let tmp = bswap 8 value in writeBytes (store_le 8 tmp) b)"

definition writeUint64 :: "64 word \<Rightarrow> byte_buffer \<Rightarrow> byte_buffer res" where
  "writeUint64 value b = (let tmp = bswap 8 value in writeBytes (store_le 8 tmp) b)"

text \<open>Floating point values are their IEEE bit patterns, copied in host order.\<close>

definition writeFloat :: "32 word \<Rightarrow> byte_buffer \<Rightarrow> byte_buffer res" where
  "writeFloat value b = writeBytes (store_le 4 value) b"

definition writeDouble :: "64 word \<Rightarrow> byte_buffer \<Rightarrow> byte_buffer res" where
  "writeDouble value b = writeBytes (store_le 8 value) b"

section \<open>Reading\<close>

definition checkReadableBytes :: "nat \<Rightarrow> byte_buffer \<Rightarrow> unit res" where
  "checkReadableBytes bytes b =
     (if readableBytes b < bytes then Inl (Throw (IndexOutOfBoundsException bytes)) else Inr ())"

definition adjustReaderIndex :: "nat \<Rightarrow> byte_buffer \<Rightarrow> byte_buffer" where
  "adjustReaderIndex bytes b =
     (if readableBytes b > bytes
      then b\<lparr>readerIndex := sz_add (readerIndex b) bytes\<rparr>
      else bb_clear b)"

definition readBytes :: "nat \<Rightarrow> byte_buffer \<Rightarrow> (byte list \<times> byte_buffer) res" where
  "readBytes len b =
     ebind (checkReadableBytes len b) (\<lambda>_.
     ebind (mem_read (buffer b) (readerIndex b) len) (\<lambda>s.
       Inr (s, adjustReaderIndex len b)))"

text \<open>
  Every fixed-size read checks, copies into a local of that size and advances, which is
  \<open>readBytes\<close> of the size followed by the interpretation of the bytes.
\<close>

definition readBoolean :: "byte_buffer \<Rightarrow> (bool \<times> byte_buffer) res" where
  "readBoolean b =
     ebind (readBytes 1 b) (\<lambda>(s, b').
       if s = [0] then Inr (False, b') else if s = [1] then Inr (True, b') else Inl Undefined)"

definition readByte :: "byte_buffer \<Rightarrow> (byte \<times> byte_buffer) res" where
  "readByte b = ebind (readBytes 1 b) (\<lambda>(s, b'). Inr (load_le s, b'))"

definition readInt8 :: "byte_buffer \<Rightarrow> (8 word \<times> byte_buffer) res" where
  "readInt8 b = ebind (readBytes 1 b) (\<lambda>(s, b'). Inr (load_le s, b'))"

definition readUint8 :: "byte_buffer \<Rightarrow> (8 word \<times> byte_buffer) res" where
  "readUint8 b = ebind (readBytes 1 b) (\<lambda>(s, b'). Inr (load_le s, b'))"

definition readInt16 :: "byte_buffer \<Rightarrow> (16 word \<times> byte_buffer) res" where
  "readInt16 b = ebind (readBytes 2 b) (\<lambda>(s, b'). Inr (bswap 2 (load_le s), b'))"

definition readUint16 :: "byte_buffer \<Rightarrow> (16 word \<times> byte_buffer) res" where
  "readUint16 b = ebind (readBytes 2 b) (\<lambda>(s, b'). Inr (bswap 2 (load_le s), b'))"

definition readInt32 :: "byte_buffer \<Rightarrow> (32 word \<times> byte_buffer) res" where
  "readInt32 b = ebind (readBytes 4 b) (\<lambda>(s, b'). Inr (bswap 4 (load_le s), b'))"

definition readUint32 :: "byte_buffer \<Rightarrow> (32 word \<times> byte_buffer) res" where
  "readUint32 b = ebind (readBytes 4 b) (\<lambda>(s, b'). Inr (bswap 4 (load_le s), b'))"

definition readInt64 :: "byte_buffer \<Rightarrow> (64 word \<times> byte_buffer) res" where
  "readInt64 b = ebind (readBytes 8 b) (\<lambda>(s, b'). Inr (bswap 8 (load_le s), b'))"

definition readUint64 :: "byte_buffer \<Rightarrow> (64 word \<times> byte_buffer) res" where
  "readUint64 b = ebind (readBytes 8 b) (\<lambda>(s, b'). Inr (bswap 8 (load_le s), b'))"

definition readFloat :: "byte_buffer \<Rightarrow> (32 word \<times> byte_buffer) res" where
  "readFloat b = ebind (readBytes 4 b) (\<lambda>(s, b'). Inr (load_le s, b'))"

definition readDouble :: "byte_buffer \<Rightarrow> (64 word \<times> byte_buffer) res" where
  "readDouble b = ebind (readBytes 8 b) (\<lambda>(s, b'). Inr (load_le s, b'))"

definition bb_toString :: "byte_buffer \<Rightarrow> byte list res" where
  "bb_toString b = mem_read (buffer b) (readerIndex b) (readableBytes b)"

section \<open>Construction, copy, move, swap\<close>

definition bb_new :: "nat \<Rightarrow> byte_buffer res" where
  "bb_new cap =
     ebind (new_array cap) (\<lambda>buf.
       Inr \<lparr>buffer = buf, readerIndex = 0, writerIndex = 0, capacity = cap\<rparr>)"

definition bb_default :: "byte_buffer res" where
  "bb_default = bb_new kDefaultInitialCapacity"

definition bb_null :: byte_buffer where
  "bb_null = \<lparr>buffer = [], readerIndex = 0, writerIndex = 0, capacity = 0\<rparr>"

definition bb_of_data :: "byte list \<Rightarrow> byte_buffer res" where
  "bb_of_data data = writeBytes data bb_null"

definition bb_copy :: "byte_buffer \<Rightarrow> byte_buffer res" where
  "bb_copy other =
     ebind (new_array (capacity other)) (\<lambda>buf.
     ebind (mem_read (buffer other) 0 (capacity other)) (\<lambda>bs.
     ebind (mem_write buf 0 bs) (\<lambda>buf'.
       Inr \<lparr>buffer = buf', readerIndex = readerIndex other,
            writerIndex = writerIndex other, capacity = capacity other\<rparr>)))"

text \<open>Move construction and assignment: the new object and what is left of the old one.\<close>

definition bb_move :: "byte_buffer \<Rightarrow> byte_buffer \<times> byte_buffer" where
  "bb_move other =
     (\<lparr>buffer = buffer other, readerIndex = readerIndex other,
       writerIndex = writerIndex other, capacity = capacity other\<rparr>,
      other\<lparr>buffer := [], readerIndex := 0, writerIndex := 0, capacity := 0\<rparr>)"

definition bb_swap :: "byte_buffer \<Rightarrow> byte_buffer \<Rightarrow> byte_buffer \<times> byte_buffer" where
  "bb_swap b other =
     (b\<lparr>buffer := buffer other, readerIndex := readerIndex other,
        writerIndex := writerIndex other, capacity := capacity other\<rparr>,
      other\<lparr>buffer := buffer b, readerIndex := readerIndex b,
        writerIndex := writerIndex b, capacity := capacity b\<rparr>)"

section \<open>Invariant and abstraction\<close>

definition bb_inv :: "byte_buffer \<Rightarrow> bool" where
  "bb_inv b \<longleftrightarrow> readerIndex b \<le> writerIndex b \<and> writerIndex b \<le> capacity b \<and>
     length (buffer b) = capacity b \<and> capacity b \<le> ptrdiff_max"

definition content :: "byte_buffer \<Rightarrow> byte list" where
  "content b = take (writerIndex b - readerIndex b) (drop (readerIndex b) (buffer b))"


lemma content_length: "bb_inv b \<Longrightarrow> length (content b) = writerIndex b - readerIndex b"
  by (auto simp: content_def bb_inv_def)

lemma readableBytes_content: "bb_inv b \<Longrightarrow> readableBytes b = length (content b)"
  by (simp add: readableBytes_def content_length) (simp add: bb_inv_def nets_size)

lemma writableBytes_inv: "bb_inv b \<Longrightarrow> writableBytes b = capacity b - writerIndex b"
  by (simp add: writableBytes_def bb_inv_def nets_size)

lemma bb_inv_bounds:
  assumes "bb_inv b"
  shows "readerIndex b \<le> writerIndex b" "writerIndex b \<le> capacity b"
    "length (buffer b) = capacity b" "capacity b \<le> ptrdiff_max"
  using assms by (auto simp: bb_inv_def)

lemma bb_inv_null [simp]: "bb_inv bb_null" "content bb_null = []"
  by (simp_all add: bb_inv_def bb_null_def content_def)

lemma bb_new_ok:
  "cap \<le> ptrdiff_max \<Longrightarrow> \<exists>b. bb_new cap = Inr b \<and> bb_inv b \<and> content b = [] \<and> capacity b = cap"
  by (simp add: bb_new_def nets_mem bb_inv_def content_def)

subsection \<open>The capacity loop\<close>

lemma capacityLoop_returns:
  assumes "t \<le> 2 ^ 63" and "i \<le> 63"
  shows "\<exists>j. i \<le> j \<and> j \<le> 63 \<and> capacityLoop (2 ^ i) t = Some (2 ^ j) \<and> t \<le> 2 ^ j
           \<and> (j = i \<or> 2 ^ (j - 1) < t)"
  using assms(2)
proof (induction "63 - i" arbitrary: i)
  case 0
  then have i: "i = 63" by simp
  have "\<not> 2 ^ i < t" using assms(1) unfolding i by simp
  then have "capacityLoop (2 ^ i) t = Some (2 ^ i)" and "t \<le> 2 ^ i"
    by (simp_all add: capacityLoop.simps)
  with i show ?case by blast
next
  case (Suc d)
  show ?case
  proof (cases "2 ^ i < t")
    case False
    then have "capacityLoop (2 ^ i) t = Some (2 ^ i)" and "t \<le> 2 ^ i"
      by (simp_all add: capacityLoop.simps)
    with Suc.prems show ?thesis by blast
  next
    case True
    have "i < 63" using Suc.hyps(2) by simp
    then have "(2::nat) ^ Suc i \<le> 2 ^ 63"
      by (intro power_increasing) auto
    then have "sz_double (2 ^ i) = 2 ^ Suc i"
      by (simp add: sz_double_def size_mod_def)
    with True have step: "capacityLoop (2 ^ i) t = capacityLoop (2 ^ Suc i) t"
      by (simp add: capacityLoop.simps [of "2 ^ i"])
    have "d = 63 - Suc i" using Suc.hyps(2) by simp
    from Suc.hyps(1) [OF this] \<open>i < 63\<close> obtain j where
      j: "Suc i \<le> j" "j \<le> 63" "capacityLoop (2 ^ Suc i) t = Some (2 ^ j)" "t \<le> 2 ^ j"
        "j = Suc i \<or> 2 ^ (j - 1) < t"
      by auto
    with True step show ?thesis
      by (intro exI [of _ j]) auto
  qed
qed

text \<open>The values the loop can visit: powers of two below the word size, then 0 for ever.\<close>

definition doubling_orbit :: "nat \<Rightarrow> bool" where
  "doubling_orbit n \<longleftrightarrow> n = 0 \<or> (\<exists>i \<le> 63. n = 2 ^ i)"

lemma doubling_orbit_le: "doubling_orbit n \<Longrightarrow> n \<le> 2 ^ 63"
  using power_increasing [of _ 63 "2::nat"] unfolding doubling_orbit_def by auto

lemma doubling_orbit_step:
  assumes "doubling_orbit n"
  shows "doubling_orbit (sz_double n)"
proof (cases "n = 0 \<or> n = 2 ^ 63")
  case True
  then show ?thesis by (auto simp: doubling_orbit_def sz_double_def size_mod_def)
next
  case False
  with assms obtain i where i: "i \<le> 63" "n = 2 ^ i" "i \<noteq> 63"
    unfolding doubling_orbit_def by blast
  then have "Suc i \<le> 63" by simp
  then have "(2::nat) ^ Suc i \<le> 2 ^ 63" by (rule power_increasing) simp
  then have "sz_double n = 2 ^ Suc i" by (simp add: i(2) sz_double_def size_mod_def)
  with \<open>Suc i \<le> 63\<close> show ?thesis unfolding doubling_orbit_def by blast
qed

lemma capacityLoop_stuck:
  assumes "capacityLoop n t = Some c" and "doubling_orbit n"
  shows "t \<le> 2 ^ 63"
proof -
  have "doubling_orbit n \<longrightarrow> t \<le> 2 ^ 63"
  proof (rule capacityLoop.raw_induct [where P = "\<lambda>n t c. doubling_orbit n \<longrightarrow> t \<le> 2 ^ 63",
        OF _ assms(1)], rule impI)
    fix f n t c
    assume IH: "\<And>n t c. f n t = Some c \<Longrightarrow> doubling_orbit n \<longrightarrow> t \<le> 2 ^ 63"
      and eq: "(if n < t then f (sz_double n) t else Some n) = Some c"
      and n: "doubling_orbit n"
    show "t \<le> 2 ^ 63"
    proof (cases "n < t")
      case True
      with eq have "f (sz_double n) t = Some c" by simp
      with IH doubling_orbit_step [OF n] show ?thesis by blast
    next
      case False
      with doubling_orbit_le [OF n] show ?thesis by simp
    qed
  qed
  with assms(2) show ?thesis by blast
qed

lemma capacityLoop_hangs: "2 ^ 63 < t \<Longrightarrow> capacityLoop 1 t = None"
proof (rule ccontr)
  assume t: "2 ^ 63 < t" and "capacityLoop 1 t \<noteq> None"
  then obtain c where "capacityLoop 1 t = Some c" by auto
  then have "t \<le> 2 ^ 63"
    by (rule capacityLoop_stuck) (auto simp: doubling_orbit_def intro: exI [of _ 0])
  with t show False by simp
qed

lemma calculateNewCapacity_pow2:
  assumes "0 < t" and "t \<le> 2 ^ 63"
  obtains j where "calculateNewCapacity t = Inr (2 ^ j)" "j \<le> 63" "t \<le> 2 ^ j"
    "j = 0 \<or> 2 ^ (j - 1) < t"
  using capacityLoop_returns [OF assms(2), of 0] assms(1)
  by (auto simp: calculateNewCapacity_def)

lemma calculateNewCapacity_kMax:
  assumes "0 < t" and "t \<le> 2 ^ 63"
  shows "\<exists>c. calculateNewCapacity t = Inr c \<and> t \<le> c \<and> (c > kMaxCapacity \<longleftrightarrow> t > 2 ^ 30)"
proof -
  from assms obtain j where j: "calculateNewCapacity t = Inr (2 ^ j)" "j \<le> 63" "t \<le> 2 ^ j"
    "j = 0 \<or> 2 ^ (j - 1) < t"
    by (rule calculateNewCapacity_pow2)
  have "(2::nat) ^ j > kMaxCapacity \<longleftrightarrow> t > 2 ^ 30"
  proof
    assume "kMaxCapacity < 2 ^ j"
    then have "\<not> j \<le> 30"
      using power_increasing [of j 30 "2::nat"] by (auto simp: kMaxCapacity_def)
    then have "(2::nat) ^ 30 \<le> 2 ^ (j - 1)" by (intro power_increasing) auto
    with j(4) \<open>\<not> j \<le> 30\<close> show "t > 2 ^ 30" by auto
  next
    assume "t > 2 ^ 30"
    with j(3) have "(2::nat) ^ 30 < 2 ^ j" by linarith
    then have "30 < j" by (rule power_less_imp_less_exp [rotated]) simp
    then have "(2::nat) ^ 31 \<le> 2 ^ j" by (intro power_increasing) auto
    then show "kMaxCapacity < 2 ^ j" by (simp add: kMaxCapacity_def)
  qed
  with j show ?thesis by blast
qed

subsection \<open>Making room\<close>

lemma adjustCapacity_ok:
  assumes inv: "bb_inv b" and c: "c \<le> ptrdiff_max" and fits: "length (content b) \<le> c"
  obtains b' where "adjustCapacity c b = Inr b'" "bb_inv b'" "content b' = content b"
    "readerIndex b' = 0" "writerIndex b' = length (content b)" "capacity b' = c"
proof -
  note bounds = bb_inv_bounds [OF inv]
  let ?n = "length (content b)"
  have n: "?n = writerIndex b - readerIndex b" by (rule content_length [OF inv])
  have rd: "mem_read (buffer b) (readerIndex b) ?n = Inr (content b)"
    using bounds by (simp add: nets_mem n) (simp add: content_def)
  define base where "base = (if c \<noteq> capacity b then replicate c 0 else buffer b)"
  have len: "length base = c" using bounds by (simp add: base_def)
  define buf where "buf = content b @ drop ?n base"
  have wr: "mem_write base 0 (content b) = Inr buf"
    using fits len by (simp add: nets_mem buf_def)
  have zero: "?n = 0 \<Longrightarrow> buf = base" by (simp add: buf_def)
  define b' where "b' = b\<lparr>buffer := buf, capacity := c, readerIndex := 0, writerIndex := ?n\<rparr>"
  have "adjustCapacity c b = Inr b'"
    using rd wr zero c
    by (auto simp: adjustCapacity_def Let_def readableBytes_content [OF inv] nets_mem b'_def base_def)
  moreover have "length buf = c" using fits len by (simp add: buf_def)
  then have "bb_inv b'" using fits c by (simp add: bb_inv_def b'_def)
  moreover have "content b' = content b" unfolding content_def [of b'] by (simp add: b'_def buf_def)
  ultimately show thesis by (intro that [of b']) (simp_all add: b'_def)
qed

text \<open>When \<open>ensureWritable\<close> refuses to grow a buffer that satisfies its invariant.\<close>

definition growth_refused :: "nat \<Rightarrow> byte_buffer \<Rightarrow> bool" where
  "growth_refused n b \<longleftrightarrow> capacity b - writerIndex b < n \<and> capacity b \<noteq> 0 \<and>
     (if capacity b - writerIndex b + readerIndex b < n
      then 2 ^ 30 < writerIndex b + n else kMaxCapacity < capacity b)"

lemma ensureWritable_refused:
  assumes inv: "bb_inv b" and room: "writerIndex b + n \<le> 2 ^ 63" and "growth_refused n b"
  shows "\<exists>c. ensureWritable n b = Inl (Throw (OutOfMemoryException c)) \<and> kMaxCapacity < c"
proof -
  note bounds = bb_inv_bounds [OF inv]
  have "sz_add (writableBytes b) (discardReadBytes b) = capacity b - writerIndex b + readerIndex b"
    "sz_add (writerIndex b) n = writerIndex b + n"
    using bounds room
    by (simp_all add: writableBytes_inv [OF inv] discardReadBytes_def sz_add_def size_mod_def ptrdiff_max_def)
  moreover have "\<exists>c. calculateNewCapacity (writerIndex b + n) = Inr c \<and>
      (c > kMaxCapacity \<longleftrightarrow> writerIndex b + n > 2 ^ 30)"
    using calculateNewCapacity_kMax [of "writerIndex b + n"] room assms(3)
    by (auto simp: growth_refused_def)
  ultimately show ?thesis
    using assms(3) by (auto simp: ensureWritable_def growth_refused_def writableBytes_inv [OF inv] split: if_splits)
qed

lemma calculateNewCapacity_small:
  assumes "0 < n" and "n \<le> 2 ^ 62"
  obtains c where "calculateNewCapacity n = Inr c" "n \<le> c" "c \<le> 2 ^ 62"
    "n \<le> 2 ^ 30 \<longrightarrow> c \<le> kMaxCapacity"
proof -
  have "n \<le> 2 ^ 63" using assms(2) by simp
  with assms(1) obtain j where j: "calculateNewCapacity n = Inr (2 ^ j)" "j \<le> 63" "n \<le> 2 ^ j"
    "j = 0 \<or> 2 ^ (j - 1) < n"
    by (rule calculateNewCapacity_pow2)
  have "j \<le> 62"
  proof (rule ccontr)
    assume "\<not> j \<le> 62"
    then have "(2::nat) ^ 62 \<le> 2 ^ (j - 1)" by (intro power_increasing) auto
    with j(4) assms(2) \<open>\<not> j \<le> 62\<close> show False by auto
  qed
  then have "(2::nat) ^ j \<le> 2 ^ 62" by (rule power_increasing) simp
  moreover have "n \<le> 2 ^ 30 \<longrightarrow> 2 ^ j \<le> kMaxCapacity"
    using calculateNewCapacity_kMax [OF assms(1) \<open>n \<le> 2 ^ 63\<close>] j(1) by auto
  ultimately show thesis using j by (intro that [of "2 ^ j"]) auto
qed

text \<open>The capacity the buffer is moved to when it has to make room and is not refused.\<close>

lemma ensureWritable_target:
  assumes inv: "bb_inv b" and room: "writerIndex b + n \<le> 2 ^ 63" and n: "n \<le> 2 ^ 62"
    and ok: "\<not> growth_refused n b" and short: "writableBytes b < n"
  obtains c where "ensureWritable n b = adjustCapacity c b" "length (content b) + n \<le> c"
      "c \<le> 2 ^ 62" "capacity b \<le> c"
      "capacity b \<le> kMaxCapacity \<and> writerIndex b + n \<le> 2 ^ 30 \<longrightarrow> c \<le> kMaxCapacity"
      "c = capacity b \<or> capacity b < length (content b) + n \<and> calculateNewCapacity (writerIndex b + n) = Inr c"
proof -
  note bounds = bb_inv_bounds [OF inv] and w = writableBytes_inv [OF inv]
  have eqs: "sz_add (writableBytes b) (discardReadBytes b) = capacity b - writerIndex b + readerIndex b"
    "sz_add (writerIndex b) n = writerIndex b + n"
    using bounds room
    by (simp_all add: w discardReadBytes_def sz_add_def size_mod_def ptrdiff_max_def)
  have "0 < n" using short by simp
  consider (null) "capacity b = 0"
    | (grow) "capacity b \<noteq> 0" "capacity b - writerIndex b + readerIndex b < n"
    | (compact) "capacity b \<noteq> 0" "\<not> capacity b - writerIndex b + readerIndex b < n"
    by blast
  then show thesis
  proof cases
    case null
    from \<open>0 < n\<close> n obtain c where "calculateNewCapacity n = Inr c" "n \<le> c" "c \<le> 2 ^ 62"
        "n \<le> 2 ^ 30 \<longrightarrow> c \<le> kMaxCapacity"
      by (rule calculateNewCapacity_small)
    with null short bounds show thesis
      by (intro that [of c]) (simp_all add: ensureWritable_def content_length [OF inv])
  next
    case grow
    obtain c where c: "calculateNewCapacity (writerIndex b + n) = Inr c" "writerIndex b + n \<le> c"
        "c > kMaxCapacity \<longleftrightarrow> writerIndex b + n > 2 ^ 30"
      using calculateNewCapacity_kMax [of "writerIndex b + n"] room \<open>0 < n\<close> by blast
    have small: "\<not> kMaxCapacity < c"
      using ok c(3) grow short by (simp add: growth_refused_def w)
    have "capacity b \<le> c" "length (content b) + n \<le> c" "capacity b < length (content b) + n"
      using c(2) short grow(2) bounds content_length [OF inv] by (simp_all add: w)
    with small grow c(1) short bounds show thesis
      by (intro that [of c]) (simp_all add: ensureWritable_def eqs kMaxCapacity_def)
  next
    case compact
    then have "\<not> kMaxCapacity < capacity b"
      using ok short by (simp add: growth_refused_def w)
    with compact short bounds show thesis
      by (intro that [of "capacity b"])
        (simp_all add: ensureWritable_def eqs content_length [OF inv] kMaxCapacity_def)
  qed
qed

text \<open>
  Buffers never hold more than \<open>2 ^ 62\<close> bytes when every single write is at most that long:
  under this bound no index computation wraps and the capacity loop ends.
\<close>

definition bb_ok :: "byte_buffer \<Rightarrow> bool" where
  "bb_ok b \<longleftrightarrow> bb_inv b \<and> capacity b \<le> 2 ^ 62"

lemma bb_okD:
  assumes "bb_ok b"
  shows "bb_inv b" "n \<le> 2 ^ 62 \<Longrightarrow> writerIndex b + n \<le> 2 ^ 63"
  using assms by (auto simp: bb_ok_def bb_inv_def)

lemma ensureWritable_grows:
  assumes okb: "bb_ok b" and n: "n \<le> 2 ^ 62" and ok: "\<not> growth_refused n b"
  obtains b' where "ensureWritable n b = Inr b'" "bb_ok b'" "content b' = content b"
    "writerIndex b' + n \<le> capacity b'" "capacity b \<le> capacity b'" "writerIndex b' \<le> writerIndex b"
    "capacity b \<le> kMaxCapacity \<and> writerIndex b + n \<le> 2 ^ 30 \<longrightarrow> capacity b' \<le> kMaxCapacity"
proof (cases "writableBytes b < n")
  case False
  with okb show thesis
    by (intro that [of b]) (auto simp: ensureWritable_def writableBytes_inv bb_inv_def bb_ok_def)
next
  case True
  note inv = bb_okD(1) [OF okb] and room = bb_okD(2) [OF okb n]
  from inv room n ok True obtain c where c: "ensureWritable n b = adjustCapacity c b"
      "length (content b) + n \<le> c" "c \<le> 2 ^ 62" "capacity b \<le> c"
      "capacity b \<le> kMaxCapacity \<and> writerIndex b + n \<le> 2 ^ 30 \<longrightarrow> c \<le> kMaxCapacity"
    by (rule ensureWritable_target)
  have "c \<le> ptrdiff_max" "length (content b) \<le> c" using c(2,3) by (auto simp: ptrdiff_max_def)
  with inv obtain b' where "adjustCapacity c b = Inr b'" "bb_inv b'"
      "content b' = content b" "writerIndex b' = length (content b)" "capacity b' = c"
    by (rule adjustCapacity_ok)
  with c content_length [OF inv] show thesis by (intro that [of b']) (auto simp: bb_ok_def)
qed

lemma growth_not_refused:
  "capacity b \<le> kMaxCapacity \<Longrightarrow> writerIndex b + n \<le> 2 ^ 30 \<Longrightarrow> \<not> growth_refused n b"
  by (auto simp: growth_refused_def)

subsection \<open>Writing and reading raw bytes\<close>

lemma store_at_writer:
  assumes inv: "bb_inv b" and fits: "writerIndex b + length data \<le> capacity b"
  obtains buf where "mem_write (buffer b) (writerIndex b) data = Inr buf"
    "bb_inv (b\<lparr>buffer := buf, writerIndex := sz_add (writerIndex b) (length data)\<rparr>)"
    "content (b\<lparr>buffer := buf, writerIndex := sz_add (writerIndex b) (length data)\<rparr>)
       = content b @ data"
proof -
  note bounds = bb_inv_bounds [OF inv]
  define buf where
    "buf = take (writerIndex b) (buffer b) @ data @ drop (writerIndex b + length data) (buffer b)"
  have "sz_add (writerIndex b) (length data) = writerIndex b + length data"
    using bounds fits by (simp add: sz_add_def size_mod_def ptrdiff_max_def)
  moreover have "mem_write (buffer b) (writerIndex b) data = Inr buf"
    using bounds fits by (simp add: nets_mem buf_def)
  moreover have "take (writerIndex b + length data - readerIndex b) (drop (readerIndex b) buf)
      = content b @ data"
    unfolding buf_def content_def
    by (rule window_extend) (use bounds fits in simp_all)
  ultimately show thesis
    using bounds fits by (intro that [of buf]) (simp_all add: bb_inv_def buf_def content_def)
qed

lemma writeBytes_ok:
  assumes okb: "bb_ok b" and len: "length data \<le> 2 ^ 62" and ok: "\<not> growth_refused (length data) b"
  obtains b' where "writeBytes data b = Inr b'" "bb_ok b'" "content b' = content b @ data"
    "capacity b \<le> capacity b'" "writerIndex b' \<le> writerIndex b + length data"
    "capacity b \<le> kMaxCapacity \<and> writerIndex b + length data \<le> 2 ^ 30 \<longrightarrow> capacity b' \<le> kMaxCapacity"
proof -
  from assms obtain b1 where b1: "ensureWritable (length data) b = Inr b1" "bb_ok b1"
      "content b1 = content b" "writerIndex b1 + length data \<le> capacity b1" "capacity b \<le> capacity b1"
      "writerIndex b1 \<le> writerIndex b"
      "capacity b \<le> kMaxCapacity \<and> writerIndex b + length data \<le> 2 ^ 30 \<longrightarrow> capacity b1 \<le> kMaxCapacity"
    by (rule ensureWritable_grows)
  from bb_okD(1) [OF b1(2)] b1(4) obtain buf where
      "mem_write (buffer b1) (writerIndex b1) data = Inr buf"
      "bb_inv (b1\<lparr>buffer := buf, writerIndex := sz_add (writerIndex b1) (length data)\<rparr>)"
      "content (b1\<lparr>buffer := buf, writerIndex := sz_add (writerIndex b1) (length data)\<rparr>)
         = content b1 @ data"
    by (rule store_at_writer)
  moreover have "sz_add (writerIndex b1) (length data) = writerIndex b1 + length data"
    using b1(2,4) by (simp add: sz_add_def size_mod_def bb_ok_def)
  ultimately show thesis using b1
    by (intro that [of "b1\<lparr>buffer := buf, writerIndex := sz_add (writerIndex b1) (length data)\<rparr>"])
      (simp_all add: writeBytes_def bb_ok_def)
qed

lemma writeBytes_refused:
  assumes "bb_ok b" and "length data \<le> 2 ^ 62" and "growth_refused (length data) b"
  shows "\<exists>c. writeBytes data b = Inl (Throw (OutOfMemoryException c)) \<and> kMaxCapacity < c"
  using ensureWritable_refused [OF bb_okD(1) [OF assms(1)] bb_okD(2) [OF assms(1,2)] assms(3)]
  by (auto simp: writeBytes_def)

lemma writeBytes_InrD:
  assumes "bb_ok b" and "length data \<le> 2 ^ 62" and "writeBytes data b = Inr b'"
  shows "bb_ok b' \<and> content b' = content b @ data"
proof (cases "growth_refused (length data) b")
  case True
  with assms writeBytes_refused show ?thesis by fastforce
next
  case False
  with assms(1,2) obtain b'' where "writeBytes data b = Inr b''" "bb_ok b''" "content b'' = content b @ data"
    by (rule writeBytes_ok)
  with assms(3) show ?thesis by simp
qed

lemma adjustReaderIndex_ok:
  assumes inv: "bb_inv b" and n: "n \<le> length (content b)"
  shows "bb_inv (adjustReaderIndex n b)" "content (adjustReaderIndex n b) = drop n (content b)"
proof -
  note bounds = bb_inv_bounds [OF inv] and len = content_length [OF inv]
  have "readableBytes b > n \<Longrightarrow> sz_add (readerIndex b) n = readerIndex b + n"
    using bounds n len by (simp add: sz_add_def size_mod_def ptrdiff_max_def)
  then show "bb_inv (adjustReaderIndex n b)" "content (adjustReaderIndex n b) = drop n (content b)"
    using bounds n len readableBytes_content [OF inv]
    by (auto simp: adjustReaderIndex_def bb_clear_def bb_inv_def content_def drop_take add.commute)
qed

lemma readBytes_ok:
  assumes inv: "bb_inv b" and n: "n \<le> length (content b)"
  shows "readBytes n b = Inr (take n (content b), adjustReaderIndex n b)"
proof -
  note bounds = bb_inv_bounds [OF inv] and len = content_length [OF inv]
  have "mem_read (buffer b) (readerIndex b) n = Inr (take n (content b))"
    using bounds n len by (simp add: nets_mem content_def min_def)
  with n readableBytes_content [OF inv] show ?thesis
    by (simp add: readBytes_def checkReadableBytes_def)
qed

lemma adjustReaderIndex_bounds:
  assumes "bb_ok b" and "n \<le> length (content b)"
  shows "bb_ok (adjustReaderIndex n b)" "writerIndex (adjustReaderIndex n b) \<le> writerIndex b"
    "capacity (adjustReaderIndex n b) = capacity b"
  using assms adjustReaderIndex_ok [of b n]
  by (auto simp: bb_ok_def adjustReaderIndex_def bb_clear_def)

lemma readBytes_short:
  "bb_inv b \<Longrightarrow> length (content b) < n \<Longrightarrow>
     readBytes n b = Inl (Throw (IndexOutOfBoundsException n))"
  by (simp add: readBytes_def checkReadableBytes_def readableBytes_content)

section \<open>The first-in first-out contract\<close>

text \<open>
  What clients rely on: bytes put in come out in order. \<open>used\<close> is how much of the
  \<open>limit\<close> the object has consumed; as long as a put stays within it, it succeeds.
\<close>

fun put_all :: "(byte list \<Rightarrow> 'b \<Rightarrow> 'b res) \<Rightarrow> byte list list \<Rightarrow> 'b \<Rightarrow> 'b res" where
  "put_all put [] b = Inr b"
| "put_all put (c # cs) b = ebind (put c b) (put_all put cs)"

fun get_all ::
    "(nat \<Rightarrow> 'b \<Rightarrow> (byte list \<times> 'b) res) \<Rightarrow> nat list \<Rightarrow> 'b \<Rightarrow> (byte list list \<times> 'b) res" where
  "get_all get [] b = Inr ([], b)"
| "get_all get (n # ns) b =
     ebind (get n b) (\<lambda>(s, b'). ebind (get_all get ns b') (\<lambda>(ss, b''). Inr (s # ss, b'')))"

locale byte_fifo =
  fixes inv :: "'b \<Rightarrow> bool" and bytes_of :: "'b \<Rightarrow> byte list" and used :: "'b \<Rightarrow> nat"
    and limit :: nat
    and put :: "byte list \<Rightarrow> 'b \<Rightarrow> 'b res" and get :: "nat \<Rightarrow> 'b \<Rightarrow> (byte list \<times> 'b) res"
  assumes put_ok: "inv b \<Longrightarrow> used b + length bs \<le> limit \<Longrightarrow>
      \<exists>b'. put bs b = Inr b' \<and> inv b' \<and> bytes_of b' = bytes_of b @ bs \<and> used b' \<le> used b + length bs"
    and get_ok: "inv b \<Longrightarrow> n \<le> length (bytes_of b) \<Longrightarrow>
      \<exists>b'. get n b = Inr (take n (bytes_of b), b') \<and> inv b' \<and> bytes_of b' = drop n (bytes_of b)
        \<and> used b' \<le> used b"
begin

lemma put_all_ok:
  "inv b \<Longrightarrow> used b + length (concat cs) \<le> limit \<Longrightarrow>
     \<exists>b'. put_all put cs b = Inr b' \<and> inv b' \<and> bytes_of b' = bytes_of b @ concat cs"
proof (induction cs arbitrary: b)
  case Nil
  then show ?case by simp
next
  case (Cons c cs)
  have "used b + length c \<le> limit" using Cons.prems(2) by simp
  with put_ok [OF Cons.prems(1)] obtain b1 where b1: "put c b = Inr b1" "inv b1"
      "bytes_of b1 = bytes_of b @ c" "used b1 \<le> used b + length c"
    by blast
  have "used b1 + length (concat cs) \<le> limit" using b1(4) Cons.prems(2) by simp
  with Cons.IH [OF b1(2)] b1 show ?case by auto
qed

lemma get_all_ok:
  "inv b \<Longrightarrow> bytes_of b = concat cs @ rest \<Longrightarrow>
     \<exists>b'. get_all get (map length cs) b = Inr (cs, b') \<and> inv b' \<and> bytes_of b' = rest"
proof (induction cs arbitrary: b)
  case Nil
  then show ?case by simp
next
  case (Cons c cs)
  have "length c \<le> length (bytes_of b)" using Cons.prems(2) by simp
  from get_ok [OF Cons.prems(1) this] obtain b1 where b1: "get (length c) b = Inr (c, b1)" "inv b1"
      "bytes_of b1 = concat cs @ rest"
    unfolding Cons.prems(2) by auto
  with Cons.IH [OF b1(2,3)] show ?case by auto
qed

lemma put_get_all:
  assumes "inv b" and "bytes_of b = []" and "used b + length (concat cs) \<le> limit"
  shows "\<exists>b1 b2. put_all put cs b = Inr b1 \<and> get_all get (map length cs) b1 = Inr (cs, b2)
           \<and> inv b2 \<and> bytes_of b2 = []"
proof -
  from put_all_ok [OF assms(1,3)] assms(2) obtain b1 where
    b1: "put_all put cs b = Inr b1" "inv b1" "bytes_of b1 = concat cs @ []"
    by auto
  from get_all_ok [OF b1(2,3)] b1(1) show ?thesis by blast
qed

end

text \<open>A buffer within the capacity limit implements the contract up to one gibibyte.\<close>

definition bb_small :: "byte_buffer \<Rightarrow> bool" where
  "bb_small b \<longleftrightarrow> bb_ok b \<and> capacity b \<le> kMaxCapacity"

interpretation bb: byte_fifo bb_small content writerIndex "2 ^ 30" writeBytes readBytes
proof
  fix b and bs :: "byte list" assume b: "bb_small b" "writerIndex b + length bs \<le> 2 ^ 30"
  then have "bb_ok b" "length bs \<le> 2 ^ 62" "\<not> growth_refused (length bs) b"
    by (auto simp: bb_small_def growth_not_refused)
  then obtain b' where "writeBytes bs b = Inr b'" "bb_ok b'" "content b' = content b @ bs"
      "writerIndex b' \<le> writerIndex b + length bs"
      "capacity b \<le> kMaxCapacity \<and> writerIndex b + length bs \<le> 2 ^ 30 \<longrightarrow> capacity b' \<le> kMaxCapacity"
    by (rule writeBytes_ok)
  with b show "\<exists>b'. writeBytes bs b = Inr b' \<and> bb_small b' \<and> content b' = content b @ bs
      \<and> writerIndex b' \<le> writerIndex b + length bs"
    by (auto simp: bb_small_def)
next
  fix b n assume b: "bb_small b" "n \<le> length (content b)"
  then have "bb_ok b" "bb_inv b" by (auto simp: bb_small_def bb_ok_def)
  with b readBytes_ok [of b n] adjustReaderIndex_ok [of b n] adjustReaderIndex_bounds [of b n]
  show "\<exists>b'. readBytes n b = Inr (take n (content b), b') \<and> bb_small b' \<and> content b' = drop n (content b)
      \<and> writerIndex b' \<le> writerIndex b"
    by (auto simp: bb_small_def)
qed

section \<open>Typed fields\<close>

text \<open>The typed writers and readers of the class, by the type they transfer.\<close>

datatype field =
    FBool bool | FByte byte | FInt8 "8 word" | FUint8 "8 word" | FInt16 "16 word"
  | FUint16 "16 word" | FInt32 "32 word" | FUint32 "32 word" | FInt64 "64 word"
  | FUint64 "64 word" | FFloat "32 word" | FDouble "64 word" | FBytes "byte list"

datatype field_kind =
    KBool | KByte | KInt8 | KUint8 | KInt16 | KUint16 | KInt32 | KUint32 | KInt64 | KUint64
  | KFloat | KDouble | KBytes nat

fun kind_of :: "field \<Rightarrow> field_kind" where
  "kind_of (FBool v) = KBool"
| "kind_of (FByte v) = KByte"
| "kind_of (FInt8 v) = KInt8"
| "kind_of (FUint8 v) = KUint8"
| "kind_of (FInt16 v) = KInt16"
| "kind_of (FUint16 v) = KUint16"
| "kind_of (FInt32 v) = KInt32"
| "kind_of (FUint32 v) = KUint32"
| "kind_of (FInt64 v) = KInt64"
| "kind_of (FUint64 v) = KUint64"
| "kind_of (FFloat v) = KFloat"
| "kind_of (FDouble v) = KDouble"
| "kind_of (FBytes bs) = KBytes (length bs)"

fun write_field :: "field \<Rightarrow> byte_buffer \<Rightarrow> byte_buffer res" where
  "write_field (FBool v) = writeBoolean v"
| "write_field (FByte v) = writeByte v"
| "write_field (FInt8 v) = writeInt8 v"
| "write_field (FUint8 v) = writeUint8 v"
| "write_field (FInt16 v) = writeInt16 v"
| "write_field (FUint16 v) = writeUint16 v"
| "write_field (FInt32 v) = writeInt32 v"
| "write_field (FUint32 v) = writeUint32 v"
| "write_field (FInt64 v) = writeInt64 v"
| "write_field (FUint64 v) = writeUint64 v"
| "write_field (FFloat v) = writeFloat v"
| "write_field (FDouble v) = writeDouble v"
| "write_field (FBytes bs) = writeBytes bs"

fun read_field :: "field_kind \<Rightarrow> byte_buffer \<Rightarrow> (field \<times> byte_buffer) res" where
  "read_field KBool b = ebind (readBoolean b) (\<lambda>(v, b'). Inr (FBool v, b'))"
| "read_field KByte b = ebind (readByte b) (\<lambda>(v, b'). Inr (FByte v, b'))"
| "read_field KInt8 b = ebind (readInt8 b) (\<lambda>(v, b'). Inr (FInt8 v, b'))"
| "read_field KUint8 b = ebind (readUint8 b) (\<lambda>(v, b'). Inr (FUint8 v, b'))"
| "read_field KInt16 b = ebind (readInt16 b) (\<lambda>(v, b'). Inr (FInt16 v, b'))"
| "read_field KUint16 b = ebind (readUint16 b) (\<lambda>(v, b'). Inr (FUint16 v, b'))"
| "read_field KInt32 b = ebind (readInt32 b) (\<lambda>(v, b'). Inr (FInt32 v, b'))"
| "read_field KUint32 b = ebind (readUint32 b) (\<lambda>(v, b'). Inr (FUint32 v, b'))"
| "read_field KInt64 b = ebind (readInt64 b) (\<lambda>(v, b'). Inr (FInt64 v, b'))"
| "read_field KUint64 b = ebind (readUint64 b) (\<lambda>(v, b'). Inr (FUint64 v, b'))"
| "read_field KFloat b = ebind (readFloat b) (\<lambda>(v, b'). Inr (FFloat v, b'))"
| "read_field KDouble b = ebind (readDouble b) (\<lambda>(v, b'). Inr (FDouble v, b'))"
| "read_field (KBytes n) b = ebind (readBytes n b) (\<lambda>(v, b'). Inr (FBytes v, b'))"

fun write_fields :: "field list \<Rightarrow> byte_buffer \<Rightarrow> byte_buffer res" where
  "write_fields [] b = Inr b"
| "write_fields (f # fs) b = ebind (write_field f b) (write_fields fs)"

fun read_fields :: "field_kind list \<Rightarrow> byte_buffer \<Rightarrow> (field list \<times> byte_buffer) res" where
  "read_fields [] b = Inr ([], b)"
| "read_fields (k # ks) b =
     ebind (read_field k b) (\<lambda>(f, b'). ebind (read_fields ks b') (\<lambda>(fs, b''). Inr (f # fs, b'')))"

text \<open>The wire format: integers in network byte order, floating point in host order.\<close>

fun wire :: "field \<Rightarrow> byte list" where
  "wire (FBool v) = [if v then 1 else 0]"
| "wire (FByte v) = be_bytes 1 v"
| "wire (FInt8 v) = be_bytes 1 v"
| "wire (FUint8 v) = be_bytes 1 v"
| "wire (FInt16 v) = be_bytes 2 v"
| "wire (FUint16 v) = be_bytes 2 v"
| "wire (FInt32 v) = be_bytes 4 v"
| "wire (FUint32 v) = be_bytes 4 v"
| "wire (FInt64 v) = be_bytes 8 v"
| "wire (FUint64 v) = be_bytes 8 v"
| "wire (FFloat v) = store_le 4 v"
| "wire (FDouble v) = store_le 8 v"
| "wire (FBytes bs) = bs"

lemma be_bytes_1: "be_bytes (Suc 0) (v :: 8 word) = store_le (Suc 0) v"
  by (simp add: be_bytes_def store_le_def)

lemmas typed_writer_defs = writeBoolean_def writeByte_def writeInt8_def writeUint8_def writeInt16_def
  writeUint16_def writeInt32_def writeUint32_def writeInt64_def writeUint64_def writeFloat_def writeDouble_def

lemmas typed_reader_defs = readBoolean_def readByte_def readInt8_def readUint8_def readInt16_def
  readUint16_def readInt32_def readUint32_def readInt64_def readUint64_def readFloat_def readDouble_def

lemma write_field_wire: "write_field f b = writeBytes (wire f) b"
  by (cases f) (simp_all add: typed_writer_defs store_bswap be_bytes_1)

lemma read_field_wire:
  assumes "readBytes (length (wire f)) b = Inr (wire f, b')"
  shows "read_field (kind_of f) b = Inr (f, b')"
  using assms
  by (cases f) (auto simp: typed_reader_defs bswap_load_be_bytes load_store_le be_bytes_1)

lemma write_fields_put_all: "write_fields fs b = put_all writeBytes (map wire fs) b"
proof (induction fs arbitrary: b)
  case Nil
  then show ?case by simp
next
  case (Cons f fs)
  then have "write_fields fs = put_all writeBytes (map wire fs)" by (simp add: fun_eq_iff)
  then show ?case by (simp add: write_field_wire)
qed

lemma read_fields_get_all:
  "get_all readBytes (map length (map wire fs)) b = Inr (map wire fs, b') \<Longrightarrow>
     read_fields (map kind_of fs) b = Inr (fs, b')"
proof (induction fs arbitrary: b)
  case Nil
  then show ?case by simp
next
  case (Cons f fs)
  then obtain b1 where b1: "readBytes (length (wire f)) b = Inr (wire f, b1)"
      "get_all readBytes (map length (map wire fs)) b1 = Inr (map wire fs, b')"
    by (auto simp: ebind_eq_Inr)
  with Cons.IH [OF b1(2)] read_field_wire [OF b1(1)] show ?case by simp
qed

section \<open>Arbitrary use\<close>

text \<open>
  A client calls the operations that change a buffer in any order and may catch their exceptions,
  which leave the object as it was. Four of them have a precondition, which the code leaves to the
  client: a boolean is read from a byte that is 0 or 1; the index setters stay within the bounds of
  the buffer; and what \<^verbatim>\<open>writeByteBuffer\<close> reads, at the reader index of the destination, must lie in the
  array of the source.
\<close>

datatype bb_call =
    Write field | Read field_kind | Receive nat io_reply | Clear
  | SetReader nat | SetWriter nat | Append byte_buffer | Swap byte_buffer

fun bb_call_ok :: "bb_call \<Rightarrow> byte_buffer \<Rightarrow> bool" where
  "bb_call_ok (Write f) b = (length (wire f) \<le> 2 ^ 62)"
| "bb_call_ok (Read k) b = (k = KBool \<and> content b \<noteq> [] \<longrightarrow> hd (content b) = 0 \<or> hd (content b) = 1)"
| "bb_call_ok (Receive len (Inl e)) b = (len \<le> 2 ^ 62)"
| "bb_call_ok (Receive len (Inr got)) b = (len \<le> 2 ^ 62 \<and> length got \<le> len)"
| "bb_call_ok Clear b = True"
| "bb_call_ok (SetReader i) b = (i \<le> writerIndex b)"
| "bb_call_ok (SetWriter i) b = (readerIndex b \<le> i \<and> i \<le> capacity b)"
| "bb_call_ok (Append other) b = (bb_ok other \<and> readerIndex b + readableBytes other \<le> capacity other)"
| "bb_call_ok (Swap other) b = bb_ok other"

fun bb_call_step :: "bb_call \<Rightarrow> byte_buffer \<Rightarrow> byte_buffer res" where
  "bb_call_step (Write f) b = write_field f b"
| "bb_call_step (Read k) b = ebind (read_field k b) (\<lambda>(f, b'). Inr b')"
| "bb_call_step (Receive len r) b = ebind (writeBytesFrom len r b) (\<lambda>(n, b'). Inr b')"
| "bb_call_step Clear b = Inr (bb_clear b)"
| "bb_call_step (SetReader i) b = Inr (setReaderIndex i b)"
| "bb_call_step (SetWriter i) b = Inr (setWriterIndex i b)"
| "bb_call_step (Append other) b = writeByteBuffer other b"
| "bb_call_step (Swap other) b = Inr (fst (bb_swap b other))"

fun bb_calls :: "bb_call list \<Rightarrow> byte_buffer \<Rightarrow> byte_buffer res" where
  "bb_calls [] b = Inr b"
| "bb_calls (c # cs) b =
     (case bb_call_step c b of
        Inr b' \<Rightarrow> bb_calls cs b'
      | Inl (Throw e) \<Rightarrow> bb_calls cs b
      | Inl f \<Rightarrow> Inl f)"

text \<open>Every call of the sequence is within its precondition when its turn comes.\<close>

fun bb_calls_ok :: "bb_call list \<Rightarrow> byte_buffer \<Rightarrow> bool" where
  "bb_calls_ok [] b = True"
| "bb_calls_ok (c # cs) b =
     (bb_call_ok c b \<and>
      (case bb_call_step c b of
         Inr b' \<Rightarrow> bb_calls_ok cs b'
       | Inl (Throw e) \<Rightarrow> bb_calls_ok cs b
       | Inl f \<Rightarrow> True))"

lemma readBytes_bb_ok: "bb_ok b \<Longrightarrow> res_all (\<lambda>(s, b'). bb_ok b') (readBytes n b)"
  using readBytes_ok [of b n] readBytes_short [of b n] adjustReaderIndex_bounds(1) [of b n] bb_okD(1)
  by (cases "n \<le> length (content b)") auto

lemma readBoolean_bb_ok:
  assumes "bb_ok b" and "content b \<noteq> [] \<longrightarrow> hd (content b) = 0 \<or> hd (content b) = 1"
  shows "res_all (\<lambda>(v, b'). bb_ok b') (readBoolean b)"
proof (cases "content b")
  case Nil
  then show ?thesis using readBytes_short [OF bb_okD(1)[OF assms(1)], of 1] by (simp add: readBoolean_def)
next
  case (Cons x xs)
  have "readBytes 1 b = Inr ([x], adjustReaderIndex 1 b)" "bb_ok (adjustReaderIndex 1 b)"
    using readBytes_ok [of b 1] readBytes_bb_ok [OF assms(1), of 1] bb_okD(1)[OF assms(1)] Cons by auto
  then show ?thesis using assms(2) Cons by (auto simp: readBoolean_def)
qed

lemma read_field_bb_ok:
  assumes "bb_ok b" and "k = KBool \<and> content b \<noteq> [] \<longrightarrow> hd (content b) = 0 \<or> hd (content b) = 1"
  shows "res_all (\<lambda>(f, b'). bb_ok b') (read_field k b)"
proof (cases "k = KBool")
  case True
  have "res_all (\<lambda>(v, b'). bb_ok b') (readBoolean b)" using readBoolean_bb_ok assms True by blast
  then show ?thesis unfolding True by (auto intro!: res_all_pair_map)
next
  case False
  then show ?thesis
    by (cases k) (auto simp: typed_reader_defs intro!: res_all_pair_map readBytes_bb_ok assms(1))
qed

lemma write_bb_ok:
  assumes "bb_ok b" and "length bs \<le> 2 ^ 62"
  shows "res_all bb_ok (writeBytes bs b)"
proof (cases "growth_refused (length bs) b")
  case True
  with writeBytes_refused [OF assms] show ?thesis by auto
next
  case False
  with assms obtain b' where "writeBytes bs b = Inr b'" "bb_ok b'" by (rule writeBytes_ok)
  then show ?thesis by simp
qed

lemma writeBytesFrom_ok:
  assumes "bb_ok b" and "len \<le> 2 ^ 62" and "\<not> growth_refused len b" and "length got \<le> len"
  obtains b' where "writeBytesFrom len (Inr got) b = Inr (int (length got), b')" "bb_ok b'"
    "content b' = content b @ got" "capacity b \<le> capacity b'"
    "writerIndex b' \<le> writerIndex b + length got"
    "capacity b \<le> kMaxCapacity \<and> writerIndex b + len \<le> 2 ^ 30 \<longrightarrow> capacity b' \<le> kMaxCapacity"
proof -
  from assms(1-3) obtain b1 where b1: "ensureWritable len b = Inr b1" "bb_ok b1"
      "content b1 = content b" "writerIndex b1 + len \<le> capacity b1" "capacity b \<le> capacity b1"
      "writerIndex b1 \<le> writerIndex b"
      "capacity b \<le> kMaxCapacity \<and> writerIndex b + len \<le> 2 ^ 30 \<longrightarrow> capacity b1 \<le> kMaxCapacity"
    by (rule ensureWritable_grows)
  have "writerIndex b1 + length got \<le> capacity b1" using b1(4) assms(4) by simp
  with bb_okD(1) [OF b1(2)] obtain buf where "mem_write (buffer b1) (writerIndex b1) got = Inr buf"
      "bb_inv (b1\<lparr>buffer := buf, writerIndex := sz_add (writerIndex b1) (length got)\<rparr>)"
      "content (b1\<lparr>buffer := buf, writerIndex := sz_add (writerIndex b1) (length got)\<rparr>)
         = content b1 @ got"
    by (rule store_at_writer)
  moreover have "sz_add (writerIndex b1) (length got) = writerIndex b1 + length got"
    using b1(2,4) assms(4) by (simp add: sz_add_def size_mod_def bb_ok_def)
  ultimately show thesis using b1
    by (intro that [of "b1\<lparr>buffer := buf, writerIndex := sz_add (writerIndex b1) (length got)\<rparr>"])
      (auto simp: writeBytesFrom_def bb_ok_def)
qed

lemma writeBytesFrom_error:
  assumes "bb_ok b" and "len \<le> 2 ^ 62" and "\<not> growth_refused len b"
  obtains b' where "writeBytesFrom len (Inl e) b = Inr (- 1, b')" "bb_ok b'" "content b' = content b"
proof -
  from assms obtain b1 where "ensureWritable len b = Inr b1" "bb_ok b1" "content b1 = content b"
    by (rule ensureWritable_grows)
  then show thesis by (intro that [of b1]) (simp_all add: writeBytesFrom_def)
qed

lemma receive_bb_ok:
  assumes "bb_ok b" and len: "len \<le> 2 ^ 62" and got: "\<And>got. r = Inr got \<Longrightarrow> length got \<le> len"
  shows "res_all (\<lambda>(n, b'). bb_ok b') (writeBytesFrom len r b)"
proof (cases "growth_refused len b")
  case True
  from ensureWritable_refused [OF bb_okD(1) [OF assms(1)] bb_okD(2) [OF assms(1) len] True]
  show ?thesis by (auto simp: writeBytesFrom_def)
next
  case False
  show ?thesis
  proof (cases r)
    case (Inl e)
    from assms(1) len False obtain b' where "writeBytesFrom len (Inl e) b = Inr (- 1, b')" "bb_ok b'"
      by (rule writeBytesFrom_error)
    with Inl show ?thesis by simp
  next
    case (Inr g)
    from assms(1) len False got [OF Inr] obtain b' where
      "writeBytesFrom len (Inr g) b = Inr (int (length g), b')" "bb_ok b'"
      by (rule writeBytesFrom_ok)
    with Inr show ?thesis by simp
  qed
qed

lemma bb_call_step_ok:
  assumes "bb_ok b" and "bb_call_ok c b"
  shows "res_all bb_ok (bb_call_step c b)"
proof (cases c)
  case (Write f)
  with assms show ?thesis using write_bb_ok [of b "wire f"] by (simp add: write_field_wire)
next
  case (Read k)
  with assms(2) have "k = KBool \<and> content b \<noteq> [] \<longrightarrow> hd (content b) = 0 \<or> hd (content b) = 1" by simp
  from res_all_snd [OF read_field_bb_ok [OF assms(1) this]] show ?thesis by (simp add: Read)
next
  case (Receive len r)
  with assms(2) have "len \<le> 2 ^ 62" "\<And>got. r = Inr got \<Longrightarrow> length got \<le> len" by (cases r; simp)+
  from res_all_snd [OF receive_bb_ok [OF assms(1) this]] show ?thesis by (simp add: Receive)
next
  case Clear
  with assms show ?thesis by (simp add: bb_ok_def bb_inv_def bb_clear_def)
next
  case (Append other)
  then have o: "bb_ok other" "readerIndex b + readableBytes other \<le> length (buffer other)"
    using assms(2) by (simp_all add: bb_ok_def bb_inv_def)
  have "readableBytes other \<le> 2 ^ 62"
    using o(1) content_length[of other] by (auto simp: bb_ok_def readableBytes_content bb_inv_def)
  moreover have "mem_read (buffer other) (readerIndex b) (readableBytes other) =
      Inr (take (readableBytes other) (drop (readerIndex b) (buffer other)))"
    using o(2) by (simp add: mem_read_def)
  ultimately show ?thesis using write_bb_ok[OF assms(1)] Append by (simp add: writeByteBuffer_def)
qed (use assms in \<open>auto simp: bb_ok_def bb_inv_def setReaderIndex_def setWriterIndex_def bb_swap_def\<close>)

section \<open>Properties\<close>

text \<open>
  C4. Typed fields written to an empty buffer are read back unchanged, in order, and the
  buffer is empty again; in between it holds exactly their wire format. All the operations
  succeed: no exception, no memory fault.
\<close>

theorem typed_fields_roundtrip:
  assumes "bb_small b" and "content b = []" and "writerIndex b + length (concat (map wire fs)) \<le> 2 ^ 30"
  shows "\<exists>b1 b2. write_fields fs b = Inr b1 \<and> content b1 = concat (map wire fs) \<and>
           read_fields (map kind_of fs) b1 = Inr (fs, b2) \<and> content b2 = []"
proof -
  from bb.put_get_all [OF assms] obtain b1 b2 where
    b: "put_all writeBytes (map wire fs) b = Inr b1"
      "get_all readBytes (map length (map wire fs)) b1 = Inr (map wire fs, b2)" "content b2 = []"
    by blast
  moreover from bb.put_all_ok [OF assms(1,3)] b(1) assms(2) have "content b1 = concat (map wire fs)"
    by auto
  ultimately show ?thesis
    using read_fields_get_all [OF b(2)] by (auto simp: write_fields_put_all)
qed

theorem typed_fields_roundtrip_witness:
  "\<exists>b1 b2. write_fields [FInt16 258, FBool True] bb_null = Inr b1 \<and> content b1 = [1, 2, 1] \<and>
     read_fields [KInt16, KBool] b1 = Inr ([FInt16 258, FBool True], b2) \<and> content b2 = []"
proof -
  have w: "concat (map wire [FInt16 258, FBool True]) = [1, 2, 1]"
    by (simp add: be_bytes_def store_le_def) code_simp
  have "bb_small bb_null" by (simp add: bb_small_def bb_ok_def bb_null_def bb_inv_def)
  from typed_fields_roundtrip [OF this, of "[FInt16 258, FBool True]"] show ?thesis
    unfolding w by (simp add: bb_null_def content_def)
qed

text \<open>
  \<open>writeBytes\<close> on a well-formed buffer either appends the bytes to the content, keeping
  the invariant and everything already stored, or throws \<^verbatim>\<open>OutOfMemoryException\<close> with the
  object unchanged; it throws exactly when the growth policy refuses.
\<close>

lemma writeBytes_contract:
  assumes "bb_ok b" and "length data \<le> 2 ^ 62"
  shows "if growth_refused (length data) b
         then \<exists>c > kMaxCapacity. writeBytes data b = Inl (Throw (OutOfMemoryException c))
         else \<exists>b'. writeBytes data b = Inr b' \<and> bb_ok b' \<and> content b' = content b @ data
                \<and> capacity b \<le> capacity b'"
proof (cases "growth_refused (length data) b")
  case True
  with writeBytes_refused [OF assms True] show ?thesis by auto
next
  case False
  with assms obtain b' where "writeBytes data b = Inr b'" "bb_ok b'" "content b' = content b @ data"
      "capacity b \<le> capacity b'"
    by (rule writeBytes_ok)
  with False show ?thesis by auto
qed

text \<open>
  C18. The growth policy: making room keeps the content; the capacity stays the same when the
  consumed prefix leaves enough space, and otherwise becomes the least power of two that
  holds the old writer index plus the requested bytes.
\<close>

theorem ensureWritable_growth_policy:
  assumes "bb_ok b" and "n \<le> 2 ^ 62" and "ensureWritable n b = Inr b'"
  shows "bb_ok b' \<and> content b' = content b \<and> writerIndex b' + n \<le> capacity b' \<and>
    (if length (content b) + n \<le> capacity b then capacity b' = capacity b
     else \<exists>j. capacity b' = 2 ^ j \<and> writerIndex b + n \<le> 2 ^ j \<and> (j = 0 \<or> 2 ^ (j - 1) < writerIndex b + n))"
proof -
  note inv = bb_okD(1) [OF assms(1)] and room = bb_okD(2) [OF assms(1,2)]
  have ok: "\<not> growth_refused n b"
    using ensureWritable_refused [OF inv room] assms(3) by auto
  with assms(1,2) obtain b1 where b1: "ensureWritable n b = Inr b1" "bb_ok b1" "content b1 = content b"
      "writerIndex b1 + n \<le> capacity b1"
    by (rule ensureWritable_grows)
  have "capacity b' = capacity b \<or>
      capacity b < length (content b) + n \<and> calculateNewCapacity (writerIndex b + n) = Inr (capacity b')"
  proof (cases "writableBytes b < n")
    case False
    with assms(3) show ?thesis by (simp add: ensureWritable_def)
  next
    case True
    with inv room assms(2) ok obtain c where c: "ensureWritable n b = adjustCapacity c b"
        "c = capacity b \<or> capacity b < length (content b) + n \<and> calculateNewCapacity (writerIndex b + n) = Inr c"
      by (rule ensureWritable_target)
    have "capacity b' = c"
      using assms(3) c(1) by (auto simp: adjustCapacity_def Let_def ebind_eq_Inr split: if_splits)
    with c(2) show ?thesis by blast
  qed
  then consider (same) "capacity b' = capacity b"
    | (grown) "capacity b < length (content b) + n" "calculateNewCapacity (writerIndex b + n) = Inr (capacity b')"
    by blast
  then show ?thesis
  proof cases
    case same
    have "length (content b) \<le> writerIndex b1"
      using b1(3) content_length [OF bb_okD(1) [OF b1(2)]] by simp
    with b1 assms(3) same show ?thesis by simp
  next
    case grown
    have "0 < writerIndex b + n"
      using grown(1) content_length [OF inv] by arith
    from this room obtain j where "calculateNewCapacity (writerIndex b + n) = Inr (2 ^ j)" "j \<le> 63"
        "writerIndex b + n \<le> 2 ^ j" "j = 0 \<or> 2 ^ (j - 1) < writerIndex b + n"
      by (rule calculateNewCapacity_pow2)
    with grown(2) have "\<exists>j. capacity b' = 2 ^ j \<and> writerIndex b + n \<le> 2 ^ j \<and>
        (j = 0 \<or> 2 ^ (j - 1) < writerIndex b + n)"
      by (intro exI [of _ j]) simp
    with grown(1) b1 assms(3) show ?thesis by simp
  qed
qed

theorem ensureWritable_growth_policy_witness:
  "\<exists>b'. ensureWritable 3 \<lparr>buffer = [1, 2], readerIndex = 1, writerIndex = 2, capacity = 2\<rparr> = Inr b'
     \<and> capacity b' = 8 \<and> content b' = [2]"
proof -
  let ?b = "\<lparr>buffer = [1, 2], readerIndex = 1, writerIndex = 2, capacity = 2\<rparr>"
  have ok: "bb_ok ?b" and n: "(3::nat) \<le> 2 ^ 62"
    by (simp_all add: bb_ok_def bb_inv_def ptrdiff_max_def)
  moreover have "\<not> growth_refused 3 ?b" by (simp add: growth_refused_def)
  ultimately obtain b' where b': "ensureWritable 3 ?b = Inr b'" by (rule ensureWritable_grows)
  have "content ?b = [2]" by (simp add: content_def)
  with ensureWritable_growth_policy [OF ok n b'] obtain j where
    j: "capacity b' = 2 ^ j" "5 \<le> (2::nat) ^ j" "j = 0 \<or> 2 ^ (j - 1) < (5::nat)" "content b' = [2]"
    by auto
  have "j - 1 < 3"
    using j(3) power_increasing [of 3 "j - 1" "2::nat"] by (cases "j - 1 < 3") auto
  with j(2) have "j = 3" by (cases "j = 0 \<or> j = 1 \<or> j = 2") auto
  with b' j show ?thesis by auto
qed

text \<open>
  \<^verbatim>\<open>calculateNewCapacity\<close> returns the least power of two that is at least its argument for
  every argument up to \<open>2 ^ 63\<close>; beyond that its loop never ends.
\<close>

lemma calculateNewCapacity_exact:
  assumes "0 < t"
  shows "if t \<le> 2 ^ 63
         then \<exists>j \<le> 63. calculateNewCapacity t = Inr (2 ^ j) \<and> t \<le> 2 ^ j \<and> (j = 0 \<or> 2 ^ (j - 1) < t)
         else calculateNewCapacity t = Inl Hang"
proof (cases "t \<le> 2 ^ 63")
  case True
  with assms obtain j where "calculateNewCapacity t = Inr (2 ^ j)" "j \<le> 63" "t \<le> 2 ^ j"
      "j = 0 \<or> 2 ^ (j - 1) < t"
    by (rule calculateNewCapacity_pow2)
  with True show ?thesis by auto
next
  case False
  with assms capacityLoop_hangs [of t] show ?thesis by (simp add: calculateNewCapacity_def)
qed

text \<open>
  C13. Memory safety. From a well-formed buffer, any sequence of the operations of the class that change
  a buffer (typed and raw writes and reads, socket receives, clears, the index setters, appending and
  swapping with other buffers), with exceptions caught between calls, runs to the end without touching
  memory outside an array and without an endless loop, and leaves a well-formed buffer, provided every
  call is within its precondition: at most 2^62 bytes at a time, booleans read where 0 or 1 is stored,
  indices set within the bounds, and \<^verbatim>\<open>writeByteBuffer\<close> only where the range at the destination's own
  reader index lies in the source.
\<close>

theorem bb_calls_memory_safe:
  assumes "bb_ok b" and "bb_calls_ok cs b"
  shows "\<exists>b'. bb_calls cs b = Inr b' \<and> bb_ok b'"
  using assms
proof (induction cs arbitrary: b)
  case Nil
  then show ?case by simp
next
  case (Cons c cs)
  then have "res_all bb_ok (bb_call_step c b)" by (simp add: bb_call_step_ok)
  with Cons show ?case
    by (cases "(bb_ok, bb_call_step c b)" rule: res_all.cases) auto
qed

theorem bb_calls_memory_safe_witness:
  "\<exists>b'. bb_calls [Read KInt32, Write (FBytes [1, 2]), Read KBool, SetReader 0, Append bb_null, SetWriter 1, Swap bb_null, Clear]
       bb_null = Inr b' \<and> bb_ok b'"
proof (rule bb_calls_memory_safe)
  let ?two = "Suc (Suc 0)"
  have "capacityLoop (Suc 0) ?two = Some ?two" by (simp add: capacityLoop.simps sz_double_def size_mod_def)
  then show "bb_calls_ok [Read KInt32, Write (FBytes [1, 2]), Read KBool, SetReader 0, Append bb_null, SetWriter 1,
      Swap bb_null, Clear] bb_null"
    by (simp add: bb_null_def bb_ok_def bb_inv_def content_def writeBytes_def ensureWritable_def writableBytes_def sz_sub_def
        sz_add_tiny calculateNewCapacity_def adjustCapacity_def readableBytes_def new_array_tiny mem_write_def mem_read_def
        readBytes_def checkReadableBytes_def adjustReaderIndex_def writeByteBuffer_def readInt32_def readBoolean_def
        setReaderIndex_def setWriterIndex_def)
qed (simp add: bb_ok_def bb_null_def bb_inv_def)

text \<open>
  Reading \<open>n\<close> bytes returns the first \<open>n\<close> bytes of the content and leaves the rest, or,
  when fewer are readable, throws \<^verbatim>\<open>IndexOutOfBoundsException\<close>; when the content is used up
  both indices return to 0, so the whole capacity is writable again.
\<close>

lemma readBytes_contract:
  assumes "bb_ok b"
  shows "if n \<le> length (content b)
         then \<exists>b'. readBytes n b = Inr (take n (content b), b') \<and> bb_ok b' \<and> content b' = drop n (content b)
                \<and> (n = length (content b) \<longrightarrow> writableBytes b' = capacity b')
         else readBytes n b = Inl (Throw (IndexOutOfBoundsException n))"
proof -
  note inv = bb_okD(1) [OF assms]
  have "writableBytes (adjustReaderIndex n b) = capacity (adjustReaderIndex n b)" if "n = length (content b)"
    using that by (simp add: adjustReaderIndex_def readableBytes_content [OF inv] bb_clear_def writableBytes_def sz_sub_def)
  then show ?thesis
    using readBytes_ok [OF inv, of n] readBytes_short [OF inv, of n] adjustReaderIndex_ok [OF inv, of n]
      adjustReaderIndex_bounds [OF assms, of n]
    by auto
qed

text \<open>
  \<^verbatim>\<open>writeByteBuffer\<close> takes the source bytes at the destination's reader index. From two
  buffers a client can build, it appends an already consumed byte instead of the unread
  one; and for a destination that has been read further than the source's array is long, it
  reads outside that array.
\<close>

lemma writeByteBuffer_wrong_offset:
  "\<exists>src dst. bb_calls [Write (FBytes [1, 2]), Read KByte] bb_null = Inr src \<and> content src = [2] \<and>
     (\<exists>dst'. writeByteBuffer src bb_null = Inr dst' \<and> content dst' = [1]) \<and>
     bb_calls [Write (FBytes [3, 4, 5, 6]), Read KByte, Read KByte] bb_null = Inr dst \<and>
     writeByteBuffer src dst = Inl Undefined"
proof -
  let ?two = "Suc (Suc 0)" and ?four = "Suc (Suc (Suc (Suc 0)))"
  let ?src = "\<lparr>buffer = [1, 2], readerIndex = Suc 0, writerIndex = ?two, capacity = ?two\<rparr>"
  let ?dst = "\<lparr>buffer = [3, 4, 5, 6], readerIndex = ?two, writerIndex = ?four, capacity = ?four\<rparr>"
  have loops: "capacityLoop (Suc 0) ?two = Some ?two" "capacityLoop (Suc 0) (Suc 0) = Some (Suc 0)"
    "capacityLoop (Suc 0) ?four = Some ?four"
    by (simp_all add: capacityLoop.simps sz_double_def size_mod_def)
  note evals = bb_null_def writeBytes_def ensureWritable_def writableBytes_def sz_sub_def sz_add_tiny
    calculateNewCapacity_def adjustCapacity_def readableBytes_def new_array_tiny mem_write_def mem_read_def
    readByte_def readBytes_def checkReadableBytes_def adjustReaderIndex_def writeByteBuffer_def
  have "bb_calls [Write (FBytes [1, 2]), Read KByte] bb_null = Inr ?src"
    by (simp add: evals loops)
  moreover have "bb_calls [Write (FBytes [3, 4, 5, 6]), Read KByte, Read KByte] bb_null = Inr ?dst"
    by (simp add: evals loops)
  moreover have "writeByteBuffer ?src bb_null
      = Inr \<lparr>buffer = [1], readerIndex = 0, writerIndex = 1, capacity = 1\<rparr>"
    by (simp add: evals loops)
  moreover have "writeByteBuffer ?src ?dst = Inl Undefined"
    by (simp add: evals)
  moreover have "content ?src = [2]"
    "content \<lparr>buffer = [1], readerIndex = 0, writerIndex = 1, capacity = 1\<rparr> = [1]"
    by (simp_all add: content_def)
  ultimately show ?thesis by blast
qed

end
