(* ===== verification/Socket_Channel.thy ===== *)
theory Socket_Channel
  imports Epoll_Channel Byte_Buffer
begin

text \<open>
  \<^verbatim>\<open>nets/net/channel/SocketChannel.{h,cpp}\<close>: a connected TCP socket. Its state is the record
  \<open>socket_channel\<close>, which extends \<open>channel\<close> as the class extends \<^verbatim>\<open>Channel\<close>; every operation acts
  on a \<open>sc_world\<close>: the channel, the kernel, whether the event loop holds the channel, and the
  loop's task list. The user's handlers are the parameter \<open>app\<close>: what they do to the world when
  an event is fired; the ghost field \<open>fired\<close> records the events in order. The library is built with
  \<^verbatim>\<open>NDEBUG\<close> by default, so assertions are not part of the behaviour.
\<close>

section \<open>State\<close>

datatype ChannelState = INACTIVE | ACTIVE | HALF_CLOSE

record socket_channel = channel +
  writeBuffer :: "byte_buffer list"
  state :: ChannelState
  writeCompleteCallbacks :: "nat option list"

text \<open>
  Callbacks are numbered; \<open>None\<close> is the null callback. A task is one of the three closures the
  class hands to the event loop.
\<close>

datatype sc_event = EvConnect | EvDisconnect | EvRead "byte list" | EvWriteComplete nat

datatype sc_task = WriteCompleteTask nat | DeregisterTask | DoWriteTask "byte list" "nat option"

record 'k sc_world =
  chan :: socket_channel
  kern :: 'k
  inChannels :: bool
  tasks :: "sc_task list"
  fired :: "sc_event list"

type_synonym 'k app = "sc_event \<Rightarrow> 'k sc_world \<Rightarrow> 'k sc_world"

definition kRecvBufferSize :: nat where "kRecvBufferSize = 16384"
definition kMaxCountOfWriteVOnce :: nat where "kMaxCountOfWriteVOnce = 256"

text \<open>The constructor.\<close>

definition sc_new :: "FdType \<Rightarrow> socket_channel" where
  "sc_new sockFd = \<lparr>fd = sockFd, events = kNoneEvent, readyEvents = kNoneEvent, isRegistered = False,
     writeBuffer = [], state = INACTIVE, writeCompleteCallbacks = []\<rparr>"

definition fire :: "'k app \<Rightarrow> sc_event \<Rightarrow> 'k sc_world \<Rightarrow> 'k sc_world" where
  "fire app e w = app e (w\<lparr>fired := fired w @ [e]\<rparr>)"

definition addTask :: "sc_task \<Rightarrow> 'k sc_world \<Rightarrow> 'k sc_world" where
  "addTask t w = w\<lparr>tasks := tasks w @ [t]\<rparr>"

text \<open>The calls of \<^verbatim>\<open>Channel\<close> that go through \<^verbatim>\<open>EventLoop\<close> to the poller.\<close>

definition sc_registerTo :: "'k sys \<Rightarrow> 'k sc_world \<Rightarrow> bool \<times> 'k sc_world" where
  "sc_registerTo S w =
     (let (ok, c, k) = poller_registerChannel S (chan w) (kern w)
      in if ok then (True, w\<lparr>chan := c, kern := k, inChannels := True\<rparr>)
         else (False, w\<lparr>chan := c, kern := k\<rparr>))"

definition sc_modify :: "'k sys \<Rightarrow> 'k sc_world \<Rightarrow> 'k sc_world" where
  "sc_modify S w =
     (let (ok, c, k) = poller_modifyChannel S (chan w) (kern w) in w\<lparr>chan := c, kern := k\<rparr>)"

definition sc_deregister :: "'k sys \<Rightarrow> 'k sc_world \<Rightarrow> 'k sc_world" where
  "sc_deregister S w =
     (let (ok, c, k) = poller_deregisterChannel S (chan w) (kern w)
      in w\<lparr>chan := c, kern := k, inChannels := False\<rparr>)"

section \<open>Closing\<close>

definition channelInActive :: "'k app \<Rightarrow> 'k sc_world \<Rightarrow> 'k sc_world" where
  "channelInActive app w =
     addTask DeregisterTask (fire app EvDisconnect (w\<lparr>chan := (chan w)\<lparr>state := INACTIVE\<rparr>\<rparr>))"

definition sc_shutdown_how :: "'k sys \<Rightarrow> shutdown_how \<Rightarrow> 'k sc_world \<Rightarrow> 'k sc_world" where
  "sc_shutdown_how S how w =
     (case how of
        SHUT_RD \<Rightarrow> w\<lparr>kern := sys_shutdown S (kern w) (fd (chan w)) how\<rparr>
      | _ \<Rightarrow> (let w = (if writeBuffer (chan w) \<noteq> [] then w\<lparr>chan := (chan w)\<lparr>writeBuffer := []\<rparr>\<rparr> else w)
             in w\<lparr>kern := sys_shutdown S (kern w) (fd (chan w)) how\<rparr>))"

definition sc_shutdown :: "'k sys \<Rightarrow> 'k app \<Rightarrow> 'k sc_world \<Rightarrow> 'k sc_world" where
  "sc_shutdown S app w = channelInActive app (sc_shutdown_how S SHUT_RDWR w)"

definition sc_shutdownRead :: "'k sys \<Rightarrow> 'k sc_world \<Rightarrow> 'k sc_world" where
  "sc_shutdownRead S w =
     (let w = sc_shutdown_how S SHUT_RD w in w\<lparr>chan := (chan w)\<lparr>state := HALF_CLOSE\<rparr>\<rparr>)"

definition sc_shutdownWrite :: "'k sys \<Rightarrow> 'k sc_world \<Rightarrow> 'k sc_world" where
  "sc_shutdownWrite S w =
     (let w = sc_shutdown_how S SHUT_WR w in w\<lparr>chan := (chan w)\<lparr>state := HALF_CLOSE\<rparr>\<rparr>)"

definition handleReadError :: "'k app \<Rightarrow> nat \<Rightarrow> 'k sc_world \<Rightarrow> 'k sc_world" where
  "handleReadError app errNum w =
     (if errNum = EAGAIN \<or> errNum = EINTR then w else channelInActive app w)"

definition handleWriteError :: "'k app \<Rightarrow> nat \<Rightarrow> 'k sc_world \<Rightarrow> 'k sc_world" where
  "handleWriteError app errNum w =
     (if errNum = EAGAIN \<or> errNum = EINTR then w else channelInActive app w)"

definition sc_handleErrorEvent :: "'k app \<Rightarrow> 'k sc_world \<Rightarrow> 'k sc_world" where
  "sc_handleErrorEvent app w = (if state (chan w) = INACTIVE then w else channelInActive app w)"

text \<open>
  \<^verbatim>\<open>channelActive\<close>: a failed registration is caught and logged, after deregistering if the
  channel is registered after all.
\<close>

definition channelActive :: "'k sys \<Rightarrow> 'k app \<Rightarrow> 'k sc_world \<Rightarrow> 'k sc_world" where
  "channelActive S app w =
     (let (ok, w) = sc_registerTo S (w\<lparr>chan := addEvent kReadEvent (chan w)\<rparr>)
      in if ok then fire app EvConnect (w\<lparr>chan := (chan w)\<lparr>state := ACTIVE\<rparr>\<rparr>)
         else if isRegistered (chan w) then sc_deregister S w else w)"

section \<open>Writing\<close>

definition writeBufferLastCanAppend :: "nat \<Rightarrow> socket_channel \<Rightarrow> bool" where
  "writeBufferLastCanAppend len c =
     (if writeBuffer c \<noteq> [] then writableBytes (last (writeBuffer c)) \<ge> len else False)"

definition appendBuffer :: "'k sys \<Rightarrow> byte list \<Rightarrow> 'k sc_world \<Rightarrow> 'k sc_world res" where
  "appendBuffer S data w =
     ebind
       (if writeBufferLastCanAppend (length data) (chan w)
        then ebind (writeBytes data (last (writeBuffer (chan w))))
               (\<lambda>b. Inr (butlast (writeBuffer (chan w)) @ [b]))
        else ebind (bb_of_data data) (\<lambda>b. Inr (writeBuffer (chan w) @ [b])))
       (\<lambda>wb. let w = w\<lparr>chan := (chan w)\<lparr>writeBuffer := wb\<rparr>\<rparr>
             in if \<not> hasWriteEvent (chan w)
                then Inr (sc_modify S (w\<lparr>chan := addEvent kWriteEvent (chan w)\<rparr>))
                else Inr w)"

definition pushCallback :: "nat option \<Rightarrow> 'k sc_world \<Rightarrow> 'k sc_world" where
  "pushCallback cb w =
     w\<lparr>chan := (chan w)\<lparr>writeCompleteCallbacks := writeCompleteCallbacks (chan w) @ [cb]\<rparr>\<rparr>"

definition queueCallback :: "nat option \<Rightarrow> 'k sc_world \<Rightarrow> 'k sc_world" where
  "queueCallback cb w = (case cb of None \<Rightarrow> w | Some c \<Rightarrow> addTask (WriteCompleteTask c) w)"

text \<open>
  After an error other than \<open>EAGAIN\<close>/\<open>EINTR\<close> the code falls through with \<^verbatim>\<open>bytes = -1\<close>:
  \<^verbatim>\<open>appendBuffer(data - 1, length + 1)\<close> reads in front of the message.
\<close>

definition doWriteDirectly ::
    "'k sys \<Rightarrow> 'k app \<Rightarrow> byte list \<Rightarrow> nat option \<Rightarrow> 'k sc_world \<Rightarrow> 'k sc_world res" where
  "doWriteDirectly S app data cb w =
     (let (r, k) = sys_write S (kern w) (fd (chan w)) data;
          w = w\<lparr>kern := k\<rparr>
      in case r of
           Inl errNum \<Rightarrow>
             if errNum = EAGAIN \<or> errNum = EINTR
             then ebind (appendBuffer S data w) (\<lambda>w. Inr (pushCallback cb w))
             else (let w = handleWriteError app errNum w in Inl Undefined)
         | Inr bytes \<Rightarrow>
             if length data - bytes = 0 then Inr (queueCallback cb w)
             else ebind (appendBuffer S (drop bytes data) w) (\<lambda>w. Inr (pushCallback cb w)))"

definition doWrite ::
    "'k sys \<Rightarrow> 'k app \<Rightarrow> byte list \<Rightarrow> nat option \<Rightarrow> 'k sc_world \<Rightarrow> 'k sc_world res" where
  "doWrite S app data cb w =
     (if state (chan w) = INACTIVE then Inr w
      else if length data = 0 then Inr w
      else if writeBuffer (chan w) \<noteq> []
      then ebind (appendBuffer S data w) (\<lambda>w. Inr (pushCallback cb w))
      else doWriteDirectly S app data cb w)"

text \<open>
  The three overloads of \<^verbatim>\<open>write\<close>; \<open>inLoop\<close> is \<^verbatim>\<open>isInCurrentEventLoop()\<close> of the calling thread.
  The buffer version captures a copy of the message.
\<close>

definition writeStringMessage ::
    "'k sys \<Rightarrow> 'k app \<Rightarrow> bool \<Rightarrow> byte list \<Rightarrow> nat option \<Rightarrow> 'k sc_world \<Rightarrow> 'k sc_world res" where
  "writeStringMessage S app inLoop message cb w =
     (if inLoop then doWrite S app message cb w else Inr (addTask (DoWriteTask message cb) w))"

definition writeRawMessage ::
    "'k sys \<Rightarrow> 'k app \<Rightarrow> bool \<Rightarrow> byte list \<Rightarrow> nat \<Rightarrow> nat option \<Rightarrow> 'k sc_world \<Rightarrow> 'k sc_world res" where
  "writeRawMessage S app inLoop message len cb w =
     ebind (mem_read message 0 len) (\<lambda>s. writeStringMessage S app inLoop s cb w)"

definition writeBufferMessage ::
    "'k sys \<Rightarrow> 'k app \<Rightarrow> bool \<Rightarrow> byte_buffer \<Rightarrow> nat option \<Rightarrow> 'k sc_world \<Rightarrow> 'k sc_world res" where
  "writeBufferMessage S app inLoop message cb w =
     (if inLoop then ebind (bb_toString message) (\<lambda>bs. doWrite S app bs cb w)
      else ebind (bb_copy message) (\<lambda>msg.
           ebind (bb_toString msg) (\<lambda>bs. Inr (addTask (DoWriteTask bs cb) w))))"

section \<open>Flushing\<close>

text \<open>
  \<^verbatim>\<open>writev\<close>: batches of at most \<open>kMaxCountOfWriteVOnce\<close> blocks, with the bounds of the two loops
  that compute \<^verbatim>\<open>expectedWriteLen\<close> as they are written.
\<close>

definition iov_len_sum :: "byte list list \<Rightarrow> nat \<Rightarrow> nat \<Rightarrow> nat" where
  "iov_len_sum iovecs lo hi = sum_list (map (\<lambda>i. length (iovecs ! i)) [lo..<hi])"

function writevLoop ::
    "'k sys \<Rightarrow> FdType \<Rightarrow> byte list list \<Rightarrow> nat \<Rightarrow> nat \<Rightarrow> nat \<Rightarrow> 'k \<Rightarrow> (nat + nat) \<times> 'k" where
  "writevLoop S sockFd iovecs count writtenBlocks writtenBytes k =
     (if writtenBlocks < count then
        (let leftBlocks = count - writtenBlocks;
             small = leftBlocks < kMaxCountOfWriteVOnce;
             blocks = (if small then leftBlocks else kMaxCountOfWriteVOnce);
             expectedWriteLen = (if small then iov_len_sum iovecs writtenBlocks leftBlocks
                                 else iov_len_sum iovecs writtenBlocks kMaxCountOfWriteVOnce);
             (r, k') = sys_writev S k sockFd (take blocks (drop writtenBlocks iovecs))
         in case r of
              Inl errNum \<Rightarrow>
                if errNum = EAGAIN \<or> errNum = EINTR then (Inr writtenBytes, k') else (Inl errNum, k')
            | Inr bytes \<Rightarrow>
                if bytes < expectedWriteLen then (Inr (writtenBytes + bytes), k')
                else writevLoop S sockFd iovecs count (writtenBlocks + blocks) (writtenBytes + bytes) k')
      else (Inr writtenBytes, k))"
  by pat_completeness auto
termination
  by (relation "measure (\<lambda>(S, f, iovs, count, wb, n, k). count - wb)")
    (auto simp: kMaxCountOfWriteVOnce_def split: if_splits)

declare writevLoop.simps [simp del]

definition writev :: "'k sys \<Rightarrow> FdType \<Rightarrow> byte list list \<Rightarrow> nat \<Rightarrow> 'k \<Rightarrow> (nat + nat) \<times> 'k" where
  "writev S sockFd iovecs count k = writevLoop S sockFd iovecs count 0 0 k"

fun removeSentBuffer :: "byte_buffer list \<Rightarrow> nat \<Rightarrow> byte_buffer list" where
  "removeSentBuffer [] writtenBytes = []"
| "removeSentBuffer (b # bs) writtenBytes =
     (if writtenBytes > 0
      then (if readableBytes b \<le> writtenBytes
            then removeSentBuffer bs (writtenBytes - readableBytes b)
            else setReaderIndex (readerIndex b + writtenBytes) b # removeSentBuffer bs 0)
      else b # bs)"

text \<open>The loop that turns the queued callbacks into tasks.\<close>

fun flushCallbacks :: "nat option list \<Rightarrow> 'k sc_world \<Rightarrow> 'k sc_world" where
  "flushCallbacks [] w = w\<lparr>chan := (chan w)\<lparr>writeCompleteCallbacks := []\<rparr>\<rparr>"
| "flushCallbacks (cb # cbs) w = flushCallbacks cbs (queueCallback cb w)"

text \<open>The blocks: each the readable bytes of its buffer.\<close>

fun read_blocks :: "byte_buffer list \<Rightarrow> byte list list res" where
  "read_blocks [] = Inr []"
| "read_blocks (b # bs) = ebind (bb_toString b) (\<lambda>x. ebind (read_blocks bs) (\<lambda>xs. Inr (x # xs)))"

definition sc_handleWriteEvent :: "'k sys \<Rightarrow> 'k app \<Rightarrow> 'k sc_world \<Rightarrow> 'k sc_world res" where
  "sc_handleWriteEvent S app w =
     (if state (chan w) = INACTIVE then Inr w
      else ebind (read_blocks (writeBuffer (chan w))) (\<lambda>ioves.
        let totalBytes = sum_list (map readableBytes (writeBuffer (chan w)));
            (r, k) = writev S (fd (chan w)) ioves (length (writeBuffer (chan w))) (kern w);
            w = w\<lparr>kern := k\<rparr>
        in case r of
             Inl errNum \<Rightarrow> Inr (handleWriteError app errNum w)
           | Inr writtenBytes \<Rightarrow>
               if totalBytes = writtenBytes
               then (let w = flushCallbacks (writeCompleteCallbacks (chan w))
                               (w\<lparr>chan := (chan w)\<lparr>writeBuffer := []\<rparr>\<rparr>)
                     in if state (chan w) = HALF_CLOSE then Inr (channelInActive app w)
                        else Inr (sc_modify S (w\<lparr>chan := setEvents kReadEvent (chan w)\<rparr>)))
               else Inr (w\<lparr>chan := (chan w)\<lparr>writeBuffer :=
                             removeSentBuffer (writeBuffer (chan w)) writtenBytes\<rparr>\<rparr>)))"

section \<open>Reading\<close>

text \<open>
  \<^verbatim>\<open>doRead\<close> reads until the kernel has no more: \<open>None\<close> is a loop that never ends. The value is
  \<open>Inl errno\<close> for -1 and \<open>Inr n\<close> for the number of bytes.
\<close>

definition errno_of :: "nat + 'a \<Rightarrow> nat" where
  "errno_of reply = (case reply of Inl e \<Rightarrow> e | Inr x \<Rightarrow> 0)"

partial_function (option) doReadLoop ::
    "'k sys \<Rightarrow> FdType \<Rightarrow> nat \<Rightarrow> byte_buffer \<Rightarrow> 'k \<Rightarrow> ((nat + nat) \<times> byte_buffer \<times> 'k) res option" where
  "doReadLoop S sockFd expectedReadLen b k =
     (let (reply, k') = sys_read S k sockFd expectedReadLen
      in case writeBytesFrom expectedReadLen reply b of
           Inl e \<Rightarrow> Some (Inl e)
         | Inr (n, b') \<Rightarrow>
             if n > 0
             then (let adjustment = expectedReadLen - nat n
                   in doReadLoop S sockFd (if adjustment > 0 then adjustment else expectedReadLen) b' k')
             else if n < 0
             then (if errno_of reply \<noteq> EAGAIN \<and> errno_of reply \<noteq> EINTR
                   then Some (Inr (Inl (errno_of reply), b', k'))
                   else Some (Inr (Inr (readableBytes b'), b', k')))
             else (if readableBytes b' = 0 then Some (Inr (Inr 0, b', k'))
                   else Some (Inr (Inr (readableBytes b'), b', k'))))"

definition doRead :: "'k sys \<Rightarrow> FdType \<Rightarrow> byte_buffer \<Rightarrow> 'k \<Rightarrow> ((nat + nat) \<times> byte_buffer \<times> 'k) res" where
  "doRead S sockFd b k =
     (case doReadLoop S sockFd (writableBytes b) b k of Some r \<Rightarrow> r | None \<Rightarrow> Inl Hang)"

definition sc_handleReadEvent :: "'k sys \<Rightarrow> 'k app \<Rightarrow> 'k sc_world \<Rightarrow> 'k sc_world res" where
  "sc_handleReadEvent S app w =
     (if state (chan w) = INACTIVE then Inr w
      else ebind (bb_new kRecvBufferSize) (\<lambda>byteBuffer.
           ebind (doRead S (fd (chan w)) byteBuffer (kern w)) (\<lambda>(r, b, k).
             let w = w\<lparr>kern := k\<rparr>
             in case r of
                  Inl errNum \<Rightarrow> Inr (handleReadError app errNum w)
                | Inr bytes \<Rightarrow>
                    if bytes > 0 then Inr (fire app (EvRead (content b)) w)
                    else if writeBuffer (chan w) = [] then Inr (sc_shutdown S app w)
                    else (let w = sc_shutdownRead S w
                          in Inr (sc_modify S (w\<lparr>chan := setEvents kWriteEvent (chan w)\<rparr>))))))"

section \<open>Events and tasks\<close>

definition sc_handleEvent :: "'k sys \<Rightarrow> 'k app \<Rightarrow> 'k sc_world \<Rightarrow> 'k sc_world res" where
  "sc_handleEvent S app w =
     handleEvent (\<lambda>w. readyEvents (chan w)) (\<lambda>w. Inr (sc_handleErrorEvent app w))
       (sc_handleReadEvent S app) (sc_handleWriteEvent S app) w"

text \<open>The bodies of the closures given to the event loop.\<close>

fun sc_runTask :: "'k sys \<Rightarrow> 'k app \<Rightarrow> sc_task \<Rightarrow> 'k sc_world \<Rightarrow> 'k sc_world res" where
  "sc_runTask S app (WriteCompleteTask cb) w = Inr (fire app (EvWriteComplete cb) w)"
| "sc_runTask S app DeregisterTask w = Inr (sc_deregister S w)"
| "sc_runTask S app (DoWriteTask data cb) w = doWrite S app data cb w"

section \<open>Invariant and abstraction\<close>

text \<open>
  What is still to be sent, and the invariant of a channel: every waiting buffer is well
  formed and not empty, and while anything waits the channel asks epoll for write events.
\<close>

definition pending :: "socket_channel \<Rightarrow> byte list" where
  "pending c = concat (map content (writeBuffer c))"

definition buf_ok :: "byte_buffer \<Rightarrow> bool" where
  "buf_ok b \<longleftrightarrow> bb_ok b \<and> content b \<noteq> []"

definition sc_inv :: "socket_channel \<Rightarrow> bool" where
  "sc_inv c \<longleftrightarrow> list_all buf_ok (writeBuffer c) \<and> (writeBuffer c \<noteq> [] \<longrightarrow> hasWriteEvent c)"

text \<open>Everything but the buffers, the event masks and the kernel; and the kernel's streams.\<close>

definition quiet :: "'k sc_world \<Rightarrow> 'k sc_world \<Rightarrow> bool" where
  "quiet w w' \<longleftrightarrow> fd (chan w') = fd (chan w) \<and> state (chan w') = state (chan w) \<and>
     writeCompleteCallbacks (chan w') = writeCompleteCallbacks (chan w) \<and>
     inChannels w' = inChannels w \<and> tasks w' = tasks w \<and> fired w' = fired w"

definition same_streams :: "'k sys \<Rightarrow> 'k sc_world \<Rightarrow> 'k sc_world \<Rightarrow> bool" where
  "same_streams S w w' \<longleftrightarrow> (\<forall>sent f. stream_spec S sent \<longrightarrow> sent (kern w') f = sent (kern w) f)"

lemma same_streamsD: "same_streams S w w' \<Longrightarrow> stream_spec S sent \<Longrightarrow> sent (kern w') f = sent (kern w) f"
  by (simp add: same_streams_def)

lemma channel_more_fields:
  fixes c c' :: socket_channel
  assumes "channel.more c' = channel.more c"
  shows "writeBuffer c' = writeBuffer c" "state c' = state c"
    "writeCompleteCallbacks c' = writeCompleteCallbacks c"
  using assms by (cases c; cases c'; simp)+

lemma sc_modify_frame:
  shows "quiet w (sc_modify S w)" and "same_streams S w (sc_modify S w)"
    and "writeBuffer (chan (sc_modify S w)) = writeBuffer (chan w)"
    and "events (chan (sc_modify S w)) = events (chan w)"
proof -
  obtain ok c k where m: "poller_modifyChannel S (chan w) (kern w) = (ok, c, k)"
    by (metis prod_cases3)
  have call: "poller_call S (poller_modifyChannel S :: socket_channel \<Rightarrow> _)"
    by (simp add: poller_call_def)
  note f = poller_call_fields[OF call m] and more = channel_more_fields[OF poller_call_fields(4)[OF call m]]
  show "quiet w (sc_modify S w)"
    using m f(1) more by (simp add: sc_modify_def quiet_def)
  show "same_streams S w (sc_modify S w)"
    using m poller_call_stream[OF call m] by (auto simp: sc_modify_def same_streams_def)
  show "writeBuffer (chan (sc_modify S w)) = writeBuffer (chan w)"
    "events (chan (sc_modify S w)) = events (chan w)"
    using m f(2) more by (simp_all add: sc_modify_def)
qed

lemma quiet_trans: "quiet u v \<Longrightarrow> quiet v w \<Longrightarrow> quiet u w"
  by (simp add: quiet_def)

lemma hasWriteEvent_bit [simp]: "hasWriteEvent c \<longleftrightarrow> bit (events c) 1"
  by (simp add: hasWriteEvent_def)

lemma bb_toString_content: "bb_inv b \<Longrightarrow> bb_toString b = Inr (content b)"
  using bb_inv_bounds[of b]
  by (simp add: bb_toString_def mem_read_def content_def readableBytes_content content_length)

lemma read_blocks_ok: "list_all bb_ok bs \<Longrightarrow> read_blocks bs = Inr (map content bs)"
  by (induction bs) (simp_all add: bb_toString_content bb_ok_def)

section \<open>Appending\<close>

lemma buf_append:
  assumes "bb_ok b" and "length data \<le> 2 ^ 62" and "length data \<le> writableBytes b"
  obtains b' where "writeBytes data b = Inr b'" "bb_ok b'" "content b' = content b @ data"
proof -
  have "\<not> growth_refused (length data) b"
    using assms bb_okD(1)[OF assms(1)] by (simp add: growth_refused_def writableBytes_inv)
  from writeBytes_ok[OF assms(1,2) this] that show thesis by blast
qed

lemma buf_fresh:
  assumes "length data \<le> 2 ^ 62"
  obtains b' where "bb_of_data data = Inr b'" "bb_ok b'" "content b' = data"
proof -
  have "bb_ok bb_null" "\<not> growth_refused (length data) bb_null"
    by (simp_all add: bb_ok_def bb_null_def growth_refused_def bb_inv_def)
  from writeBytes_ok[OF this(1) assms this(2)] that show thesis by (auto simp: bb_of_data_def)
qed

lemma append_blocks:
  assumes "list_all buf_ok (writeBuffer c)" and "data \<noteq> []" and "length data \<le> 2 ^ 62"
  obtains wb where
    "(if writeBufferLastCanAppend (length data) c
      then ebind (writeBytes data (last (writeBuffer c))) (\<lambda>b. Inr (butlast (writeBuffer c) @ [b]))
      else ebind (bb_of_data data) (\<lambda>b. Inr (writeBuffer c @ [b]))) = Inr wb"
    "list_all buf_ok wb" "concat (map content wb) = pending c @ data" "wb \<noteq> []"
    "length wb \<le> Suc (length (writeBuffer c))"
proof (cases "writeBufferLastCanAppend (length data) c")
  case True
  then have ne: "writeBuffer c \<noteq> []" and room: "length data \<le> writableBytes (last (writeBuffer c))"
    by (auto simp: writeBufferLastCanAppend_def split: if_splits)
  obtain bs b where wb: "writeBuffer c = bs @ [b]" using ne by (metis rev_exhaust)
  have "bb_ok b" using assms(1) wb by (simp add: buf_ok_def)
  from buf_append[OF this assms(3)] room wb obtain b' where b':
    "writeBytes data b = Inr b'" "bb_ok b'" "content b' = content b @ data" by auto
  show thesis
    by (rule that[of "bs @ [b']"]) (use True wb b' assms(1,2) in \<open>simp_all add: buf_ok_def pending_def\<close>)
next
  case False
  from buf_fresh[OF assms(3)] obtain b' where "bb_of_data data = Inr b'" "bb_ok b'" "content b' = data"
    by blast
  with False assms show thesis
    by (intro that[of "writeBuffer c @ [b']"]) (simp_all add: buf_ok_def pending_def)
qed

lemma appendBuffer_ok:
  assumes "list_all buf_ok (writeBuffer (chan w))" and "data \<noteq> []" and "length data \<le> 2 ^ 62"
  obtains w' where "appendBuffer S data w = Inr w'" "quiet w w'" "same_streams S w w'" "sc_inv (chan w')"
    "pending (chan w') = pending (chan w) @ data"
    "length (writeBuffer (chan w')) \<le> Suc (length (writeBuffer (chan w)))"
proof -
  from append_blocks[OF assms] obtain wb where wb:
    "(if writeBufferLastCanAppend (length data) (chan w)
      then ebind (writeBytes data (last (writeBuffer (chan w)))) (\<lambda>b. Inr (butlast (writeBuffer (chan w)) @ [b]))
      else ebind (bb_of_data data) (\<lambda>b. Inr (writeBuffer (chan w) @ [b]))) = Inr wb"
    "list_all buf_ok wb" "concat (map content wb) = pending (chan w) @ data" "wb \<noteq> []"
    "length wb \<le> Suc (length (writeBuffer (chan w)))" by blast
  define w1 where "w1 = w\<lparr>chan := (chan w)\<lparr>writeBuffer := wb\<rparr>\<rparr>"
  define w2 where "w2 = w1\<lparr>chan := addEvent kWriteEvent (chan w1)\<rparr>"
  define w' where "w' = (if hasWriteEvent (chan w1) then w1 else sc_modify S w2)"
  have run: "appendBuffer S data w = Inr w'"
    using wb(1) by (simp add: appendBuffer_def w'_def w1_def w2_def Let_def)
  have q1: "quiet w w1" "quiet w w2" "same_streams S w w1" "same_streams S w w2"
    by (simp_all add: quiet_def same_streams_def w1_def w2_def addEvent_def)
  have q: "quiet w w'"
    using q1 quiet_trans[OF q1(2) sc_modify_frame(1)] by (simp add: w'_def)
  have ss: "same_streams S w w'"
    using q1 sc_modify_frame(2)[where S = S and w = w2] by (auto simp: w'_def same_streams_def)
  have b: "writeBuffer (chan w') = wb"
    by (simp add: w'_def sc_modify_frame(3), simp add: w1_def w2_def addEvent_def)
  have e: "hasWriteEvent (chan w')"
    by (simp add: w'_def sc_modify_frame(4), simp add: w2_def bit_or_iff)
  show thesis using run q ss b e wb by (intro that[of w']) (simp_all add: sc_inv_def pending_def)
qed

section \<open>Writing and flushing\<close>

lemma pushCallback_simps [simp]:
  "writeBuffer (chan (pushCallback cb w)) = writeBuffer (chan w)"
  "state (chan (pushCallback cb w)) = state (chan w)" "fd (chan (pushCallback cb w)) = fd (chan w)"
  "events (chan (pushCallback cb w)) = events (chan w)"
  "kern (pushCallback cb w) = kern w" "tasks (pushCallback cb w) = tasks w"
  "fired (pushCallback cb w) = fired w" "pending (chan (pushCallback cb w)) = pending (chan w)"
  "sc_inv (chan (pushCallback cb w)) = sc_inv (chan w)"
  "writeCompleteCallbacks (chan (pushCallback cb w)) = writeCompleteCallbacks (chan w) @ [cb]"
  by (simp_all add: pushCallback_def pending_def sc_inv_def)

lemma queueCallback_simps [simp]:
  "chan (queueCallback cb w) = chan w" "kern (queueCallback cb w) = kern w"
  "fired (queueCallback cb w) = fired w" "inChannels (queueCallback cb w) = inChannels w"
  "tasks (queueCallback cb w) = tasks w @ (case cb of None \<Rightarrow> [] | Some c \<Rightarrow> [WriteCompleteTask c])"
  by (simp_all add: queueCallback_def addTask_def split: option.split)

text \<open>
  One write on a healthy connection: the stream, followed by what waits, grows by exactly the
  message; the callback is a task exactly if nothing of the message waits, and otherwise is
  queued behind the earlier ones.
\<close>

lemma doWrite_ok:
  assumes spec: "stream_spec S sent" "soft_errors S" and inv: "sc_inv (chan w)"
    and st: "state (chan w) \<noteq> INACTIVE" and len: "length data \<le> 2 ^ 62"
  obtains w' where "doWrite S app data cb w = Inr w'" "sc_inv (chan w')"
    "sent (kern w') (fd (chan w)) @ pending (chan w') = sent (kern w) (fd (chan w)) @ pending (chan w) @ data"
    "fd (chan w') = fd (chan w)" "state (chan w') = state (chan w)" "fired w' = fired w"
    "length (writeBuffer (chan w')) \<le> Suc (length (writeBuffer (chan w)))"
    "data \<noteq> [] \<longrightarrow> (if pending (chan w') = []
       then tasks w' = tasks w @ (case cb of None \<Rightarrow> [] | Some c \<Rightarrow> [WriteCompleteTask c]) \<and>
            writeCompleteCallbacks (chan w') = writeCompleteCallbacks (chan w)
       else tasks w' = tasks w \<and>
            writeCompleteCallbacks (chan w') = writeCompleteCallbacks (chan w) @ [cb])"
proof (cases "data = [] \<or> writeBuffer (chan w) \<noteq> []")
  case True
  show thesis
  proof (cases "data = []")
    case True then show thesis using inv st by (intro that[of w]) (simp_all add: doWrite_def)
  next
    case False
    from inv have "list_all buf_ok (writeBuffer (chan w))" by (simp add: sc_inv_def)
    from appendBuffer_ok[OF this False len] obtain w1 where
      "appendBuffer S data w = Inr w1" "quiet w w1" "same_streams S w w1" "sc_inv (chan w1)"
      "pending (chan w1) = pending (chan w) @ data"
      "length (writeBuffer (chan w1)) \<le> Suc (length (writeBuffer (chan w)))" by blast
    with True False st show thesis
      by (intro that[of "pushCallback cb w1"]) (simp_all add: doWrite_def quiet_def same_streamsD[OF _ spec(1)])
  qed
next
  case False
  then have ne: "data \<noteq> []" and wb: "writeBuffer (chan w) = []" by auto
  obtain r k where sw: "sys_write S (kern w) (fd (chan w)) data = (r, k)" by force
  define n where "n = (case r of Inl e \<Rightarrow> 0 | Inr m \<Rightarrow> m)"
  define wk where "wk = w\<lparr>kern := k\<rparr>"
  have n: "n \<le> length data" "sent k (fd (chan w)) = sent (kern w) (fd (chan w)) @ take n data"
    using stream_writeD[OF spec(1) sw] by (auto simp: n_def split: sum.splits)
  have soft: "r = Inl e \<Longrightarrow> e = EAGAIN \<or> e = EINTR" for e
    using soft_errorsD(1)[OF spec(2)] sw by blast
  have run: "doWrite S app data cb w = (if n = length data then Inr (queueCallback cb wk)
      else ebind (appendBuffer S (drop n data) wk) (\<lambda>w. Inr (pushCallback cb w)))"
    using st ne wb sw n(1) soft
    by (cases r) (auto simp: doWrite_def doWriteDirectly_def n_def wk_def)
  show thesis
  proof (cases "n = length data")
    case True
    then show thesis using run n(2) ne wb inv
      by (intro that[of "queueCallback cb wk"]) (simp_all add: wk_def pending_def)
  next
    case False
    have "list_all buf_ok (writeBuffer (chan wk))" "drop n data \<noteq> []" "length (drop n data) \<le> 2 ^ 62"
      using wb n(1) False len by (simp_all add: wk_def)
    from appendBuffer_ok[OF this] obtain w1 where
      "appendBuffer S (drop n data) wk = Inr w1" "quiet wk w1" "same_streams S wk w1" "sc_inv (chan w1)"
      "pending (chan w1) = pending (chan wk) @ drop n data"
      "length (writeBuffer (chan w1)) \<le> Suc (length (writeBuffer (chan wk)))" by blast
    with run False n wb show thesis
      by (intro that[of "pushCallback cb w1"]) (simp_all add: quiet_def wk_def pending_def same_streamsD[OF _ spec(1)])
  qed
qed

subsection \<open>Vectored writes\<close>

lemma iov_len_sum_take:
  "m \<le> length iovs \<Longrightarrow> iov_len_sum iovs 0 m = length (concat (take m iovs))"
  by (induction m) (simp_all add: iov_len_sum_def take_Suc_conv_app_nth)

lemma iov_len_sum_empty: "hi \<le> lo \<Longrightarrow> iov_len_sum iovs lo hi = 0"
  by (simp add: iov_len_sum_def)

text \<open>A last batch, and the whole call for at most two batches.\<close>

lemma writevLoop_last:
  assumes spec: "stream_spec S sent" "soft_errors S" and "length iovs = count"
    and "wb \<le> count" and "count - wb \<le> kMaxCountOfWriteVOnce"
  obtains m k' where "writevLoop S f iovs count wb n k = (Inr (n + m), k')"
    "m \<le> length (concat (drop wb iovs))" "sent k' f = sent k f @ take m (concat (drop wb iovs))"
proof (cases "wb < count")
  case False
  then show thesis using assms by (intro that[of 0 k]) (simp_all add: writevLoop.simps)
next
  case True
  obtain r k' where sw: "sys_writev S k f (drop wb iovs) = (r, k')" by force
  have blocks: "(if count - wb < kMaxCountOfWriteVOnce then count - wb else kMaxCountOfWriteVOnce) = count - wb"
    and "take (count - wb) (drop wb iovs) = drop wb iovs" using assms(3,5) by auto
  have ended: "count \<le> b \<Longrightarrow> writevLoop S f iovs count b x k' = (Inr x, k')" for b x
    by (subst writevLoop.simps) simp
  have soft: "r = Inl e \<Longrightarrow> e = EAGAIN \<or> e = EINTR" for e
    using soft_errorsD(2)[OF spec(2)] sw by blast
  have "writevLoop S f iovs count wb n k = (Inr (n + (case r of Inl e \<Rightarrow> 0 | Inr m \<Rightarrow> m)), k')"
    using True sw assms(3,5) ended soft
    by (subst writevLoop.simps) (auto simp: blocks Let_def split: sum.split)
  then show thesis using stream_writevD[OF spec(1) sw]
    by (intro that[of "case r of Inl e \<Rightarrow> 0 | Inr m \<Rightarrow> m" k']) (auto split: sum.splits)
qed

lemma concat_take_prefix:
  "j \<le> length (concat (take b iovs)) \<Longrightarrow> take j (concat (take b iovs)) = take j (concat iovs)"
  by (metis append_take_drop_id concat_append take_append diff_is_0_eq' take0 append_Nil2)

lemma writev_ok:
  assumes spec: "stream_spec S sent" "soft_errors S" and "length iovs = count"
    and two: "count \<le> 2 * kMaxCountOfWriteVOnce"
  obtains m k' where "writev S f iovs count k = (Inr m, k')"
    "m \<le> length (concat iovs)" "sent k' f = sent k f @ take m (concat iovs)"
proof (cases "count \<le> kMaxCountOfWriteVOnce")
  case True
  with writevLoop_last[OF spec assms(3), of 0 f 0 k] that show thesis by (auto simp: writev_def)
next
  case False
  let ?B = kMaxCountOfWriteVOnce and ?first = "concat (take kMaxCountOfWriteVOnce iovs)"
  obtain r k1 where sw: "sys_writev S k f (take ?B iovs) = (r, k1)" by force
  have soft: "r = Inl e \<Longrightarrow> e = EAGAIN \<or> e = EINTR" for e
    using soft_errorsD(2)[OF spec(2)] sw by blast
  have len: "iov_len_sum iovs 0 ?B = length ?first"
    using False assms(3) by (intro iov_len_sum_take) simp
  have step: "writev S f iovs count k = (case r of Inl e \<Rightarrow> (Inr 0, k1)
      | Inr j \<Rightarrow> if j < length ?first then (Inr j, k1) else writevLoop S f iovs count ?B j k1)"
    using False sw soft assms(3)
    by (subst writev_def, subst writevLoop.simps) (auto simp: Let_def len split: sum.split)
  note answer = stream_writevD[OF spec(1) sw]
  show thesis
  proof (cases "\<exists>j. r = Inr j \<and> \<not> j < length ?first")
    case True
    then obtain j where r: "r = Inr j" and j: "j = length ?first" using answer by auto
    have all: "concat iovs = ?first @ concat (drop ?B iovs)"
      by (metis append_take_drop_id concat_append)
    have "?B \<le> count" "count - ?B \<le> ?B" using False two by auto
    from writevLoop_last[OF spec assms(3) this, of f j k1] obtain m k' where
      "writevLoop S f iovs count ?B j k1 = (Inr (j + m), k')" "m \<le> length (concat (drop ?B iovs))"
      "sent k' f = sent k1 f @ take m (concat (drop ?B iovs))" by blast
    with step r j answer all show thesis by (intro that[of "j + m" k']) simp_all
  next
    case False
    define j where "j = (case r of Inl e \<Rightarrow> 0 | Inr j \<Rightarrow> j)"
    have "writev S f iovs count k = (Inr j, k1)" "j \<le> length ?first"
      "sent k1 f = sent k f @ take j ?first"
      using step False answer by (auto simp: j_def split: sum.splits)
    moreover have "length ?first \<le> length (concat iovs)"
      by (metis append_take_drop_id concat_append length_append le_add1)
    ultimately show thesis using concat_take_prefix[of j ?B iovs] by (intro that[of j k1]) simp_all
  qed
qed

subsection \<open>Dropping what was sent\<close>

lemma content_setReaderIndex:
  assumes "bb_ok b" and "n \<le> length (content b)"
  shows "bb_ok (setReaderIndex (readerIndex b + n) b)"
    and "content (setReaderIndex (readerIndex b + n) b) = drop n (content b)"
proof -
  have inv: "bb_inv b" using assms(1) by (simp add: bb_ok_def)
  have n: "readerIndex b + n \<le> writerIndex b"
    using assms(2) content_length[OF inv] bb_inv_bounds[OF inv] by linarith
  then show "bb_ok (setReaderIndex (readerIndex b + n) b)"
    using assms(1) by (simp add: bb_ok_def bb_inv_def setReaderIndex_def)
  show "content (setReaderIndex (readerIndex b + n) b) = drop n (content b)"
    using n by (simp add: content_def setReaderIndex_def drop_take add.commute diff_diff_left)
qed

lemma removeSentBuffer_ok:
  "list_all buf_ok bs \<Longrightarrow> n \<le> length (concat (map content bs)) \<Longrightarrow>
   list_all buf_ok (removeSentBuffer bs n) \<and>
   concat (map content (removeSentBuffer bs n)) = drop n (concat (map content bs)) \<and>
   length (removeSentBuffer bs n) \<le> length bs"
proof (induction bs n rule: removeSentBuffer.induct)
  case (2 b bs n)
  have rb: "readableBytes b = length (content b)" and okb: "bb_ok b"
    using "2.prems"(1) by (simp_all add: buf_ok_def bb_ok_def readableBytes_content)
  have rest0: "removeSentBuffer bs 0 = bs" by (cases bs) simp_all
  show ?case
  proof (cases "0 < n \<and> length (content b) \<le> n")
    case True
    moreover have "n - length (content b) \<le> length (concat (map content bs))" using "2.prems"(2) by simp
    ultimately show ?thesis using "2.IH"(1) "2.prems" rb by (simp add: le_SucI)
  next
    case False
    then have "n \<le> length (content b)" by auto
    with okb have "bb_ok (setReaderIndex (readerIndex b + n) b)"
      "content (setReaderIndex (readerIndex b + n) b) = drop n (content b)"
      by (rule content_setReaderIndex)+
    then show ?thesis using False "2.prems" rb rest0 by (auto simp: buf_ok_def)
  qed
qed simp

lemma flushCallbacks_simps:
  "flushCallbacks cbs w = w\<lparr>chan := (chan w)\<lparr>writeCompleteCallbacks := []\<rparr>,
     tasks := tasks w @ map WriteCompleteTask (List.map_filter id cbs)\<rparr>"
  by (induction cbs w rule: flushCallbacks.induct)
    (auto simp: queueCallback_def addTask_def List.map_filter_simps split: option.split)

subsection \<open>The write event\<close>

lemma totalBytes_pending:
  "list_all bb_ok bs \<Longrightarrow> sum_list (map readableBytes bs) = length (concat (map content bs))"
  by (induction bs) (simp_all add: bb_ok_def readableBytes_content)

lemma list_all_buf_bb: "list_all buf_ok bs \<Longrightarrow> list_all bb_ok bs"
  by (simp add: list_all_iff buf_ok_def)

lemma pending_Nil_iff: "list_all buf_ok (writeBuffer c) \<Longrightarrow> pending c = [] \<longleftrightarrow> writeBuffer c = []"
  by (cases "writeBuffer c") (auto simp: pending_def buf_ok_def)

text \<open>
  One write event on an active channel: the stream followed by what waits does not change;
  when nothing waits any more, the queued callbacks have become tasks in their order.
\<close>

lemma sc_handleWriteEvent_ok:
  assumes spec: "stream_spec S sent" "soft_errors S" and inv: "sc_inv (chan w)"
    and st: "state (chan w) = ACTIVE"
    and few: "length (writeBuffer (chan w)) \<le> 2 * kMaxCountOfWriteVOnce"
  obtains w' where "sc_handleWriteEvent S app w = Inr w'" "sc_inv (chan w')"
    "sent (kern w') (fd (chan w)) @ pending (chan w') = sent (kern w) (fd (chan w)) @ pending (chan w)"
    "fd (chan w') = fd (chan w)" "state (chan w') = ACTIVE" "fired w' = fired w"
    "length (writeBuffer (chan w')) \<le> length (writeBuffer (chan w))"
    "if pending (chan w') = []
     then tasks w' = tasks w @ map WriteCompleteTask (List.map_filter id (writeCompleteCallbacks (chan w))) \<and>
          writeCompleteCallbacks (chan w') = [] \<and> events (chan w') = kReadEvent
     else tasks w' = tasks w \<and> writeCompleteCallbacks (chan w') = writeCompleteCallbacks (chan w) \<and>
          events (chan w') = events (chan w)"
proof -
  let ?wb = "writeBuffer (chan w)" and ?f = "fd (chan w)"
  have okb: "list_all buf_ok ?wb" using inv by (simp add: sc_inv_def)
  note bbs = list_all_buf_bb[OF okb]
  from writev_ok[OF spec _ few, of "map content ?wb" ?f "kern w"] obtain m k where
    wv: "writev S ?f (map content ?wb) (length ?wb) (kern w) = (Inr m, k)"
      "m \<le> length (pending (chan w))" "sent k ?f = sent (kern w) ?f @ take m (pending (chan w))"
    by (auto simp: pending_def)
  have total: "sum_list (map readableBytes ?wb) = length (pending (chan w))"
    using totalBytes_pending[OF bbs] by (simp add: pending_def)
  show thesis
  proof (cases "m = length (pending (chan w))")
    case True
    define w1 where "w1 = w\<lparr>kern := k,
       tasks := tasks w @ map WriteCompleteTask (List.map_filter id (writeCompleteCallbacks (chan w))),
       chan := (chan w)\<lparr>writeBuffer := [], writeCompleteCallbacks := [], events := kReadEvent\<rparr>\<rparr>"
    have run: "sc_handleWriteEvent S app w = Inr (sc_modify S w1)"
      using st wv(1) read_blocks_ok[OF bbs] True total
      by (simp add: sc_handleWriteEvent_def flushCallbacks_simps w1_def setEvents_def Let_def)
    note fr = sc_modify_frame[where S = S and w = w1]
    have empty: "writeBuffer (chan (sc_modify S w1)) = []" using fr(3) by (simp add: w1_def)
    then have "pending (chan (sc_modify S w1)) = []" "sc_inv (chan (sc_modify S w1))"
      by (simp_all add: pending_def sc_inv_def)
    with run fr st wv(3) True empty show thesis
      by (intro that[of "sc_modify S w1"])
        (simp_all add: quiet_def same_streamsD[OF fr(2) spec(1)], simp_all add: w1_def)
  next
    case False
    define w1 where "w1 = w\<lparr>kern := k, chan := (chan w)\<lparr>writeBuffer := removeSentBuffer ?wb m\<rparr>\<rparr>"
    have run: "sc_handleWriteEvent S app w = Inr w1"
      using st wv(1) read_blocks_ok[OF bbs] False total
      by (simp add: sc_handleWriteEvent_def w1_def Let_def)
    have rs: "list_all buf_ok (removeSentBuffer ?wb m)"
      "pending (chan w1) = drop m (pending (chan w))" "length (removeSentBuffer ?wb m) \<le> length ?wb"
      using removeSentBuffer_ok[OF okb, of m] wv(2) by (simp_all add: pending_def w1_def)
    have "?wb \<noteq> []" using False wv(2) by (auto simp: pending_def)
    with rs(1) inv have "sc_inv (chan w1)" by (simp add: sc_inv_def w1_def)
    with run rs wv st False show thesis by (intro that[of w1]) (simp_all add: w1_def)
  qed
qed

section \<open>Sequences of writes and write events\<close>

text \<open>What happens to an active, healthy connection: messages written in the loop thread and write events.\<close>

datatype sc_op = Write "byte list" "nat option" | WriteReady

fun sc_op_step :: "'k sys \<Rightarrow> 'k app \<Rightarrow> sc_op \<Rightarrow> 'k sc_world \<Rightarrow> 'k sc_world res" where
  "sc_op_step S app (Write data cb) w = writeStringMessage S app True data cb w"
| "sc_op_step S app WriteReady w = sc_handleWriteEvent S app w"

fun sc_ops :: "'k sys \<Rightarrow> 'k app \<Rightarrow> sc_op list \<Rightarrow> 'k sc_world \<Rightarrow> 'k sc_world res" where
  "sc_ops S app [] w = Inr w"
| "sc_ops S app (x # xs) w = ebind (sc_op_step S app x w) (sc_ops S app xs)"

fun written :: "sc_op list \<Rightarrow> byte list" where
  "written [] = []"
| "written (Write data cb # xs) = data @ written xs"
| "written (WriteReady # xs) = written xs"

definition is_write :: "sc_op \<Rightarrow> bool" where
  "is_write x \<longleftrightarrow> x \<noteq> WriteReady"

lemma is_write_simps [simp]: "is_write (Write data cb)" "\<not> is_write WriteReady"
  by (simp_all add: is_write_def)

definition op_small :: "sc_op \<Rightarrow> bool" where
  "op_small x = (case x of Write data cb \<Rightarrow> length data \<le> 2 ^ 62 | WriteReady \<Rightarrow> True)"

text \<open>
  No write event finds more than \<^verbatim>\<open>2 * kMaxCountOfWriteVOnce\<close> buffers waiting; there is no bound on
  the number of writes. A run with few writes has room in any case.
\<close>

fun ops_room :: "'k sys \<Rightarrow> 'k app \<Rightarrow> sc_op list \<Rightarrow> 'k sc_world \<Rightarrow> bool" where
  "ops_room S app [] w = True"
| "ops_room S app (x # xs) w =
     ((if x = WriteReady then length (writeBuffer (chan w)) \<le> 2 * kMaxCountOfWriteVOnce else True) \<and>
      (case sc_op_step S app x w of Inr v \<Rightarrow> ops_room S app xs v | Inl e \<Rightarrow> True))"

lemma op_step_ok:
  assumes spec: "stream_spec S sent" "soft_errors S" and "sc_inv (chan w)" and "state (chan w) = ACTIVE" and "op_small x"
    and "x = WriteReady \<Longrightarrow> length (writeBuffer (chan w)) \<le> 2 * kMaxCountOfWriteVOnce"
  obtains v where "sc_op_step S app x w = Inr v" "sc_inv (chan v)" "state (chan v) = ACTIVE" "fired v = fired w"
    "fd (chan v) = fd (chan w)"
    "sent (kern v) (fd (chan w)) @ pending (chan v) = sent (kern w) (fd (chan w)) @ pending (chan w) @ written [x]"
    "length (writeBuffer (chan v)) \<le> length (writeBuffer (chan w)) + length (filter is_write [x])"
proof (cases x)
  case (Write data cb)
  have st: "state (chan w) \<noteq> INACTIVE" and len: "length data \<le> 2 ^ 62"
    using assms(4,5) Write by (simp_all add: op_small_def)
  show thesis
    by (rule doWrite_ok[OF spec assms(3) st len, of app cb]) (use that Write assms(4) in \<open>simp add: writeStringMessage_def\<close>)
next
  case WriteReady
  show thesis
    by (rule sc_handleWriteEvent_ok[OF spec assms(3,4) assms(6)[OF WriteReady], of app]) (use that WriteReady in simp)+
qed

lemma written_Cons: "written (x # xs) = written [x] @ written xs"
  by (cases x) simp_all

lemma sc_ops_ok:
  assumes spec: "stream_spec S sent" "soft_errors S"
  shows "sc_inv (chan w) \<Longrightarrow> state (chan w) = ACTIVE \<Longrightarrow> list_all op_small xs \<Longrightarrow> ops_room S app xs w \<Longrightarrow>
    \<exists>w'. sc_ops S app xs w = Inr w' \<and> sc_inv (chan w') \<and> state (chan w') = ACTIVE \<and>
      fired w' = fired w \<and>
      sent (kern w') (fd (chan w)) @ pending (chan w')
        = sent (kern w) (fd (chan w)) @ pending (chan w) @ written xs"
proof (induction xs arbitrary: w)
  case (Cons x xs)
  have small: "op_small x" "list_all op_small xs" using Cons.prems(3) by simp_all
  have room: "x = WriteReady \<Longrightarrow> length (writeBuffer (chan w)) \<le> 2 * kMaxCountOfWriteVOnce" using Cons.prems(4) by simp
  obtain v where v: "sc_op_step S app x w = Inr v" "sc_inv (chan v)" "state (chan v) = ACTIVE" "fired v = fired w"
    "fd (chan v) = fd (chan w)"
    "sent (kern v) (fd (chan w)) @ pending (chan v) = sent (kern w) (fd (chan w)) @ pending (chan w) @ written [x]"
    by (rule op_step_ok[OF spec Cons.prems(1,2) small(1) room]) blast+
  have "ops_room S app xs v" using Cons.prems(4) v(1) by simp
  from Cons.IH[OF v(2,3) small(2) this] v show ?case
    unfolding written_Cons[of x xs] by (auto simp flip: append_assoc)
qed simp

lemma ops_room_few:
  assumes spec: "stream_spec S sent" "soft_errors S"
  shows "sc_inv (chan w) \<Longrightarrow> state (chan w) = ACTIVE \<Longrightarrow> list_all op_small xs \<Longrightarrow>
    length (writeBuffer (chan w)) + length (filter is_write xs) \<le> 2 * kMaxCountOfWriteVOnce \<Longrightarrow> ops_room S app xs w"
proof (induction xs arbitrary: w)
  case (Cons x xs)
  have small: "op_small x" "list_all op_small xs" using Cons.prems(3) by simp_all
  have room: "x = WriteReady \<Longrightarrow> length (writeBuffer (chan w)) \<le> 2 * kMaxCountOfWriteVOnce" using Cons.prems(4) by simp
  obtain v where v: "sc_op_step S app x w = Inr v" "sc_inv (chan v)" "state (chan v) = ACTIVE"
    "length (writeBuffer (chan v)) \<le> length (writeBuffer (chan w)) + length (filter is_write [x])"
    by (rule op_step_ok[OF spec Cons.prems(1,2) small(1) room]) blast+
  have "length (writeBuffer (chan v)) + length (filter is_write xs) \<le> 2 * kMaxCountOfWriteVOnce"
    using v(4) Cons.prems(4) by (auto split: if_splits)
  from Cons.IH[OF v(2,3) small(2) this] v(1) room show ?case by auto
qed simp

section \<open>Reading\<close>

text \<open>
  The read loop returns when the kernel has run dry, and the buffer then holds exactly what the
  kernel delivered: the bound keeps the buffer below its maximal capacity.
\<close>

text \<open>
  What the kernel does during one read event, without the buffer: reads of \<open>n\<close> bytes, then of what is
  left of \<open>n\<close> (or again of \<open>n\<close> when it was filled), until a read delivers nothing (\<open>Inr ()\<close>) or fails
  (\<open>Inl\<close> the error); all that was delivered, and how it stopped.
\<close>

inductive reading :: "'k sys \<Rightarrow> FdType \<Rightarrow> nat \<Rightarrow> 'k \<Rightarrow> byte list \<Rightarrow> nat + unit \<Rightarrow> 'k \<Rightarrow> bool" for S f where
  reading_some: "sys_read S k f n = (Inr got, k1) \<Longrightarrow> got \<noteq> [] \<Longrightarrow>
    reading S f (if n - length got > 0 then n - length got else n) k1 new stop k' \<Longrightarrow> reading S f n k (got @ new) stop k'"
| reading_none: "sys_read S k f n = (Inr [], k') \<Longrightarrow> reading S f n k [] (Inr ()) k'"
| reading_error: "sys_read S k f n = (Inl e, k') \<Longrightarrow> reading S f n k [] (Inl e) k'"

inductive_cases readingE: "reading S f n k new stop k'"

lemma reading_unique:
  "reading S f n k new stop k' \<Longrightarrow> reading S f n k new' stop' k'' \<Longrightarrow> new' = new \<and> stop' = stop \<and> k'' = k'"
proof (induction arbitrary: new' stop' k'' rule: reading.induct)
  case (reading_some k n got k1 new stop k')
  from reading_some.prems obtain new1 where "new' = got @ new1"
    "reading S f (if n - length got > 0 then n - length got else n) k1 new1 stop' k''"
    by (cases rule: reading.cases) (use reading_some.hyps(1,2) in auto)
  with reading_some.IH show ?case by blast
qed (auto elim: readingE)

fun read_failed :: "nat + unit \<Rightarrow> bool" where
  "read_failed (Inl e) = (e \<noteq> EAGAIN \<and> e \<noteq> EINTR)"
| "read_failed (Inr u) = False"

lemma doReadLoop_ok:
  assumes spec: "read_spec S rcvd avail"
  shows "bb_ok b \<Longrightarrow> 0 < len \<Longrightarrow> len \<le> kRecvBufferSize \<Longrightarrow> capacity b \<le> kMaxCapacity \<Longrightarrow>
    writerIndex b + avail k f + kRecvBufferSize \<le> 2 ^ 30 \<Longrightarrow>
    \<exists>b' k' new stop. doReadLoop S f len b k =
        Some (Inr (if read_failed stop then Inl (errno_of stop) else Inr (length (content b')), b', k')) \<and>
      content b' = content b @ new \<and> rcvd k' f = rcvd k f @ new \<and> reading S f len k new stop k'"
proof (induction "avail k f" arbitrary: b k len rule: less_induct)
  case less
  obtain reply k1 where sr: "sys_read S k f len = (reply, k1)" by force
  note rd = read_specD[OF spec sr]
  have len: "len \<le> 2 ^ 62" using less.prems(3) by (simp add: kRecvBufferSize_def)
  have ref: "\<not> growth_refused len b" using less.prems by (intro growth_not_refused) auto
  show ?case
  proof (cases reply)
    case (Inl e)
    from writeBytesFrom_error[OF less.prems(1) len ref, of e] obtain b1 where b1:
      "writeBytesFrom len (Inl e) b = Inr (- 1, b1)" "bb_ok b1" "content b1 = content b" by blast
    have "reading S f len k [] (Inl e) k1" using sr Inl by (simp add: reading_error)
    moreover have "doReadLoop S f len b k =
        Some (Inr (if read_failed (Inl e) then Inl (errno_of (Inl e)) else Inr (length (content b1)), b1, k1))"
      using b1 sr Inl by (subst doReadLoop.simps) (auto simp: errno_of_def bb_ok_def readableBytes_content)
    moreover have "rcvd k1 f = rcvd k f" using rd Inl by simp
    ultimately show ?thesis using b1(3) by (metis append_Nil2)
  next
    case (Inr got)
    have got: "length got \<le> len" "avail k1 f + length got \<le> avail k f" "rcvd k1 f = rcvd k f @ got"
      using rd Inr by simp_all
    from writeBytesFrom_ok[OF less.prems(1) len ref got(1)] obtain b1 where b1:
      "writeBytesFrom len (Inr got) b = Inr (int (length got), b1)" "bb_ok b1"
      "content b1 = content b @ got" "writerIndex b1 \<le> writerIndex b + length got"
      "capacity b \<le> kMaxCapacity \<and> writerIndex b + len \<le> 2 ^ 30 \<longrightarrow> capacity b1 \<le> kMaxCapacity"
      by blast
    have rb: "readableBytes b1 = length (content b1)" using b1(2) by (simp add: bb_ok_def readableBytes_content)
    show ?thesis
    proof (cases "got = []")
      case True
      have "reading S f len k [] (Inr ()) k1" using sr Inr True by (simp add: reading_none)
      moreover have "doReadLoop S f len b k =
          Some (Inr (if read_failed (Inr ()) then Inl (errno_of (Inr ())) else Inr (length (content b1)), b1, k1))"
        using sr Inr b1 rb True by (subst doReadLoop.simps) auto
      ultimately show ?thesis using b1(3) got(3) True by fastforce
    next
      case False
      define len' where "len' = (if len - length got > 0 then len - length got else len)"
      have step: "doReadLoop S f len b k = doReadLoop S f len' b1 k1"
        using sr Inr b1(1) False by (subst doReadLoop.simps) (simp add: len'_def Let_def)
      have "\<exists>b' k' new stop. doReadLoop S f len' b1 k1 =
            Some (Inr (if read_failed stop then Inl (errno_of stop) else Inr (length (content b')), b', k')) \<and>
          content b' = content b1 @ new \<and> rcvd k' f = rcvd k1 f @ new \<and> reading S f len' k1 new stop k'"
        using less.prems(2-5) b1(2,4,5) got(1,2) False length_greater_0_conv[of got]
        by (intro less.hyps) (auto simp: len'_def simp del: length_greater_0_conv)
      then obtain b' k' new stop where l: "doReadLoop S f len' b1 k1 =
            Some (Inr (if read_failed stop then Inl (errno_of stop) else Inr (length (content b')), b', k'))"
          "content b' = content b1 @ new" "rcvd k' f = rcvd k1 f @ new" "reading S f len' k1 new stop k'" by blast
      have "reading S f len k (got @ new) stop k'"
        by (rule reading_some[OF sr[unfolded Inr] False]) (use l(4) in \<open>simp add: len'_def\<close>)
      with l step b1(3) got(3) show ?thesis by (metis append.assoc)
    qed
  qed
qed

lemma fresh_recv_buffer:
  obtains b where "bb_new kRecvBufferSize = Inr b" "bb_ok b" "content b = []"
    "writableBytes b = kRecvBufferSize" "capacity b \<le> kMaxCapacity" "writerIndex b = 0"
proof -
  have "kRecvBufferSize \<le> ptrdiff_max" by (simp add: kRecvBufferSize_def ptrdiff_max_def)
  then show thesis
    by (intro that[of "\<lparr>buffer = replicate kRecvBufferSize 0, readerIndex = 0, writerIndex = 0,
        capacity = kRecvBufferSize\<rparr>"])
      (simp_all add: bb_new_def new_array_ok bb_ok_def bb_inv_def content_def writableBytes_def
        sz_sub_def, simp_all add: kRecvBufferSize_def kMaxCapacity_def)
qed

lemma doRead_reading:
  assumes "read_spec S rcvd avail" and "avail k f + kRecvBufferSize \<le> 2 ^ 30"
    and "bb_new kRecvBufferSize = Inr b"
  obtains b' k' stop where
    "doRead S f b k = Inr (if read_failed stop then Inl (errno_of stop) else Inr (length (content b')), b', k')"
    "rcvd k' f = rcvd k f @ content b'" "reading S f kRecvBufferSize k (content b') stop k'"
proof -
  from fresh_recv_buffer assms(3) have b: "bb_ok b" "content b = []"
    "writableBytes b = kRecvBufferSize" "capacity b \<le> kMaxCapacity" "writerIndex b = 0" by auto
  have "0 < kRecvBufferSize" by (simp add: kRecvBufferSize_def)
  with doReadLoop_ok[OF assms(1) b(1) _ order_refl b(4), of k f] b(2,3,5) assms(2) that show thesis
    by (auto simp: doRead_def)
qed

lemma doRead_ok:
  assumes "read_spec S rcvd avail" and "avail k f + kRecvBufferSize \<le> 2 ^ 30"
    and "bb_new kRecvBufferSize = Inr b"
  obtains r b' k' where "doRead S f b k = Inr (r, b', k')"
    "rcvd k' f = rcvd k f @ content b'"
    "case r of Inl e \<Rightarrow> e \<noteq> EAGAIN \<and> e \<noteq> EINTR | Inr n \<Rightarrow> n = length (content b')"
proof -
  obtain b' k' stop where d:
    "doRead S f b k = Inr (if read_failed stop then Inl (errno_of stop) else Inr (length (content b')), b', k')"
    "rcvd k' f = rcvd k f @ content b'" by (rule doRead_reading[OF assms]) blast
  show thesis by (cases stop) (use that[OF d] in \<open>auto simp: errno_of_def split: if_splits\<close>)
qed

section \<open>All calls\<close>

text \<open>
  The life of an activated channel: calls of the user, ready events, and tasks run by the
  event loop, in any order. The user's handlers are constrained only by \<open>keeps\<close>: they
  preserve the invariant (which they can only break by shutting down a channel that is
  already inactive).
\<close>

datatype sc_call =
    WriteCall bool "byte list" "nat option" | Shutdown | ShutdownRead | ShutdownWrite | Ready
  | RunTask sc_task

fun sc_call_step :: "'k sys \<Rightarrow> 'k app \<Rightarrow> sc_call \<Rightarrow> 'k sc_world \<Rightarrow> 'k sc_world res" where
  "sc_call_step S app (WriteCall inLoop data cb) w = writeStringMessage S app inLoop data cb w"
| "sc_call_step S app Shutdown w = Inr (sc_shutdown S app w)"
| "sc_call_step S app ShutdownRead w = Inr (sc_shutdownRead S w)"
| "sc_call_step S app ShutdownWrite w = Inr (sc_shutdownWrite S w)"
| "sc_call_step S app Ready w = sc_handleEvent S app w"
| "sc_call_step S app (RunTask t) w = sc_runTask S app t w"

definition disconnects :: "'k sc_world \<Rightarrow> nat" where
  "disconnects w = count_list (fired w) EvDisconnect"

definition sc_good :: "'k sc_world \<Rightarrow> bool" where
  "sc_good w \<longleftrightarrow> sc_inv (chan w) \<and> disconnects w = (if state (chan w) = INACTIVE then 1 else 0)"

definition keeps :: "('k sc_world \<Rightarrow> bool) \<Rightarrow> 'k app \<Rightarrow> bool" where
  "keeps P app \<longleftrightarrow> (\<forall>e w. P w \<longrightarrow> P (app e w))"

text \<open>A call the theorem covers: shutdowns only while connected, messages of a possible size.\<close>

fun call_lawful :: "'k sc_world \<Rightarrow> sc_call \<Rightarrow> bool" where
  "call_lawful w Shutdown = (state (chan w) \<noteq> INACTIVE)"
| "call_lawful w ShutdownRead = (state (chan w) \<noteq> INACTIVE)"
| "call_lawful w ShutdownWrite = (state (chan w) \<noteq> INACTIVE)"
| "call_lawful w (WriteCall inLoop data cb) = (length data \<le> 2 ^ 62)"
| "call_lawful w (RunTask (DoWriteTask data cb)) = (length data \<le> 2 ^ 62)"
| "call_lawful w _ = True"

lemma sc_good_cong:
  "sc_good w \<Longrightarrow> writeBuffer (chan w') = writeBuffer (chan w) \<Longrightarrow> events (chan w') = events (chan w) \<Longrightarrow>
   state (chan w') = state (chan w) \<Longrightarrow> fired w' = fired w \<Longrightarrow> sc_good w'"
  by (simp add: sc_good_def sc_inv_def disconnects_def)

lemma sc_good_quiet:
  "sc_inv (chan w') \<Longrightarrow> quiet w w' \<Longrightarrow> sc_good w \<Longrightarrow> sc_good w'"
  by (simp add: sc_good_def quiet_def disconnects_def)

lemma sc_good_fire:
  assumes "keeps sc_good app" and "sc_good w" and "e \<noteq> EvDisconnect"
  shows "sc_good (fire app e w)"
proof -
  have "sc_good (w\<lparr>fired := fired w @ [e]\<rparr>)"
    using assms(2,3) by (simp add: sc_good_def disconnects_def)
  then show ?thesis using assms(1) by (simp add: keeps_def fire_def)
qed

lemma sc_good_channelInActive:
  assumes "keeps sc_good app" and "sc_good w" and "state (chan w) \<noteq> INACTIVE"
  shows "sc_good (channelInActive app w)"
proof -
  have "sc_good (w\<lparr>chan := (chan w)\<lparr>state := INACTIVE\<rparr>, fired := fired w @ [EvDisconnect]\<rparr>)"
    using assms(2,3) by (simp add: sc_good_def disconnects_def sc_inv_def)
  then have "sc_good (fire app EvDisconnect (w\<lparr>chan := (chan w)\<lparr>state := INACTIVE\<rparr>\<rparr>))"
    using assms(1) by (simp add: keeps_def fire_def)
  then show ?thesis
    by (rule sc_good_cong) (simp_all add: channelInActive_def addTask_def)
qed

lemma sc_good_modify:
  assumes "sc_good w" and "writeBuffer (chan w) \<noteq> [] \<longrightarrow> bit (events c) 1"
    and "writeBuffer c = writeBuffer (chan w)" and "state c = state (chan w)"
  shows "sc_good (sc_modify S (w\<lparr>chan := c\<rparr>))"
proof -
  have "sc_good (w\<lparr>chan := c\<rparr>)" using assms by (simp add: sc_good_def sc_inv_def disconnects_def)
  then show ?thesis
    using sc_modify_frame(1,3,4)[where S = S and w = "w\<lparr>chan := c\<rparr>"]
    by (intro sc_good_cong[OF \<open>sc_good (w\<lparr>chan := c\<rparr>)\<close>]) (simp_all add: quiet_def)
qed

lemma sc_shutdown_how_fields [simp]:
  "state (chan (sc_shutdown_how S how w)) = state (chan w)"
  "events (chan (sc_shutdown_how S how w)) = events (chan w)"
  "fired (sc_shutdown_how S how w) = fired w"
  "writeBuffer (chan (sc_shutdown_how S how w)) = (if how = SHUT_RD then writeBuffer (chan w) else [])"
  by (cases how; simp add: sc_shutdown_how_def Let_def)+

lemma sc_good_shutdown_how: "sc_good w \<Longrightarrow> sc_good (sc_shutdown_how S how w)"
  by (simp add: sc_good_def sc_inv_def disconnects_def)

lemma sc_good_shutdown:
  assumes "keeps sc_good app" and "sc_good w" and "state (chan w) \<noteq> INACTIVE"
  shows "sc_good (sc_shutdown S app w)"
  unfolding sc_shutdown_def
  using assms by (intro sc_good_channelInActive sc_good_shutdown_how) simp_all

lemma sc_good_half_close:
  assumes "sc_good w" and "state (chan w) \<noteq> INACTIVE"
  shows "sc_good (sc_shutdownRead S w)" "sc_good (sc_shutdownWrite S w)"
  using assms
  by (simp_all add: sc_good_def sc_inv_def disconnects_def sc_shutdownRead_def sc_shutdownWrite_def Let_def)

lemma sc_good_pushCallback: "sc_good (pushCallback cb w) = sc_good w"
  by (simp add: sc_good_def disconnects_def)

lemma sc_good_append:
  assumes "sc_good w" and "data \<noteq> []" and "length data \<le> 2 ^ 62"
    and "appendBuffer S data w = Inr w'"
  shows "sc_good w'"
proof -
  have "list_all buf_ok (writeBuffer (chan w))" using assms(1) by (simp add: sc_good_def sc_inv_def)
  from appendBuffer_ok[OF this assms(2,3), of S] assms(4) show ?thesis
    by (metis sc_good_quiet[OF _ _ assms(1)] Inr_inject)
qed

lemma sc_good_doWrite:
  assumes good: "sc_good w" and len: "length data \<le> 2 ^ 62" and run: "doWrite S app data cb w = Inr w'"
  shows "sc_good w'"
proof (cases "state (chan w) = INACTIVE \<or> data = []")
  case True then show ?thesis using run good by (auto simp: doWrite_def split: if_splits)
next
  case False
  then have ne: "data \<noteq> []" by simp
  show ?thesis
  proof (cases "writeBuffer (chan w) = []")
    case False
    then show ?thesis
      using \<open>\<not> (state (chan w) = INACTIVE \<or> data = [])\<close> run sc_good_append[OF good ne len, of S]
      by (auto simp: doWrite_def ebind_eq_Inr sc_good_pushCallback)
  next
    case True
    obtain r k where sw: "sys_write S (kern w) (fd (chan w)) data = (r, k)" by force
    have good': "sc_good (w\<lparr>kern := k\<rparr>)" using good by (simp add: sc_good_def disconnects_def)
    have part: "appendBuffer S (drop n data) (w\<lparr>kern := k\<rparr>) = Inr v \<Longrightarrow> n < length data \<Longrightarrow> sc_good v"
      for n v using sc_good_append[OF good', of "drop n data"] len by simp
    have fin: "sc_good (queueCallback cb (w\<lparr>kern := k\<rparr>))"
      using good' by (simp add: sc_good_def disconnects_def)
    show ?thesis
      using run False True sw part[of 0] part fin ne
      by (auto simp: doWrite_def doWriteDirectly_def ebind_eq_Inr sc_good_pushCallback Let_def
          split: sum.splits if_splits)
  qed
qed

lemma sc_good_handleReadEvent:
  assumes app: "keeps sc_good app" and good: "sc_good w" and run: "sc_handleReadEvent S app w = Inr w'"
  shows "sc_good w'"
proof (cases "state (chan w) = INACTIVE")
  case True then show ?thesis using run good by (simp add: sc_handleReadEvent_def)
next
  case False
  from run False obtain b0 r b k where d: "doRead S (fd (chan w)) b0 (kern w) = Inr (r, b, k)"
    and b0: "bb_new kRecvBufferSize = Inr b0"
    by (auto simp: sc_handleReadEvent_def ebind_eq_Inr)
  let ?w = "w\<lparr>kern := k\<rparr>"
  have g: "sc_good ?w" and st: "state (chan ?w) \<noteq> INACTIVE"
    using good False by (simp_all add: sc_good_def disconnects_def)
  have half: "sc_good (sc_modify S ((sc_shutdownRead S ?w)\<lparr>chan := setEvents kWriteEvent (chan (sc_shutdownRead S ?w))\<rparr>))"
    using sc_good_half_close(1)[OF g st] by (intro sc_good_modify) (simp_all add: setEvents_def)
  show ?thesis
    using run False d b0 half sc_good_channelInActive[OF app g st] sc_good_fire[OF app g]
      sc_good_shutdown[OF app g st] g
    by (auto simp: sc_handleReadEvent_def handleReadError_def Let_def split: sum.splits if_splits)
qed

lemma removeSentBuffer_buf_ok: "list_all buf_ok bs \<Longrightarrow> list_all buf_ok (removeSentBuffer bs n)"
proof (cases "n \<le> length (concat (map content bs))")
  case False
  assume ok: "list_all buf_ok bs"
  then have "length (concat (map content bs)) < n \<Longrightarrow> removeSentBuffer bs n = []"
    by (induction bs n rule: removeSentBuffer.induct) (auto simp: buf_ok_def bb_ok_def readableBytes_content)
  with False show ?thesis by simp
qed (use removeSentBuffer_ok in blast)

lemma sc_good_handleWriteEvent:
  assumes app: "keeps sc_good app" and good: "sc_good w" and run: "sc_handleWriteEvent S app w = Inr w'"
  shows "sc_good w'"
proof (cases "state (chan w) = INACTIVE")
  case True then show ?thesis using run good by (simp add: sc_handleWriteEvent_def)
next
  case False
  have ok: "list_all buf_ok (writeBuffer (chan w))" and ev: "writeBuffer (chan w) \<noteq> [] \<longrightarrow> bit (events (chan w)) 1"
    using good by (simp_all add: sc_good_def sc_inv_def)
  obtain r k where wv: "writev S (fd (chan w)) (map content (writeBuffer (chan w)))
      (length (writeBuffer (chan w))) (kern w) = (r, k)" by force
  let ?w = "w\<lparr>kern := k\<rparr>"
  let ?full = "flushCallbacks (writeCompleteCallbacks (chan ?w)) (?w\<lparr>chan := (chan ?w)\<lparr>writeBuffer := []\<rparr>\<rparr>)"
  have g: "sc_good ?w" "sc_good ?full"
    and st: "state (chan ?w) \<noteq> INACTIVE" "state (chan ?full) \<noteq> INACTIVE"
    using good False by (simp_all add: sc_good_def sc_inv_def disconnects_def flushCallbacks_simps)
  have wb: "writeBuffer (chan ?full) = []" by (simp add: flushCallbacks_simps)
  have rest: "sc_good (?w\<lparr>chan := (chan ?w)\<lparr>writeBuffer := removeSentBuffer (writeBuffer (chan ?w)) n\<rparr>\<rparr>)" for n
    using g(1) removeSentBuffer_buf_ok[OF ok, of n] ev
    by (cases "writeBuffer (chan w)") (auto simp: sc_good_def sc_inv_def disconnects_def)
  have again: "sc_good (sc_modify S (?full\<lparr>chan := setEvents kReadEvent (chan ?full)\<rparr>))"
    using g(2) wb by (intro sc_good_modify) (simp_all add: setEvents_def)
  show ?thesis
    using run False wv read_blocks_ok[OF list_all_buf_bb[OF ok]] rest again g
      sc_good_channelInActive[OF app g(1) st(1)] sc_good_channelInActive[OF app g(2) st(2)]
    by (auto simp: sc_handleWriteEvent_def handleWriteError_def Let_def split: sum.splits if_splits)
qed

lemma sc_good_call:
  assumes app: "keeps sc_good app" and good: "sc_good w" and "call_lawful w x"
    and run: "sc_call_step S app x w = Inr w'"
  shows "sc_good w'"
proof (cases x)
  case (WriteCall inLoop data cb)
  then show ?thesis
    using assms sc_good_doWrite[OF good, of data S app cb w'] sc_good_cong[OF good, of w']
    by (auto simp: writeStringMessage_def addTask_def split: if_splits)
next
  case Ready
  have err: "sc_good (sc_handleErrorEvent app w)"
    using good sc_good_channelInActive[OF app good] by (simp add: sc_handleErrorEvent_def)
  have "sc_handleEvent S app w = Inr w'" using run Ready by simp
  from this[unfolded sc_handleEvent_def handleEvent_def ebind_eq_Inr] obtain w1 w2 where
    w1: "w1 = sc_handleErrorEvent app w \<or> w1 = w"
    and w2: "sc_handleReadEvent S app w1 = Inr w2 \<or> w2 = w1"
    and w': "sc_handleWriteEvent S app w2 = Inr w' \<or> w' = w2"
    by (metis Inr_inject)
  have "sc_good w1" using w1 err good by auto
  then have "sc_good w2" using w2 sc_good_handleReadEvent[OF app] by auto
  then show ?thesis using w' sc_good_handleWriteEvent[OF app] by auto
next
  case (RunTask t)
  have dereg: "sc_good (sc_deregister S w)"
  proof -
    obtain ok c k where m: "poller_deregisterChannel S (chan w) (kern w) = (ok, c, k)" by (metis prod_cases3)
    have call: "poller_call S (poller_deregisterChannel S :: socket_channel \<Rightarrow> _)" by (simp add: poller_call_def)
    from poller_call_fields[OF call m] channel_more_fields[OF poller_call_fields(4)[OF call m]]
    show ?thesis using m by (intro sc_good_cong[OF good]) (simp_all add: sc_deregister_def)
  qed
  show ?thesis
    using assms RunTask dereg sc_good_fire[OF app good] sc_good_doWrite[OF good]
    by (cases t) auto
qed (use assms sc_good_shutdown[OF app good] sc_good_half_close[OF good] in auto)

inductive sc_reach :: "'k sys \<Rightarrow> 'k app \<Rightarrow> 'k sc_world \<Rightarrow> 'k sc_world \<Rightarrow> bool"
  for S app w where
  sc_here: "sc_reach S app w w"
| sc_next: "sc_reach S app w v \<Longrightarrow> call_lawful v x \<Longrightarrow> sc_call_step S app x v = Inr v' \<Longrightarrow>
    sc_reach S app w v'"

text \<open>A connected channel on the scripted kernel, for closed examples.\<close>

definition demo_world :: "(nat + byte list) list \<Rightarrow> (nat + nat) list \<Rightarrow> script sc_world" where
  "demo_world rs ws = \<lparr>chan = (sc_new 5)\<lparr>events := kReadEvent, isRegistered := True, state := ACTIVE\<rparr>,
     kern = \<lparr>reads = rs, inp = [], writes = ws, out = [], epset = [5 \<mapsto> EPOLLIN]\<rparr>,
     inChannels = True, tasks = [], fired = []\<rparr>"

lemma demo_world_simps [simp]:
  "sc_inv (chan (demo_world rs ws))" "state (chan (demo_world rs ws)) = ACTIVE"
  "writeBuffer (chan (demo_world rs ws)) = []" "pending (chan (demo_world rs ws)) = []"
  "fd (chan (demo_world rs ws)) = 5" "out (kern (demo_world rs ws)) = []"
  "inp (kern (demo_world rs ws)) = []" "reads (kern (demo_world rs ws)) = rs"
  "fired (demo_world rs ws) = []" "tasks (demo_world rs ws) = []"
  by (simp_all add: demo_world_def sc_new_def sc_inv_def pending_def)

section \<open>Properties\<close>

text \<open>
  C3. Stream integrity. On an active connection whose only write errors are temporary, any
  interleaving, of any length, of messages of at most 2^62 bytes and write events runs without
  exception or memory fault, as long as no write event finds more than 512 buffers waiting; it
  fires no event, keeps the channel active and well formed (waiting data keeps the interest in write
  events), and at every moment what the kernel has taken, followed by what waits, is what it
  was before followed by the messages in the order written. The bound is twice
  \<^verbatim>\<open>kMaxCountOfWriteVOnce\<close>, which is what \<^verbatim>\<open>writev\<close> handles correctly.
\<close>

theorem stream_integrity:
  assumes "stream_spec S sent" and "soft_errors S"
    and "sc_inv (chan w)" and "state (chan w) = ACTIVE" and "list_all op_small xs" and "ops_room S app xs w"
  shows "\<exists>w'. sc_ops S app xs w = Inr w' \<and> sc_inv (chan w') \<and> state (chan w') = ACTIVE \<and>
    fired w' = fired w \<and>
    sent (kern w') (fd (chan w)) @ pending (chan w')
      = sent (kern w) (fd (chan w)) @ pending (chan w) @ written xs"
  using sc_ops_ok[OF assms(1,2)] assms(3-6) by blast

theorem stream_integrity_witness:
  "\<exists>w'. sc_ops soft_sys (\<lambda>e w. w) [Write [1, 2, 3] (Some 7), Write [4] None, WriteReady]
      (demo_world [] [Inr 1, Inr 2]) = Inr w' \<and>
    out (kern w') @ pending (chan w') = [1, 2, 3, 4]"
proof -
  let ?w = "demo_world [] [Inr 1, Inr 2]" and ?xs = "[Write [1, 2, 3] (Some 7), Write [4] None, WriteReady]"
  have xs: "list_all op_small ?xs" by (simp add: op_small_def)
  have "ops_room soft_sys (\<lambda>e w. w) ?xs ?w"
    by (rule ops_room_few[OF soft_stream_spec soft_sys_soft _ _ xs]) (simp_all add: kMaxCountOfWriteVOnce_def)
  from stream_integrity[OF soft_stream_spec soft_sys_soft _ _ xs this] show ?thesis by auto
qed

text \<open>
  C16. Write completion. A write event on an active, healthy connection either leaves data
  waiting, and then callbacks, tasks and event mask are as before, or empties the buffer, and
  then every queued callback (null ones apart) has become a task, in the order of the writes,
  none is left behind, and the channel goes back to read interest only.
\<close>

theorem write_callbacks_fifo:
  assumes "stream_spec S sent" and "soft_errors S"
    and "sc_inv (chan w)" and "state (chan w) = ACTIVE"
    and "length (writeBuffer (chan w)) \<le> 2 * kMaxCountOfWriteVOnce"
  shows "\<exists>w'. sc_handleWriteEvent S app w = Inr w' \<and>
    (if pending (chan w') = []
     then tasks w' = tasks w @ map WriteCompleteTask (List.map_filter id (writeCompleteCallbacks (chan w))) \<and>
          writeCompleteCallbacks (chan w') = [] \<and> events (chan w') = kReadEvent
     else tasks w' = tasks w \<and> writeCompleteCallbacks (chan w') = writeCompleteCallbacks (chan w) \<and>
          events (chan w') = events (chan w))"
  using sc_handleWriteEvent_ok[OF assms] by metis

theorem write_callbacks_fifo_witness:
  "\<exists>w w'. pending (chan w) = [2, 3] \<and> writeCompleteCallbacks (chan w) = [Some 7, None, Some 8] \<and>
     sc_handleWriteEvent soft_sys (\<lambda>e w. w) w = Inr w' \<and> pending (chan w') = [] \<and>
     writeCompleteCallbacks (chan w') = [] \<and> tasks w' = [WriteCompleteTask 7, WriteCompleteTask 8]"
proof -
  obtain b where b: "bb_ok b" "content b = [2, 3]" using buf_fresh[of "[2, 3]"] by auto
  define w where "w = (demo_world [] [Inr 5])\<lparr>chan := (chan (demo_world [] []))\<lparr>events := kReadEvent OR kWriteEvent,
     writeBuffer := [b], writeCompleteCallbacks := [Some 7, None, Some 8]\<rparr>\<rparr>"
  have w: "sc_inv (chan w)" "state (chan w) = ACTIVE" "tasks w = []" "length (writeBuffer (chan w)) \<le> 2 * kMaxCountOfWriteVOnce"
    "pending (chan w) = [2, 3]" "writeCompleteCallbacks (chan w) = [Some 7, None, Some 8]"
    using b by (simp_all add: w_def demo_world_def sc_inv_def buf_ok_def pending_def bit_or_iff kMaxCountOfWriteVOnce_def)
  obtain w' where w': "sc_handleWriteEvent soft_sys (\<lambda>e w. w) w = Inr w'"
    "if pending (chan w') = []
     then tasks w' = tasks w @ map WriteCompleteTask (List.map_filter id (writeCompleteCallbacks (chan w))) \<and>
          writeCompleteCallbacks (chan w') = [] \<and> events (chan w') = kReadEvent
     else tasks w' = tasks w \<and> writeCompleteCallbacks (chan w') = writeCompleteCallbacks (chan w) \<and>
          events (chan w') = events (chan w)"
    using write_callbacks_fifo[OF soft_stream_spec soft_sys_soft w(1,2,4), of "\<lambda>e w. w"] by blast
  have v: "writev soft_sys 5 [[2, 3]] 1 (kern w) = (Inr 2, (kern w)\<lparr>writes := [], out := [2, 3]\<rparr>)"
    by (simp add: writev_def writevLoop.simps[of _ _ _ _ 0] writevLoop.simps[of _ _ _ _ "Suc 0"] kMaxCountOfWriteVOnce_def
        script_send_def iov_len_sum_def w_def demo_world_def)
  have "bb_toString b = Inr [2, 3]" "readableBytes b = 2"
    using b by (simp_all add: bb_ok_def bb_toString_content readableBytes_content)
  then have "pending (chan w') = []"
    using w'(1) v by (auto simp: sc_handleWriteEvent_def w_def demo_world_def sc_new_def flushCallbacks_simps
        sc_modify_frame(3) pending_def setEvents_def Let_def)
  with w w' show ?thesis by (auto simp: List.map_filter_simps)
qed

text \<open>
  C15. Reading. If the data that can arrive during one read event stays below 1 GiB less one
  receive buffer, the read event is determined by what the kernel answers to the reads of one loop,
  beginning with 16 kB and going on until a read delivers nothing or fails: if that failure is a hard
  error the channel becomes inactive, whatever was read before; otherwise delivered bytes are passed on,
  complete and in order, in one read event; if nothing was delivered (at the end of the stream, but also
  with \<^verbatim>\<open>EAGAIN\<close> or \<^verbatim>\<open>EINTR\<close>) the connection is shut down when no data waits, and otherwise its read side
  only, the channel keeping just its write interest.
\<close>

theorem read_event_exact:
  assumes "read_spec S rcvd avail" and "avail (kern w) (fd (chan w)) + kRecvBufferSize \<le> 2 ^ 30"
    and "state (chan w) \<noteq> INACTIVE"
  shows "\<exists>k new stop. reading S (fd (chan w)) kRecvBufferSize (kern w) new stop k \<and>
    rcvd k (fd (chan w)) = rcvd (kern w) (fd (chan w)) @ new \<and>
    sc_handleReadEvent S app w = Inr (
      if read_failed stop then channelInActive app (w\<lparr>kern := k\<rparr>)
      else if new \<noteq> [] then fire app (EvRead new) (w\<lparr>kern := k\<rparr>)
      else if writeBuffer (chan w) = [] then sc_shutdown S app (w\<lparr>kern := k\<rparr>)
      else let v = sc_shutdownRead S (w\<lparr>kern := k\<rparr>)
           in sc_modify S (v\<lparr>chan := setEvents kWriteEvent (chan v)\<rparr>))"
proof -
  from fresh_recv_buffer obtain b where b: "bb_new kRecvBufferSize = Inr b" by blast
  obtain b' k stop where r: "doRead S (fd (chan w)) b (kern w) =
      Inr (if read_failed stop then Inl (errno_of stop) else Inr (length (content b')), b', k)"
    "rcvd k (fd (chan w)) = rcvd (kern w) (fd (chan w)) @ content b'"
    "reading S (fd (chan w)) kRecvBufferSize (kern w) (content b') stop k" by (rule doRead_reading[OF assms(1,2) b]) blast
  have "read_failed stop \<Longrightarrow> errno_of stop \<noteq> EAGAIN \<and> errno_of stop \<noteq> EINTR" by (cases stop) (simp_all add: errno_of_def)
  then show ?thesis
    by (intro exI[of _ k] exI[of _ "content b'"] exI[of _ stop])
      (use assms(3) b r in \<open>auto simp: sc_handleReadEvent_def handleReadError_def Let_def\<close>)
qed

theorem read_event_exact_witness:
  "\<exists>w'. sc_handleReadEvent script_sys (\<lambda>e w. w) (demo_world [Inr [1, 2], Inr [3]] []) = Inr w' \<and>
    fired w' = [EvRead [1, 2, 3]]"
proof -
  let ?w = "demo_world [Inr [1, 2], Inr [3]] []"
  from read_event_exact[OF script_read_spec, of ?w "\<lambda>e w. w"] obtain k new stop where
    r: "reading script_sys 5 kRecvBufferSize (kern ?w) new stop k" and run: "sc_handleReadEvent script_sys (\<lambda>e w. w) ?w = Inr (
      if read_failed stop then channelInActive (\<lambda>e w. w) (?w\<lparr>kern := k\<rparr>)
      else if new \<noteq> [] then fire (\<lambda>e w. w) (EvRead new) (?w\<lparr>kern := k\<rparr>)
      else if writeBuffer (chan ?w) = [] then sc_shutdown script_sys (\<lambda>e w. w) (?w\<lparr>kern := k\<rparr>)
      else let v = sc_shutdownRead script_sys (?w\<lparr>kern := k\<rparr>)
           in sc_modify script_sys (v\<lparr>chan := setEvents kWriteEvent (chan v)\<rparr>))"
    by (auto simp: script_avail_def kRecvBufferSize_def)
  let ?k = "\<lambda>rs bs. (kern ?w)\<lparr>reads := rs, inp := bs\<rparr>"
  have 3: "reading script_sys 5 16381 (?k [] [1, 2, 3]) [] (Inl EAGAIN) (?k [] [1, 2, 3])"
    by (rule reading_error) (simp add: script_recv_def demo_world_def)
  have 2: "reading script_sys 5 16382 (?k [Inr [3]] [1, 2]) ([3] @ []) (Inl EAGAIN) (?k [] [1, 2, 3])"
    by (rule reading_some[where ?k1.0 = "?k [] [1, 2, 3]"]) (use 3 in \<open>simp_all add: script_recv_def demo_world_def\<close>)
  have "reading script_sys 5 kRecvBufferSize (kern ?w) ([1, 2] @ [3] @ []) (Inl EAGAIN) (?k [] [1, 2, 3])"
    by (rule reading_some[where ?k1.0 = "?k [Inr [3]] [1, 2]"])
      (use 2 in \<open>simp_all add: script_recv_def demo_world_def kRecvBufferSize_def\<close>)
  from reading_unique[OF this r] have "new = [1, 2, 3] \<and> stop = Inl EAGAIN" by simp
  then show ?thesis using run by (simp add: fire_def)
qed

text \<open>
  C5. Life cycle. Starting from a connected channel, over all sequences of writes, ready events, loop tasks
  and shutdowns in which a shutdown, whole or of one side, is called only while the channel is not
  inactive (a second one would report a second disconnect, as the code has no test for that), and
  with handlers that keep to the same rule: the user sees at most one disconnect event, and
  has seen it exactly if the channel is inactive; and the channel stays well formed, in particular
  waiting data never loses its write interest.
\<close>

theorem disconnect_exactly_once:
  assumes "sc_reach S app w w'" and "keeps sc_good app"
    and "sc_inv (chan w)" and "state (chan w) \<noteq> INACTIVE" and "disconnects w = 0"
  shows "sc_inv (chan w') \<and> disconnects w' = (if state (chan w') = INACTIVE then 1 else 0)"
  using assms(1)
proof induction
  case sc_here then show ?case using assms(3-5) by simp
next
  case (sc_next v x v')
  then have "sc_good v" by (simp add: sc_good_def)
  from sc_good_call[OF assms(2) this sc_next.hyps(2,3)] show ?case by (simp add: sc_good_def)
qed

theorem disconnect_exactly_once_witness:
  "sc_reach script_sys (\<lambda>e w. w) (demo_world [] []) (sc_shutdown script_sys (\<lambda>e w. w) (demo_world [] [])) \<and>
   disconnects (sc_shutdown script_sys (\<lambda>e w. w) (demo_world [] [])) = 1"
proof -
  let ?w = "demo_world [] []"
  have r: "sc_reach script_sys (\<lambda>e w. w) ?w (sc_shutdown script_sys (\<lambda>e w. w) ?w)"
    by (rule sc_next[OF sc_here, of _ Shutdown]) simp_all
  have "state (chan (sc_shutdown script_sys (\<lambda>e w. w) ?w)) = INACTIVE"
    by (simp add: sc_shutdown_def channelInActive_def fire_def addTask_def)
  with disconnect_exactly_once[OF r] r show ?thesis by (simp add: keeps_def disconnects_def)
qed

text \<open>
  An inactive channel is inert: ready events and writes leave the world as it is.
\<close>

lemma inactive_channel_inert:
  assumes "state (chan w) = INACTIVE"
  shows "sc_handleEvent S app w = Inr w \<and> doWrite S app data cb w = Inr w"
  using assms
  by (simp add: sc_handleEvent_def handleEvent_def sc_handleErrorEvent_def sc_handleReadEvent_def
      sc_handleWriteEvent_def doWrite_def)

section \<open>Where the code goes wrong\<close>

text \<open>
  With more than two batches of waiting buffers \<^verbatim>\<open>writev\<close> does not notice a short write of
  the middle batch and goes on with the next one: of 512 buffers of one zero byte and one of
  a one byte, the kernel takes 256, then none, then one; 257 bytes are reported as sent, but
  the stream has the one byte where a zero byte belongs.
\<close>

lemma writev_three_batches_corrupt:
  "writev script_sys 5 (replicate 512 [0] @ [[1]]) 513
     \<lparr>reads = [], inp = [], writes = [Inr 256, Inr 0, Inr 1], out = [], epset = Map.empty\<rparr>
   = (Inr 257, \<lparr>reads = [], inp = [], writes = [], out = replicate 256 0 @ [1], epset = Map.empty\<rparr>)
   \<and> take 257 (concat (replicate 512 [0] @ [[1::byte]])) \<noteq> replicate 256 0 @ [1]"
proof -
  let ?iovs = "replicate 512 [0] @ [[1::byte]]"
  have c: "concat (replicate n [0::byte]) = replicate n 0" for n by (induction n) simp_all
  have l: "iov_len_sum ?iovs 0 256 = 256" by (subst iov_len_sum_take) (simp_all add: c)
  have "replicate 257 (0::byte) ! 256 = 0" "(replicate 256 0 @ [1::byte]) ! 256 = 1"
    by (simp_all add: nth_append)
  then have "replicate 257 (0::byte) \<noteq> replicate 256 0 @ [1]" by (metis zero_neq_one)
  moreover have "writev script_sys 5 ?iovs 513
     \<lparr>reads = [], inp = [], writes = [Inr 256, Inr 0, Inr 1], out = [], epset = Map.empty\<rparr>
   = (Inr 257, \<lparr>reads = [], inp = [], writes = [], out = replicate 256 0 @ [1], epset = Map.empty\<rparr>)"
    unfolding writev_def
    apply (subst writevLoop.simps)
    apply (simp add: kMaxCountOfWriteVOnce_def script_send_def l c Let_def)
    apply (subst writevLoop.simps)
    apply (simp add: kMaxCountOfWriteVOnce_def script_send_def iov_len_sum_empty c Let_def)
    apply (subst writevLoop.simps)
    apply (simp add: kMaxCountOfWriteVOnce_def script_send_def iov_len_sum_empty c Let_def)
    apply (subst writevLoop.simps)
    apply simp
    done
  ultimately show ?thesis by (simp add: c)
qed

text \<open>
  A write error that is not temporary makes \<^verbatim>\<open>doWriteDirectly\<close> read in front of the message.
\<close>

lemma hard_write_error_reads_out_of_range:
  assumes "state (chan w) \<noteq> INACTIVE" and "writeBuffer (chan w) = []" and "data \<noteq> []"
    and "sys_write S (kern w) (fd (chan w)) data = (Inl e, k)" and "e \<noteq> EAGAIN" and "e \<noteq> EINTR"
  shows "doWrite S app data cb w = Inl Undefined"
  using assms by (simp add: doWrite_def doWriteDirectly_def)

text \<open>
  A read event for which the kernel has nothing after all (\<open>EAGAIN\<close>) is taken for the end of
  the stream: the connection is shut down and the user sees a disconnect.
\<close>

lemma spurious_read_event_disconnects:
  "\<exists>w'. sc_handleReadEvent script_sys (\<lambda>e w. w) (demo_world [Inl EAGAIN] []) = Inr w' \<and>
    state (chan w') = INACTIVE \<and> fired w' = [EvDisconnect]"
proof -
  from fresh_recv_buffer obtain b where b: "bb_new kRecvBufferSize = Inr b" "bb_ok b" "content b = []"
    "writableBytes b = kRecvBufferSize" by blast
  have "\<not> growth_refused kRecvBufferSize b"
    using b(2,4) by (simp add: growth_refused_def bb_ok_def writableBytes_inv)
  moreover have "kRecvBufferSize \<le> 2 ^ 62" by (simp add: kRecvBufferSize_def)
  ultimately obtain b1 where b1: "writeBytesFrom kRecvBufferSize (Inl EAGAIN) b = Inr (- 1, b1)"
    "bb_ok b1" "content b1 = content b" using writeBytesFrom_error[OF b(2)] by blast
  have "doRead script_sys 5 b (kern (demo_world [Inl EAGAIN] []))
      = Inr (Inr 0, b1, kern (demo_world [] []))"
    unfolding doRead_def b(4) using b1 b(3)
    by (subst doReadLoop.simps)
      (simp add: script_recv_def errno_of_def bb_ok_def readableBytes_content Let_def demo_world_def)
  then show ?thesis using b(1)
    by (simp add: sc_handleReadEvent_def sc_shutdown_def channelInActive_def fire_def addTask_def Let_def)
qed

end
