(* ===== verification/Socket_Options.thy ===== *)
theory Socket_Options
  imports Nets_Prelude
begin

text \<open>
  The socket options: the setters and multicast-membership calls of
  \<^verbatim>\<open>nets/net/core/Socket.cpp\<close>, as the request each hands to \<^verbatim>\<open>setsockopt(2)\<close> (level, option
  name, bytes of the value), the option list of \<^verbatim>\<open>nets/net/core/ChannelOption.h\<close>, and
  \<^verbatim>\<open>Channel::setChannelOption\<close>, which type-checks a variant value and calls a setter.
  A failing \<^verbatim>\<open>setsockopt\<close> is only logged by the setters, so the request is all they do.
\<close>

section \<open>Requests\<close>

datatype sock_level = SOL_SOCKET | IPPROTO_TCP | IPPROTO_IP | IPPROTO_IPV6

datatype sock_name =
    SO_REUSEADDR | SO_REUSEPORT | SO_KEEPALIVE | SO_LINGER | SO_BROADCAST | SO_SNDBUF | SO_RCVBUF
  | TCP_KEEPIDLE | TCP_KEEPCNT | TCP_KEEPINTVL | TCP_NODELAY_OPT
  | IP_MULTICAST_IF | IP_MULTICAST_TTL | IP_MULTICAST_LOOP | IP_ADD_MEMBERSHIP | IP_DROP_MEMBERSHIP
  | IPV6_MULTICAST_IF | IPV6_MULTICAST_HOPS | IPV6_MULTICAST_LOOP
  | IPV6_ADD_MEMBERSHIP | IPV6_DROP_MEMBERSHIP

record sockopt =
  level :: sock_level
  optname :: sock_name
  optval :: "byte list"

text \<open>
  The libc lookups the setters use: \<open>pton4\<close> and \<open>pton6\<close> are \<^verbatim>\<open>inet_pton\<close> for the two families
  (the bytes stored on success), \<open>nametoindex\<close> is \<^verbatim>\<open>if_nametoindex\<close> (0 when unknown).
\<close>

record names =
  pton4 :: "string \<Rightarrow> byte list option"
  pton6 :: "string \<Rightarrow> byte list option"
  nametoindex :: "string \<Rightarrow> 32 word"

definition int_bytes :: "32 word \<Rightarrow> byte list" where
  "int_bytes w = store_le 4 w"

definition bool_int :: "bool \<Rightarrow> 32 word" where
  "bool_int enable = (if enable then 1 else 0)"

lemma length_int_bytes [simp]: "length (int_bytes w) = 4"
  by (simp add: int_bytes_def)

section \<open>Setters\<close>

definition setSockReuseAddr :: "bool \<Rightarrow> sockopt" where
  "setSockReuseAddr enable = \<lparr>level = SOL_SOCKET, optname = SO_REUSEADDR, optval = int_bytes (bool_int enable)\<rparr>"

definition setSockReusePort :: "bool \<Rightarrow> sockopt" where
  "setSockReusePort enable = \<lparr>level = SOL_SOCKET, optname = SO_REUSEPORT, optval = int_bytes (bool_int enable)\<rparr>"

definition setSockKeepAlive :: "bool \<Rightarrow> sockopt" where
  "setSockKeepAlive enable = \<lparr>level = SOL_SOCKET, optname = SO_KEEPALIVE, optval = int_bytes (bool_int enable)\<rparr>"

definition setSockKeepIdle :: "32 word \<Rightarrow> sockopt" where
  "setSockKeepIdle idleTime = \<lparr>level = IPPROTO_TCP, optname = TCP_KEEPIDLE, optval = int_bytes idleTime\<rparr>"

definition setSockKeepCnt :: "32 word \<Rightarrow> sockopt" where
  "setSockKeepCnt cnt = \<lparr>level = IPPROTO_TCP, optname = TCP_KEEPCNT, optval = int_bytes cnt\<rparr>"

definition setSockKeepIntvl :: "32 word \<Rightarrow> sockopt" where
  "setSockKeepIntvl interval = \<lparr>level = IPPROTO_TCP, optname = TCP_KEEPINTVL, optval = int_bytes interval\<rparr>"

definition setTcpNoDelay :: "bool \<Rightarrow> sockopt" where
  "setTcpNoDelay enable = \<lparr>level = IPPROTO_TCP, optname = TCP_NODELAY_OPT, optval = int_bytes (bool_int enable)\<rparr>"

text \<open>\<^verbatim>\<open>struct linger\<close> is two ints.\<close>

definition setSockLinger :: "32 word \<times> 32 word \<Rightarrow> sockopt" where
  "setSockLinger linger = \<lparr>level = SOL_SOCKET, optname = SO_LINGER,
     optval = int_bytes (fst linger) @ int_bytes (snd linger)\<rparr>"

definition setSockBroadcast :: "bool \<Rightarrow> sockopt" where
  "setSockBroadcast enable = \<lparr>level = SOL_SOCKET, optname = SO_BROADCAST, optval = int_bytes (bool_int enable)\<rparr>"

text \<open>A failed \<^verbatim>\<open>inet_pton\<close> leaves the zero-initialised destination as it is.\<close>

definition pton_or_zero :: "(string \<Rightarrow> byte list option) \<Rightarrow> nat \<Rightarrow> string \<Rightarrow> byte list" where
  "pton_or_zero pton n addr = (case pton addr of Some bs \<Rightarrow> bs | None \<Rightarrow> replicate n 0)"

definition setIpMulticastIf :: "names \<Rightarrow> string \<Rightarrow> sockopt" where
  "setIpMulticastIf N ifAddr = \<lparr>level = IPPROTO_IP, optname = IP_MULTICAST_IF,
     optval = pton_or_zero (pton4 N) 4 ifAddr\<rparr>"

definition setIpv6MulticastIf :: "names \<Rightarrow> string \<Rightarrow> sockopt" where
  "setIpv6MulticastIf N ifName = \<lparr>level = IPPROTO_IPV6, optname = IPV6_MULTICAST_IF,
     optval = int_bytes (nametoindex N ifName)\<rparr>"

definition setIpMulticastTTL :: "8 word \<Rightarrow> sockopt" where
  "setIpMulticastTTL ttl = \<lparr>level = IPPROTO_IP, optname = IP_MULTICAST_IF, optval = [ttl]\<rparr>"

definition setIpv6MulticastHops :: "8 word \<Rightarrow> sockopt" where
  "setIpv6MulticastHops hops = \<lparr>level = IPPROTO_IPV6, optname = IPV6_MULTICAST_HOPS, optval = [hops]\<rparr>"

definition setIpMulticastLoop :: "bool \<Rightarrow> sockopt" where
  "setIpMulticastLoop enable = \<lparr>level = IPPROTO_IP, optname = IP_MULTICAST_LOOP,
     optval = [if enable then 1 else 0]\<rparr>"

definition setIpv6MulticastLoop :: "bool \<Rightarrow> sockopt" where
  "setIpv6MulticastLoop enable = \<lparr>level = IPPROTO_IPV6, optname = IPV6_MULTICAST_LOOP,
     optval = int_bytes (bool_int enable)\<rparr>"

definition setSockSendBuf :: "32 word \<Rightarrow> sockopt" where
  "setSockSendBuf sendBufLen = \<lparr>level = SOL_SOCKET, optname = SO_SNDBUF, optval = int_bytes sendBufLen\<rparr>"

definition setSockRecvBuf :: "32 word \<Rightarrow> sockopt" where
  "setSockRecvBuf recvBufLen = \<lparr>level = SOL_SOCKET, optname = SO_RCVBUF, optval = int_bytes recvBufLen\<rparr>"

lemmas setter_defs = setSockReuseAddr_def setSockReusePort_def setSockKeepAlive_def
  setSockKeepIdle_def setSockKeepCnt_def setSockKeepIntvl_def setTcpNoDelay_def setSockLinger_def
  setSockBroadcast_def setIpMulticastIf_def setIpv6MulticastIf_def setIpMulticastTTL_def
  setIpv6MulticastHops_def setIpMulticastLoop_def setIpv6MulticastLoop_def setSockSendBuf_def
  setSockRecvBuf_def

section \<open>Multicast membership\<close>

text \<open>
  \<^verbatim>\<open>struct ip_mreqn\<close> is the group address, the interface address and the interface index;
  \<^verbatim>\<open>struct ipv6_mreq\<close> the group address and the index. \<open>setsockopt\<close> is the kernel's answer to the
  request: whether it succeeded.
\<close>

definition ip_mreqn :: "byte list \<Rightarrow> byte list \<Rightarrow> 32 word \<Rightarrow> byte list" where
  "ip_mreqn multiaddr address ifindex = multiaddr @ address @ int_bytes ifindex"

definition ipv6_mreq :: "byte list \<Rightarrow> 32 word \<Rightarrow> byte list" where
  "ipv6_mreq multiaddr interf = multiaddr @ int_bytes interf"

definition addIpMemberShipByIfAddr :: "names \<Rightarrow> (sockopt \<Rightarrow> bool) \<Rightarrow> string \<Rightarrow> string \<Rightarrow> bool" where
  "addIpMemberShipByIfAddr N setsockopt multicastAddr ifAddr =
     setsockopt \<lparr>level = IPPROTO_IP, optname = IP_ADD_MEMBERSHIP,
       optval = ip_mreqn (pton_or_zero (pton4 N) 4 multicastAddr) (pton_or_zero (pton4 N) 4 ifAddr) 0\<rparr>"

definition addIpMemberShipByIfIndex :: "names \<Rightarrow> (sockopt \<Rightarrow> bool) \<Rightarrow> string \<Rightarrow> string \<Rightarrow> bool" where
  "addIpMemberShipByIfIndex N setsockopt multicastAddr ifName =
     setsockopt \<lparr>level = IPPROTO_IP, optname = IPV6_ADD_MEMBERSHIP,
       optval = ip_mreqn (pton_or_zero (pton4 N) 4 multicastAddr) [0, 0, 0, 0] (nametoindex N ifName)\<rparr>"

definition addIpv6MemberShip :: "names \<Rightarrow> (sockopt \<Rightarrow> bool) \<Rightarrow> string \<Rightarrow> string \<Rightarrow> bool" where
  "addIpv6MemberShip N setsockopt multicastAddr ifName =
     setsockopt \<lparr>level = IPPROTO_IPV6, optname = IPV6_ADD_MEMBERSHIP,
       optval = ipv6_mreq (pton_or_zero (pton6 N) 16 multicastAddr) (nametoindex N ifName)\<rparr>"

definition dropIpMemberShipByIfAddr :: "names \<Rightarrow> (sockopt \<Rightarrow> bool) \<Rightarrow> string \<Rightarrow> string \<Rightarrow> bool" where
  "dropIpMemberShipByIfAddr N setsockopt multicastAddr ifAddr =
     setsockopt \<lparr>level = IPPROTO_IP, optname = IP_DROP_MEMBERSHIP,
       optval = ip_mreqn (pton_or_zero (pton4 N) 4 multicastAddr) (pton_or_zero (pton4 N) 4 ifAddr) 0\<rparr>"

definition dropIpMemberShipByIfIndex :: "names \<Rightarrow> (sockopt \<Rightarrow> bool) \<Rightarrow> string \<Rightarrow> string \<Rightarrow> bool" where
  "dropIpMemberShipByIfIndex N setsockopt multicastAddr ifName =
     setsockopt \<lparr>level = IPPROTO_IP, optname = IP_DROP_MEMBERSHIP,
       optval = ip_mreqn (pton_or_zero (pton4 N) 4 multicastAddr) [0, 0, 0, 0] (nametoindex N ifName)\<rparr>"

definition dropIpv6MemberShip :: "names \<Rightarrow> (sockopt \<Rightarrow> bool) \<Rightarrow> string \<Rightarrow> string \<Rightarrow> bool" where
  "dropIpv6MemberShip N setsockopt multicastAddr ifName =
     setsockopt \<lparr>level = IPPROTO_IPV6, optname = IPV6_DROP_MEMBERSHIP,
       optval = ipv6_mreq (pton_or_zero (pton6 N) 16 multicastAddr) (nametoindex N ifName)\<rparr>"

section \<open>ChannelOption and Channel::setChannelOption\<close>

datatype SockOption =
    BACKLOG | REUSE_ADDR | REUSE_PORT | KEEP_ALIVE | KEEP_IDLE | KEEP_CNT | KEEP_INTVL
  | TCP_NODELAY | LINGER | BROADCAST | IP4_MULTICAST_IF | IP6_MULTICAST_IF | IP4_MULTICAST_TTL
  | IP6_MULTICAST_HOPS | IP4_MULTICAST_LOOP | IP6_MULTICAST_LOOP | SNDBUF | RCVBUF

text \<open>The alternatives of the variant \<^verbatim>\<open>ChannelOption::ValueType\<close>, and \<^verbatim>\<open>std::get\<close> on it.\<close>

datatype OptionValue =
    VBool bool | VUint8 "8 word" | VInt32 "32 word" | VLinger "32 word \<times> 32 word" | VString string

fun get_bool :: "OptionValue \<Rightarrow> bool option" where
  "get_bool (VBool b) = Some b" | "get_bool _ = None"

fun get_uint8 :: "OptionValue \<Rightarrow> 8 word option" where
  "get_uint8 (VUint8 b) = Some b" | "get_uint8 _ = None"

fun get_int32 :: "OptionValue \<Rightarrow> 32 word option" where
  "get_int32 (VInt32 b) = Some b" | "get_int32 _ = None"

fun get_linger :: "OptionValue \<Rightarrow> (32 word \<times> 32 word) option" where
  "get_linger (VLinger l) = Some l" | "get_linger _ = None"

fun get_string :: "OptionValue \<Rightarrow> string option" where
  "get_string (VString b) = Some b" | "get_string _ = None"

text \<open>
  What setting an option does: a \<^verbatim>\<open>setsockopt\<close> request, or \<^verbatim>\<open>setBacklog\<close>. \<open>None\<close> in the
  \<^verbatim>\<open>switch\<close> is \<^verbatim>\<open>std::bad_variant_access\<close>, which the surrounding \<^verbatim>\<open>catch\<close> turns into
  \<^verbatim>\<open>std::invalid_argument\<close>.
\<close>

datatype option_call = SetBacklog "32 word" | SetSockOpt sockopt

definition opt_with :: "('a \<Rightarrow> sockopt) \<Rightarrow> 'a option \<Rightarrow> option_call option" where
  "opt_with setter v = map_option (\<lambda>x. SetSockOpt (setter x)) v"

fun option_switch :: "names \<Rightarrow> SockOption \<Rightarrow> OptionValue \<Rightarrow> option_call option" where
  "option_switch N BACKLOG v = map_option SetBacklog (get_int32 v)"
| "option_switch N REUSE_ADDR v = opt_with setSockReuseAddr (get_bool v)"
| "option_switch N REUSE_PORT v = opt_with setSockReusePort (get_bool v)"
| "option_switch N KEEP_ALIVE v = opt_with setSockKeepAlive (get_bool v)"
| "option_switch N KEEP_IDLE v = opt_with setSockKeepIdle (get_int32 v)"
| "option_switch N KEEP_CNT v = opt_with setSockKeepCnt (get_int32 v)"
| "option_switch N KEEP_INTVL v = opt_with setSockKeepIntvl (get_int32 v)"
| "option_switch N TCP_NODELAY v = opt_with setTcpNoDelay (get_bool v)"
| "option_switch N LINGER v = opt_with setSockLinger (get_linger v)"
| "option_switch N BROADCAST v = opt_with setSockBroadcast (get_bool v)"
| "option_switch N IP4_MULTICAST_IF v = opt_with (setIpMulticastIf N) (get_string v)"
| "option_switch N IP6_MULTICAST_IF v = opt_with (setIpv6MulticastIf N) (get_string v)"
| "option_switch N IP4_MULTICAST_TTL v = opt_with setIpMulticastTTL (get_uint8 v)"
| "option_switch N IP6_MULTICAST_HOPS v = opt_with setIpv6MulticastHops (get_uint8 v)"
| "option_switch N IP4_MULTICAST_LOOP v = opt_with setIpMulticastLoop (get_bool v)"
| "option_switch N IP6_MULTICAST_LOOP v = opt_with setIpv6MulticastLoop (get_bool v)"
| "option_switch N SNDBUF v = opt_with setSockSendBuf (get_int32 v)"
| "option_switch N RCVBUF v = opt_with setSockRecvBuf (get_int32 v)"

text \<open>
  \<open>overridesBacklog\<close> says whether the concrete class overrides \<^verbatim>\<open>setBacklog\<close> (only the server
  channel does): the base version throws.
\<close>

definition setBacklog :: "bool \<Rightarrow> 32 word \<Rightarrow> option_call res" where
  "setBacklog overridesBacklog backlog =
     (if overridesBacklog then Inr (SetBacklog backlog)
      else Inl (Throw (RuntimeError ''Channel does not support setting backlog'')))"

definition setChannelOption :: "names \<Rightarrow> bool \<Rightarrow> SockOption \<Rightarrow> OptionValue \<Rightarrow> option_call res" where
  "setChannelOption N overridesBacklog sockOption val =
     (case option_switch N sockOption val of
        None \<Rightarrow> Inl (Throw (InvalidArgument ''Channel set invalid ChannelOption''))
      | Some (SetBacklog n) \<Rightarrow> setBacklog overridesBacklog n
      | Some c \<Rightarrow> Inr c)"

text \<open>
  \<^verbatim>\<open>setChannelOptions\<close>: the options in list order, up to the first that throws. The first
  component collects what was done.
\<close>

fun setChannelOptions ::
    "names \<Rightarrow> bool \<Rightarrow> (SockOption \<times> OptionValue) list \<Rightarrow> option_call list \<times> unit res" where
  "setChannelOptions N b [] = ([], Inr ())"
| "setChannelOptions N b ((o1, v) # rest) =
     (case setChannelOption N b o1 v of
        Inl e \<Rightarrow> ([], Inl e)
      | Inr c \<Rightarrow> (let (cs, r) = setChannelOptions N b rest in (c # cs, r)))"

section \<open>The documented option types\<close>

text \<open>The type comments of \<^verbatim>\<open>ChannelOption.h\<close>, and the options of the manual pages.\<close>

datatype option_type = TBool | TUint8 | TInt32 | TLinger | TString

fun value_type :: "OptionValue \<Rightarrow> option_type" where
  "value_type (VBool b) = TBool"
| "value_type (VUint8 b) = TUint8"
| "value_type (VInt32 b) = TInt32"
| "value_type (VLinger b) = TLinger"
| "value_type (VString b) = TString"

fun documented_type :: "SockOption \<Rightarrow> option_type" where
  "documented_type BACKLOG = TInt32"
| "documented_type REUSE_ADDR = TBool"
| "documented_type REUSE_PORT = TBool"
| "documented_type KEEP_ALIVE = TBool"
| "documented_type KEEP_IDLE = TInt32"
| "documented_type KEEP_CNT = TInt32"
| "documented_type KEEP_INTVL = TInt32"
| "documented_type TCP_NODELAY = TBool"
| "documented_type LINGER = TLinger"
| "documented_type BROADCAST = TBool"
| "documented_type IP4_MULTICAST_IF = TString"
| "documented_type IP6_MULTICAST_IF = TString"
| "documented_type IP4_MULTICAST_TTL = TUint8"
| "documented_type IP6_MULTICAST_HOPS = TUint8"
| "documented_type IP4_MULTICAST_LOOP = TBool"
| "documented_type IP6_MULTICAST_LOOP = TBool"
| "documented_type SNDBUF = TInt32"
| "documented_type RCVBUF = TInt32"

fun option_name :: "SockOption \<Rightarrow> (sock_level \<times> sock_name) option" where
  "option_name BACKLOG = None"
| "option_name REUSE_ADDR = Some (SOL_SOCKET, SO_REUSEADDR)"
| "option_name REUSE_PORT = Some (SOL_SOCKET, SO_REUSEPORT)"
| "option_name KEEP_ALIVE = Some (SOL_SOCKET, SO_KEEPALIVE)"
| "option_name KEEP_IDLE = Some (IPPROTO_TCP, TCP_KEEPIDLE)"
| "option_name KEEP_CNT = Some (IPPROTO_TCP, TCP_KEEPCNT)"
| "option_name KEEP_INTVL = Some (IPPROTO_TCP, TCP_KEEPINTVL)"
| "option_name TCP_NODELAY = Some (IPPROTO_TCP, TCP_NODELAY_OPT)"
| "option_name LINGER = Some (SOL_SOCKET, SO_LINGER)"
| "option_name BROADCAST = Some (SOL_SOCKET, SO_BROADCAST)"
| "option_name IP4_MULTICAST_IF = Some (IPPROTO_IP, IP_MULTICAST_IF)"
| "option_name IP6_MULTICAST_IF = Some (IPPROTO_IPV6, IPV6_MULTICAST_IF)"
| "option_name IP4_MULTICAST_TTL = Some (IPPROTO_IP, IP_MULTICAST_TTL)"
| "option_name IP6_MULTICAST_HOPS = Some (IPPROTO_IPV6, IPV6_MULTICAST_HOPS)"
| "option_name IP4_MULTICAST_LOOP = Some (IPPROTO_IP, IP_MULTICAST_LOOP)"
| "option_name IP6_MULTICAST_LOOP = Some (IPPROTO_IPV6, IPV6_MULTICAST_LOOP)"
| "option_name SNDBUF = Some (SOL_SOCKET, SO_SNDBUF)"
| "option_name RCVBUF = Some (SOL_SOCKET, SO_RCVBUF)"

lemma option_switch_None_iff:
  "option_switch N opt v = None \<longleftrightarrow> value_type v \<noteq> documented_type opt"
  by (cases opt; cases v) (simp_all add: opt_with_def)

lemma option_switch_name:
  "option_switch N opt v = Some c \<Longrightarrow> opt \<noteq> IP4_MULTICAST_TTL \<Longrightarrow>
   (case c of SetBacklog n \<Rightarrow> opt = BACKLOG
    | SetSockOpt r \<Rightarrow> option_name opt = Some (level r, optname r))"
  by (cases opt; cases v) (auto simp: opt_with_def setter_defs)

text \<open>A value of the documented type, and a backlog only where it is supported.\<close>

definition well_typed :: "bool \<Rightarrow> SockOption \<times> OptionValue \<Rightarrow> bool" where
  "well_typed b ov \<longleftrightarrow> value_type (snd ov) = documented_type (fst ov) \<and> (fst ov = BACKLOG \<longrightarrow> b)"

lemma setChannelOption_outcome:
  "if well_typed b (opt, v) then \<exists>c. setChannelOption N b opt v = Inr c
   else \<exists>e. setChannelOption N b opt v = Inl (Throw e)"
  using option_switch_None_iff[of N opt v] option_switch_name[of N opt v]
  by (cases opt; cases v)
    (auto simp: setChannelOption_def setBacklog_def opt_with_def well_typed_def)

section \<open>Properties\<close>

text \<open>
  C21. Setting a list of options performs, in order, exactly the options before the first one
  whose value does not have the type documented for it (or that gives a backlog to a channel
  that supports none); if there is such an option an exception is thrown, otherwise the call
  returns.
\<close>

theorem setChannelOptions_exact:
  "map Inr (fst (setChannelOptions N b opts))
     = map (\<lambda>(opt, v). setChannelOption N b opt v) (takeWhile (well_typed b) opts) \<and>
   (if list_all (well_typed b) opts then snd (setChannelOptions N b opts) = Inr ()
    else \<exists>e. snd (setChannelOptions N b opts) = Inl (Throw e))"
proof (induction opts)
  case (Cons ov opts)
  obtain opt v where ov: "ov = (opt, v)" by force
  show ?case
    using setChannelOption_outcome[of b opt v N] Cons.IH
    by (auto simp: ov split: if_splits prod.splits)
qed simp

text \<open>
  The multicast TTL. Every accepted option becomes a \<^verbatim>\<open>setsockopt\<close> request for the option
  of its name, except that \<^verbatim>\<open>IP4_MULTICAST_TTL\<close> is sent as \<open>IP_MULTICAST_IF\<close>: the TTL is never
  set.
\<close>

lemma only_multicast_ttl_misnamed:
  "(\<forall>r. setChannelOption N b opt v = Inr (SetSockOpt r) \<longrightarrow>
     (option_name opt = Some (level r, optname r) \<longleftrightarrow> opt \<noteq> IP4_MULTICAST_TTL)) \<and>
   setChannelOption N b IP4_MULTICAST_TTL (VUint8 ttl) =
     Inr (SetSockOpt \<lparr>level = IPPROTO_IP, optname = IP_MULTICAST_IF, optval = [ttl]\<rparr>)"
  using option_switch_name[of N opt v]
  by (cases v) (auto simp: setChannelOption_def setBacklog_def opt_with_def setIpMulticastTTL_def
      split: option.splits option_call.splits if_splits)

end
