(* ===== verification/Inet_Address.thy ===== *)
theory Inet_Address
  imports Nets_Prelude
begin

text \<open>
  \<^verbatim>\<open>nets/net/core/InetSockAddress.{h,cpp}\<close>: the union of \<^verbatim>\<open>sockaddr\<close>, \<^verbatim>\<open>sockaddr_in\<close> (16 bytes)
  and \<^verbatim>\<open>sockaddr_in6\<close> (28 bytes) as the 28 bytes of memory it is. The conversions between
  addresses and text (\<^verbatim>\<open>inet_pton\<close>, \<^verbatim>\<open>inet_ntop\<close>) belong to libc and are parameters.
\<close>

type_synonym inet_sock_address = "byte list"

definition AF_UNSPEC :: "16 word" where "AF_UNSPEC = 0"
definition AF_INET :: "16 word" where "AF_INET = 2"
definition AF_INET6 :: "16 word" where "AF_INET6 = 10"

lemmas AF_defs = AF_UNSPEC_def AF_INET_def AF_INET6_def

text \<open>
  The answers of \<^verbatim>\<open>inet_pton\<close>: 1 with the bytes stored, 0 for text that is not an address, -1
  for an unknown family.
\<close>

datatype pton_answer = PtonOk "byte list" | PtonInvalid | PtonNoFamily

record inet_libc =
  inet_pton :: "16 word \<Rightarrow> string \<Rightarrow> pton_answer"
  inet_ntop :: "16 word \<Rightarrow> byte list \<Rightarrow> string option"

text \<open>Fields of the union: family at offset 0, port at 2, and the address at 4 or 8.\<close>

definition ipFamily :: "inet_sock_address \<Rightarrow> 16 word" where
  "ipFamily a = load_le (take 2 a)"

definition sin_port :: "inet_sock_address \<Rightarrow> 16 word" where
  "sin_port a = load_le (take 2 (drop 2 a))"

definition sin_addr :: "inet_sock_address \<Rightarrow> byte list" where
  "sin_addr a = take 4 (drop 4 a)"

definition sin6_addr :: "inet_sock_address \<Rightarrow> byte list" where
  "sin6_addr a = take 16 (drop 8 a)"

definition sockaddr_in :: "16 word \<Rightarrow> byte list \<Rightarrow> byte list" where
  "sockaddr_in port addr =
     store_le 2 AF_INET @ store_le 2 (bswap 2 port) @ addr @ replicate 8 0"

definition sockaddr_in6 :: "16 word \<Rightarrow> byte list \<Rightarrow> byte list" where
  "sockaddr_in6 port addr =
     store_le 2 AF_INET6 @ store_le 2 (bswap 2 port) @ replicate 4 0 @ addr @ replicate 4 0"

section \<open>Constructors and assignments\<close>

text \<open>\<^verbatim>\<open>addr4_ = x\<close> overwrites the first 16 bytes of the union, \<^verbatim>\<open>addr6_ = x\<close> all 28.\<close>

definition isa_default :: inet_sock_address where
  "isa_default = replicate 28 0"

definition isa_of_sockaddr4 :: "byte list \<Rightarrow> inet_sock_address" where
  "isa_of_sockaddr4 addr4 = addr4 @ drop 16 isa_default"

definition isa_of_sockaddr6 :: "byte list \<Rightarrow> inet_sock_address" where
  "isa_of_sockaddr6 addr6 = addr6"

text \<open>Only the answer -1 of \<^verbatim>\<open>inet_pton\<close> throws; on 0 the zeroed address stays.\<close>

definition isa_of_ip :: "inet_libc \<Rightarrow> string \<Rightarrow> 16 word \<Rightarrow> bool \<Rightarrow> inet_sock_address res" where
  "isa_of_ip L ip port ipv6 =
     (if ipv6 then
        (case inet_pton L AF_INET6 ip of
           PtonNoFamily \<Rightarrow> Inl (Throw (InetSockAddressException ''InetSockAddress inet_pton AF_INET6''))
         | PtonInvalid \<Rightarrow> Inr (isa_of_sockaddr6 (sockaddr_in6 port (replicate 16 0)))
         | PtonOk bs \<Rightarrow> Inr (isa_of_sockaddr6 (sockaddr_in6 port bs)))
      else
        (case inet_pton L AF_INET ip of
           PtonNoFamily \<Rightarrow> Inl (Throw (InetSockAddressException ''InetSockAddress inet_pton AF_INET''))
         | PtonInvalid \<Rightarrow> Inr (isa_of_sockaddr4 (sockaddr_in port (replicate 4 0)))
         | PtonOk bs \<Rightarrow> Inr (isa_of_sockaddr4 (sockaddr_in port bs))))"

definition isa_copy :: "inet_sock_address \<Rightarrow> inet_sock_address" where
  "isa_copy other =
     (if AF_INET6 = ipFamily other then other
      else if AF_INET = ipFamily other then take 16 other @ drop 16 isa_default
      else isa_default)"

text \<open>The moves return the new object and what is left of the old one.\<close>

definition isa_move :: "inet_sock_address \<Rightarrow> inet_sock_address \<times> inet_sock_address" where
  "isa_move other =
     ((if AF_INET6 = ipFamily other then other
       else if AF_INET = ipFamily other then take 16 other @ drop 16 isa_default
       else isa_default), isa_default)"

definition isa_copy_assign :: "bool \<Rightarrow> inet_sock_address \<Rightarrow> inet_sock_address \<Rightarrow> inet_sock_address" where
  "isa_copy_assign same this other =
     (if \<not> same then
        (if AF_INET6 = ipFamily other then other
         else if AF_INET = ipFamily other then take 16 other @ drop 16 isa_default
         else isa_default)
      else this)"

definition isa_move_assign ::
    "bool \<Rightarrow> inet_sock_address \<Rightarrow> inet_sock_address \<Rightarrow> inet_sock_address \<times> inet_sock_address" where
  "isa_move_assign same this other =
     (if \<not> same then
        ((if AF_INET6 = ipFamily other then other
          else if AF_INET = ipFamily other then take 16 other @ drop 16 isa_default
          else isa_default), isa_default)
      else (this, this))"

text \<open>\<^verbatim>\<open>INADDR_ANY\<close> is 0.0.0.0, \<^verbatim>\<open>INADDR_LOOPBACK\<close> 127.0.0.1, \<^verbatim>\<open>in6addr_loopback\<close> ::1.\<close>

definition createAnySockAddress :: "16 word \<Rightarrow> bool \<Rightarrow> inet_sock_address" where
  "createAnySockAddress port ipv6 =
     (if ipv6 then isa_of_sockaddr6 (sockaddr_in6 port (replicate 16 0))
      else isa_of_sockaddr4 (sockaddr_in port (replicate 4 0)))"

definition createLoopBackSockAddress :: "16 word \<Rightarrow> bool \<Rightarrow> inet_sock_address" where
  "createLoopBackSockAddress port ipv6 =
     (if ipv6 then isa_of_sockaddr6 (sockaddr_in6 port (replicate 15 0 @ [1]))
      else isa_of_sockaddr4 (sockaddr_in port [127, 0, 0, 1]))"

section \<open>Observers\<close>

definition isa_ip :: "inet_libc \<Rightarrow> inet_sock_address \<Rightarrow> string res" where
  "isa_ip L a =
     (if AF_INET6 = ipFamily a then
        (case inet_ntop L AF_INET6 (sin6_addr a) of
           None \<Rightarrow> Inl (Throw (InetSockAddressException ''InetSockAddress inet_ntop AF_INET6 failed''))
         | Some s \<Rightarrow> Inr s)
      else if AF_INET = ipFamily a then
        (case inet_ntop L AF_INET (sin_addr a) of
           None \<Rightarrow> Inl (Throw (InetSockAddressException ''InetSockAddress inet_ntop AF_INET failed''))
         | Some s \<Rightarrow> Inr s)
      else Inr [])"

definition isa_port :: "inet_sock_address \<Rightarrow> 16 word" where
  "isa_port a = bswap 2 (sin_port a)"

text \<open>
  \<^verbatim>\<open>snprintf(buffer + ipLen, length - ipLen, fmt, port)\<close> keeps at most \<open>length - ipLen - 1\<close>
  characters.
\<close>

definition snprintf_at :: "string \<Rightarrow> nat \<Rightarrow> string \<Rightarrow> string" where
  "snprintf_at buffer len s = buffer @ take (len - length buffer - 1) s"

definition isa_toString :: "inet_libc \<Rightarrow> inet_sock_address \<Rightarrow> string res" where
  "isa_toString L a =
     (if AF_INET6 = ipFamily a then
        (case inet_ntop L AF_INET6 (sin6_addr a) of
           None \<Rightarrow> Inl (Throw (InetSockAddressException ''InetSockAddress inet_ntop AF_INET6 failed''))
         | Some s \<Rightarrow> Inr (snprintf_at (CHR ''['' # s) 128
             ('']:'' @ dec (unat (bswap 2 (sin_port a))))))
      else if AF_INET = ipFamily a then
        (case inet_ntop L AF_INET (sin_addr a) of
           None \<Rightarrow> Inl (Throw (InetSockAddressException ''InetSockAddress inet_ntop AF_INET faile0''))
         | Some s \<Rightarrow> Inr (snprintf_at s 128 ('':'' @ dec (unat (bswap 2 (sin_port a))))))
      else Inr [])"

definition isInValid :: "inet_sock_address \<Rightarrow> bool" where
  "isInValid a \<longleftrightarrow> ipFamily a = AF_UNSPEC"

section \<open>Facts\<close>

text \<open>
  The addresses the program handles: 28 bytes, and for IPv4 nothing after the first 16.
\<close>

definition isa_inv :: "inet_sock_address \<Rightarrow> bool" where
  "isa_inv a \<longleftrightarrow> length a = 28 \<and>
     (ipFamily a \<noteq> AF_INET6 \<longrightarrow> drop 16 a = replicate 12 0) \<and>
     (ipFamily a \<noteq> AF_INET6 \<and> ipFamily a \<noteq> AF_INET \<longrightarrow> a = isa_default)"

lemma bswap_bswap_2: "bswap 2 (bswap 2 w) = (w :: 16 word)"
proof -
  have "bswap 2 (bswap 2 w) = (load_le (rev (be_bytes 2 w)) :: 16 word)"
    by (simp add: bswap_def[of 2 "bswap 2 w"] store_bswap)
  then show ?thesis by (simp add: be_bytes_def load_store_le)
qed

lemma sockaddr_in_fields:
  assumes "length bs = 4"
  shows "ipFamily (isa_of_sockaddr4 (sockaddr_in port bs)) = AF_INET"
    and "isa_port (isa_of_sockaddr4 (sockaddr_in port bs)) = port"
    and "sin_addr (isa_of_sockaddr4 (sockaddr_in port bs)) = bs"
    and "length (isa_of_sockaddr4 (sockaddr_in port bs)) = 28"
    and "drop 16 (isa_of_sockaddr4 (sockaddr_in port bs)) = replicate 12 0"
  using assms
  by (simp_all add: isa_of_sockaddr4_def sockaddr_in_def ipFamily_def isa_port_def sin_port_def
      sin_addr_def load_store_le bswap_bswap_2 isa_default_def)

lemma sockaddr_in6_fields:
  assumes "length bs = 16"
  shows "ipFamily (isa_of_sockaddr6 (sockaddr_in6 port bs)) = AF_INET6"
    and "isa_port (isa_of_sockaddr6 (sockaddr_in6 port bs)) = port"
    and "sin6_addr (isa_of_sockaddr6 (sockaddr_in6 port bs)) = bs"
    and "length (isa_of_sockaddr6 (sockaddr_in6 port bs)) = 28"
  using assms
  by (simp_all add: isa_of_sockaddr6_def sockaddr_in6_def ipFamily_def isa_port_def sin_port_def
      sin6_addr_def load_store_le bswap_bswap_2)

lemma AF_distinct [simp]:
  "AF_INET \<noteq> AF_INET6" "AF_INET6 \<noteq> AF_INET" "AF_INET \<noteq> AF_UNSPEC" "AF_INET6 \<noteq> AF_UNSPEC"
  "AF_UNSPEC \<noteq> AF_INET" "AF_UNSPEC \<noteq> AF_INET6"
  by (simp_all add: AF_defs)

lemma ipFamily_default [simp]: "ipFamily isa_default = AF_UNSPEC"
  by (simp add: ipFamily_def isa_default_def AF_UNSPEC_def numeral_2_eq_2)

lemma isa_default_drop: "drop 16 isa_default = replicate 12 0"
  by (simp add: isa_default_def)

lemma isa_inv_default: "isa_inv isa_default"
  by (auto simp: isa_inv_def isa_default_def)

lemma isa_inv_sockaddr:
  "length bs = 4 \<Longrightarrow> isa_inv (isa_of_sockaddr4 (sockaddr_in port bs))"
  "length cs = 16 \<Longrightarrow> isa_inv (isa_of_sockaddr6 (sockaddr_in6 port cs))"
  using sockaddr_in_fields[of bs port] sockaddr_in6_fields[of cs port] by (auto simp: isa_inv_def)

lemma isa_inv_create:
  "isa_inv (createAnySockAddress port ipv6)" "isa_inv (createLoopBackSockAddress port ipv6)"
  by (simp_all add: createAnySockAddress_def createLoopBackSockAddress_def isa_inv_sockaddr)

lemma isa_copy_id: "isa_inv a \<Longrightarrow> isa_copy a = a"
  by (auto simp: isa_copy_def isa_inv_def isa_default_drop) (metis append_take_drop_id)

section \<open>Properties\<close>

text \<open>
  What the manual pages say of the two functions of libc for the families of IPv4 and IPv6: every address
  has a text, of at most 45 characters; that text is read as the address again; \<^verbatim>\<open>inet_pton\<close> stores 4
  or 16 bytes, and does not answer -1 for these families.
\<close>

definition family_of :: "bool \<Rightarrow> 16 word" where
  "family_of ipv6 = (if ipv6 then AF_INET6 else AF_INET)"

definition addr_size :: "bool \<Rightarrow> nat" where
  "addr_size ipv6 = (if ipv6 then 16 else 4)"

definition inet_text_spec :: "inet_libc \<Rightarrow> bool" where
  "inet_text_spec L \<longleftrightarrow> (\<forall>ipv6.
     (\<forall>s. inet_pton L (family_of ipv6) s \<noteq> PtonNoFamily) \<and>
     (\<forall>s bs. inet_pton L (family_of ipv6) s = PtonOk bs \<longrightarrow> length bs = addr_size ipv6) \<and>
     (\<forall>bs. length bs = addr_size ipv6 \<longrightarrow>
        (\<exists>s. inet_ntop L (family_of ipv6) bs = Some s \<and> length s \<le> 45 \<and> inet_pton L (family_of ipv6) s = PtonOk bs)))"

text \<open>The bytes a text stands for in the constructor: the wildcard when it is no address.\<close>

definition parsed :: "inet_libc \<Rightarrow> bool \<Rightarrow> string \<Rightarrow> byte list" where
  "parsed L ipv6 ip = (case inet_pton L (family_of ipv6) ip of PtonOk bs \<Rightarrow> bs | _ \<Rightarrow> replicate (addr_size ipv6) 0)"

definition sockaddr_of :: "bool \<Rightarrow> 16 word \<Rightarrow> byte list \<Rightarrow> inet_sock_address" where
  "sockaddr_of ipv6 port bs = (if ipv6 then isa_of_sockaddr6 (sockaddr_in6 port bs) else isa_of_sockaddr4 (sockaddr_in port bs))"

lemma isa_of_ip_parsed:
  assumes "inet_text_spec L"
  shows "isa_of_ip L ip port ipv6 = Inr (sockaddr_of ipv6 port (parsed L ipv6 ip))"
proof -
  have "inet_pton L (family_of ipv6) ip \<noteq> PtonNoFamily" using assms by (simp add: inet_text_spec_def)
  then show ?thesis
    by (cases ipv6) (auto simp: isa_of_ip_def parsed_def sockaddr_of_def family_of_def addr_size_def split: pton_answer.split)
qed

lemma parsed_length: "inet_text_spec L \<Longrightarrow> length (parsed L ipv6 ip) = addr_size ipv6"
  by (auto simp: inet_text_spec_def parsed_def split: pton_answer.split)

lemma sockaddr_of_fields:
  assumes "length bs = addr_size ipv6" and "a = sockaddr_of ipv6 port bs"
  shows "isa_inv a" "isa_port a = port" "ipFamily a = family_of ipv6" "ipv6 \<Longrightarrow> sin6_addr a = bs" "\<not> ipv6 \<Longrightarrow> sin_addr a = bs"
  using assms isa_inv_sockaddr(1)[of bs port] isa_inv_sockaddr(2)[of bs port] sockaddr_in_fields[of bs port]
    sockaddr_in6_fields[of bs port]
  by (auto simp: sockaddr_of_def addr_size_def family_of_def)

text \<open>
  C22. An address built from a text and a port reports that port and a text which stands for the same
  address: the one \<^verbatim>\<open>inet_ntop\<close> gives for the bytes the text stands for, which is the text itself if
  \<^verbatim>\<open>inet_ntop\<close> ever gives it, and from which the constructor builds the same address again. It prints as
  \<^verbatim>\<open>ip:port\<close> or \<^verbatim>\<open>[ip]:port\<close> with that text, nothing cut off; it is valid, and stays the same through
  copies, moves and assignments, a moved-from address being invalid. A text that \<^verbatim>\<open>inet_pton\<close> refuses
  stands for the wildcard address here, as the constructor has it.
\<close>

theorem inet_address_roundtrip:
  assumes spec: "inet_text_spec L"
  shows "\<exists>a s. isa_of_ip L ip port ipv6 = Inr a \<and> isa_port a = port \<and> isa_ip L a = Inr s \<and>
    inet_ntop L (family_of ipv6) (parsed L ipv6 ip) = Some s \<and>
    ((\<exists>bs. length bs = addr_size ipv6 \<and> inet_ntop L (family_of ipv6) bs = Some ip) \<longrightarrow> s = ip) \<and>
    isa_of_ip L s port ipv6 = Inr a \<and>
    isa_toString L a = Inr ((if ipv6 then ''['' @ s @ '']'' else s) @ '':'' @ dec (unat port)) \<and>
    \<not> isInValid a \<and> isa_copy a = a \<and> isa_move a = (a, isa_default) \<and>
    (\<forall>b. isa_copy_assign False b a = a \<and> isa_move_assign False b a = (a, isa_default)) \<and>
    isInValid isa_default"
proof -
  let ?F = "family_of ipv6" and ?bs = "parsed L ipv6 ip"
  obtain s where s: "inet_ntop L ?F ?bs = Some s" "length s \<le> 45" "inet_pton L ?F s = PtonOk ?bs"
    using spec parsed_length[OF spec, of ipv6 ip] unfolding inet_text_spec_def by blast
  have canonical: "s = ip" if "length bs = addr_size ipv6" "inet_ntop L ?F bs = Some ip" for bs
  proof -
    have "inet_pton L ?F ip = PtonOk bs" using spec that unfolding inet_text_spec_def by (metis option.inject)
    then have "?bs = bs" by (simp add: parsed_def)
    then show ?thesis using s(1) that(2) by simp
  qed
  define a where "a = sockaddr_of ipv6 port ?bs"
  note fields = sockaddr_of_fields[OF parsed_length[OF spec, of ipv6 ip] a_def]
  have len: "length (dec (unat port)) \<le> 5"
    using dec_length[of "unat port" 5] unsigned_less[of port, where ?'a = nat] by simp
  have "isa_of_ip L s port ipv6 = Inr a" using isa_of_ip_parsed[OF spec, of s] s(3) by (simp add: a_def parsed_def)
  moreover have "isa_ip L a = Inr s" using fields s(1) by (auto simp: isa_ip_def family_of_def)
  moreover have "isa_toString L a
      = Inr ((if ipv6 then ''['' @ s @ '']'' else s) @ '':'' @ dec (unat port))"
    using fields s(1,2) len by (auto simp: isa_toString_def snprintf_at_def isa_port_def family_of_def)
  moreover have "isa_copy a = a \<and> isa_move a = (a, isa_default) \<and>
      (\<forall>b. isa_copy_assign False b a = a \<and> isa_move_assign False b a = (a, isa_default))"
    using isa_copy_id[OF fields(1)]
    by (simp add: isa_copy_def isa_move_def isa_copy_assign_def isa_move_assign_def)
  moreover have "\<not> isInValid a" using fields(3) by (auto simp: isInValid_def family_of_def)
  moreover have "isInValid isa_default" by (simp add: isInValid_def)
  ultimately show ?thesis using isa_of_ip_parsed[OF spec, of ip] fields(2) s(1) canonical unfolding a_def by blast
qed

text \<open>
  Two such functions: the dotted decimals of IPv4, and for IPv6 the 16 bytes as characters, which is not
  the notation but is enough for the laws.
\<close>

fun dot_split :: "string \<Rightarrow> string list" where
  "dot_split [] = [[]]"
| "dot_split (c # cs) = (if c = CHR ''.'' then [] # dot_split cs else (c # hd (dot_split cs)) # tl (dot_split cs))"

definition undec :: "string \<Rightarrow> nat" where
  "undec = foldl (\<lambda>n c. 10 * n + (of_char c - 48)) 0"

fun dotted :: "byte list \<Rightarrow> string" where
  "dotted [] = []"
| "dotted (b # bs) = dec (unat b) @ (if bs = [] then [] else ''.'' @ dotted bs)"

definition demo_libc :: inet_libc where
  "demo_libc = \<lparr>
     inet_pton = (\<lambda>f s. if f = AF_INET
        then let bs = map (\<lambda>d. of_nat (undec d)) (dot_split s) in if length bs = 4 \<and> dotted bs = s then PtonOk bs else PtonInvalid
        else if length s = 16 then PtonOk (map (\<lambda>c. of_nat (of_char c)) s) else PtonInvalid),
     inet_ntop = (\<lambda>f bs. Some (if f = AF_INET then dotted bs else map (\<lambda>b. char_of (unat b)) bs))\<rparr>"

lemma digit_value: "k < 10 \<Longrightarrow> of_char (digit k) = k + (48 :: nat)"
  by (simp add: digit_def of_char_of)

lemma digit_no_dot: "k < 10 \<Longrightarrow> digit k \<noteq> CHR ''.''"
proof
  assume k: "k < 10" "digit k = CHR ''.''"
  then have "of_char (digit k) = (of_char (CHR ''.'') :: nat)" by simp
  then show False using digit_value[OF k(1)] by simp
qed

lemma undec_dec: "undec (dec n) = n"
proof (induction n rule: dec.induct)
  case (1 n)
  then show ?case using digit_value[of "n mod 10"] digit_value[of n] by (simp add: dec.simps[of n] undec_def)
qed

lemma dec_no_dot: "CHR ''.'' \<notin> set (dec n)"
proof (induction n rule: dec.induct)
  case (1 n)
  then show ?case using digit_no_dot[of "n mod 10"] digit_no_dot[of n] by (auto simp: dec.simps[of n])
qed

lemma dot_split_word: "CHR ''.'' \<notin> set w \<Longrightarrow> dot_split w = [w]"
  "CHR ''.'' \<notin> set w \<Longrightarrow> dot_split (w @ CHR ''.'' # s) = w # dot_split s"
  by (induction w) auto

lemma dotted_parsed: "bs \<noteq> [] \<Longrightarrow> map (\<lambda>d. of_nat (undec d)) (dot_split (dotted bs)) = bs"
  by (induction bs) (simp_all add: dec_no_dot dot_split_word undec_dec)

lemma dotted_length: "bs \<noteq> [] \<Longrightarrow> length (dotted bs) \<le> 4 * length bs - 1"
proof (induction bs)
  case (Cons b bs)
  have "length (dec (unat b)) \<le> 3" using dec_length[of "unat b" 3] unsigned_less[of b, where ?'a = nat] by simp
  then show ?case using Cons.IH by (cases bs) auto
qed simp

lemma demo_libc_spec: "inet_text_spec demo_libc"
proof -
  have v4: "bs \<noteq> [] \<and> length (dotted bs) \<le> 45" if "length bs = 4" for bs :: "byte list"
    using that dotted_length[of bs] by (cases bs) auto
  have "(of_nat (of_char (char_of (unat b))) :: byte) = b" for b
    using unsigned_less[of b, where ?'a = nat] by (simp add: of_char_of)
  then have v6: "map ((\<lambda>c. of_nat (of_char c)) \<circ> (\<lambda>b. char_of (unat b))) bs = bs" for bs :: "byte list"
    by (intro map_idI) (metis comp_apply)
  show ?thesis unfolding inet_text_spec_def
    using v4 v6 dotted_parsed
    by (auto simp: demo_libc_def family_of_def addr_size_def Let_def)
qed

theorem inet_address_roundtrip_witness:
  "\<exists>a. isa_of_ip demo_libc ''10.0.0.1'' 8080 False = Inr a \<and> isa_port a = 8080 \<and> isa_ip demo_libc a = Inr ''10.0.0.1'' \<and>
     isa_toString demo_libc a = Inr ''10.0.0.1:8080''"
proof -
  have d: "dec 10 = ''10''" "dec 0 = ''0''" "dec 1 = ''1''" "dec 8080 = ''8080''"
    by (simp_all add: dec.simps[of 10] dec.simps[of 0] dec.simps[of "Suc 0"] dec.simps[of 8080] dec.simps[of 808] dec.simps[of 80]
        dec.simps[of 8] digit_def char_of_def bit_0)
  have "length [10, 0, 0, 1 :: byte] = addr_size False \<and> inet_ntop demo_libc (family_of False) [10, 0, 0, 1] = Some ''10.0.0.1''"
    using d by (simp add: addr_size_def family_of_def demo_libc_def)
  moreover have "''10.0.0.1'' @ '':'' @ dec (unat (8080 :: 16 word)) = ''10.0.0.1:8080''" using d by simp
  ultimately show ?thesis using inet_address_roundtrip[OF demo_libc_spec, of "''10.0.0.1''" 8080 False] by auto
qed

text \<open>
  Text that is not an IP address at all is accepted: the constructor compares the answer
  of \<^verbatim>\<open>inet_pton\<close> with -1 only, so the result is a valid-looking wildcard address.
\<close>

lemma invalid_ip_becomes_any:
  assumes "inet_pton L (if ipv6 then AF_INET6 else AF_INET) ip = PtonInvalid"
  shows "isa_of_ip L ip port ipv6 = Inr (createAnySockAddress port ipv6)"
  using assms by (auto simp: isa_of_ip_def createAnySockAddress_def split: if_splits)

end
