(* ===== verification/Timer_Manager.thy ===== *)
theory Timer_Manager
  imports Nets_Prelude "HOL-Library.Multiset"
begin

text \<open>
  \<^verbatim>\<open>nets/base/Timestamp.{h,cpp}\<close>, \<^verbatim>\<open>nets/base/timer/Timer.{h,cpp}\<close> and
  \<^verbatim>\<open>nets/base/timer/TimerManager.{h,cpp}\<close>. Timestamps are microseconds since the epoch; they
  are 64-bit in the code and integers here (no sum comes near \<open>2 ^ 63\<close> for some 290 000 years).
  The clock is a parameter: \<open>clock n\<close> is the answer of the \<open>n\<close>-th call of \<^verbatim>\<open>Timestamp::now()\<close>.
  The user's callbacks are a parameter too: the calls to the timer manager that a callback
  makes, given what has fired so far.
\<close>

section \<open>Timestamp\<close>

type_synonym timestamp = int

definition kMillisecondsPerSecond :: int where "kMillisecondsPerSecond = 1000"
definition kMicrosecondsPerMillisecond :: int where "kMicrosecondsPerMillisecond = 1000"
definition kMicrosecondsPerSecond :: int where "kMicrosecondsPerSecond = 1000000"

lemmas time_consts = kMillisecondsPerSecond_def kMicrosecondsPerMillisecond_def kMicrosecondsPerSecond_def

definition ts_of_parts :: "int \<Rightarrow> int \<Rightarrow> timestamp" where
  "ts_of_parts secondsSinceEpoch microseconds = secondsSinceEpoch * kMicrosecondsPerSecond + microseconds"

definition plusSeconds :: "int \<Rightarrow> timestamp \<Rightarrow> timestamp" where
  "plusSeconds seconds t = t + seconds * kMicrosecondsPerSecond"

definition plusMilliseconds :: "int \<Rightarrow> timestamp \<Rightarrow> timestamp" where
  "plusMilliseconds milliseconds t = t + milliseconds * kMicrosecondsPerMillisecond"

definition plusMicroseconds :: "int \<Rightarrow> timestamp \<Rightarrow> timestamp" where
  "plusMicroseconds microseconds t = t + microseconds"

definition minusSeconds :: "int \<Rightarrow> timestamp \<Rightarrow> timestamp" where
  "minusSeconds seconds t = t - seconds * kMicrosecondsPerSecond"

definition minusMilliseconds :: "int \<Rightarrow> timestamp \<Rightarrow> timestamp" where
  "minusMilliseconds milliseconds t = t - milliseconds * kMicrosecondsPerMillisecond"

definition minusMicroseconds :: "int \<Rightarrow> timestamp \<Rightarrow> timestamp" where
  "minusMicroseconds microseconds t = t - microseconds"

definition secondsSinceEpoch :: "timestamp \<Rightarrow> int" where
  "secondsSinceEpoch t = cdiv t kMicrosecondsPerSecond"

definition millisecondsSinceEpoch :: "timestamp \<Rightarrow> int" where
  "millisecondsSinceEpoch t = cdiv t kMillisecondsPerSecond"

definition microsPartOfTimestamp :: "timestamp \<Rightarrow> int" where
  "microsPartOfTimestamp t = cmod t kMicrosecondsPerSecond"

section \<open>Timer\<close>

record timer_id =
  id_key :: int
  id_value :: timestamp

record timer =
  tid :: timer_id
  repeatTimes :: int
  interval :: int
  fixedDelay :: bool
  timerCallback :: "nat option"

definition kRepeatForever :: int where "kRepeatForever = -1"

definition expiredTime :: "timer \<Rightarrow> timestamp" where
  "expiredTime t = id_value (tid t)"

definition setExpiredTime :: "timestamp \<Rightarrow> timer \<Rightarrow> timer" where
  "setExpiredTime e t = t\<lparr>tid := (tid t)\<lparr>id_value := e\<rparr>\<rparr>"

definition isRepeatable :: "timer \<Rightarrow> bool" where
  "isRepeatable t \<longleftrightarrow> repeatTimes t = kRepeatForever \<or> repeatTimes t > 0"

definition setRepeatTimes :: "int \<Rightarrow> timer \<Rightarrow> timer" where
  "setRepeatTimes n t = t\<lparr>repeatTimes := n\<rparr>"

definition isExpired :: "timestamp \<Rightarrow> timer \<Rightarrow> bool" where
  "isExpired now t \<longleftrightarrow> now \<ge> id_value (tid t)"

text \<open>The constructor takes the next value of the id generator.\<close>

definition timer_new :: "int \<Rightarrow> timestamp \<Rightarrow> int \<Rightarrow> int \<Rightarrow> bool \<Rightarrow> nat option \<Rightarrow> timer" where
  "timer_new gen expired repeat intv fixed cb =
     \<lparr>tid = \<lparr>id_key = gen, id_value = expired\<rparr>, repeatTimes = repeat, interval = intv,
      fixedDelay = fixed, timerCallback = cb\<rparr>"

text \<open>
  Move construction and move assignment: the target and what is left of the source. The
  assignment does not take over \<^verbatim>\<open>fixedDelay_\<close>.
\<close>

definition timer_move :: "timer \<Rightarrow> timer \<times> timer" where
  "timer_move other =
     (\<lparr>tid = tid other, repeatTimes = repeatTimes other, interval = interval other,
       fixedDelay = fixedDelay other, timerCallback = timerCallback other\<rparr>,
      \<lparr>tid = \<lparr>id_key = -1, id_value = 0\<rparr>, repeatTimes = 0, interval = 0, fixedDelay = False,
       timerCallback = None\<rparr>)"

definition timer_move_assign :: "timer \<Rightarrow> timer \<Rightarrow> timer \<times> timer" where
  "timer_move_assign this other =
     (\<lparr>tid = tid other, repeatTimes = repeatTimes other, interval = interval other,
       fixedDelay = fixedDelay this, timerCallback = timerCallback other\<rparr>,
      \<lparr>tid = \<lparr>id_key = -1, id_value = 0\<rparr>, repeatTimes = 0, interval = 0, fixedDelay = False,
       timerCallback = None\<rparr>)"

text \<open>The part of \<^verbatim>\<open>onTimer\<close> after the callback has returned.\<close>

definition afterCallback :: "timestamp \<Rightarrow> timer \<Rightarrow> timer" where
  "afterCallback now t =
     (let t = (if fixedDelay t then setExpiredTime (plusMilliseconds (interval t) now) t
               else setExpiredTime (plusMilliseconds (interval t) (expiredTime t)) t)
      in if repeatTimes t > 0 then setRepeatTimes (repeatTimes t - 1) t else t)"

section \<open>TimerManager\<close>

text \<open>
  The multimap is the list of its entries in key order; among equal keys an insertion goes
  last. \<open>firings\<close> is a ghost trace of the callbacks run: which timer, when it was due, and the
  clock value.
\<close>

record firing =
  f_key :: int
  f_due :: timestamp
  f_now :: timestamp

record timer_manager =
  timers :: "(timestamp \<times> timer) list"
  timerIdGenerator :: int
  clockReads :: nat
  firings :: "firing list"

datatype tm_cmd = AddTimer timestamp int int bool "nat option" | RemoveTimer timer_id

type_synonym tm_body = "nat \<Rightarrow> firing list \<Rightarrow> tm_cmd list"

fun mm_insert :: "'k::linorder \<Rightarrow> 'v \<Rightarrow> ('k \<times> 'v) list \<Rightarrow> ('k \<times> 'v) list" where
  "mm_insert k v [] = [(k, v)]"
| "mm_insert k v ((k', v') # xs) =
     (if k < k' then (k, v) # (k', v') # xs else (k', v') # mm_insert k v xs)"

text \<open>Timers are addressed by the key of their id, which stands for an iterator to the entry.\<close>

definition key_of :: "timestamp \<times> timer \<Rightarrow> int" where
  "key_of e = id_key (tid (snd e))"

definition find_timer :: "int \<Rightarrow> (timestamp \<times> timer) list \<Rightarrow> timer option" where
  "find_timer i ts = map_option snd (List.find (\<lambda>e. key_of e = i) ts)"

definition erase_timer :: "int \<Rightarrow> (timestamp \<times> timer) list \<Rightarrow> (timestamp \<times> timer) list" where
  "erase_timer i ts = filter (\<lambda>e. key_of e \<noteq> i) ts"

definition modify_timer :: "int \<Rightarrow> (timer \<Rightarrow> timer) \<Rightarrow> (timestamp \<times> timer) list \<Rightarrow> (timestamp \<times> timer) list" where
  "modify_timer i f ts = map (\<lambda>e. if key_of e = i then (fst e, f (snd e)) else e) ts"

text \<open>The entry behind an iterator (what \<^verbatim>\<open>erase\<close> returns), with its map key.\<close>

fun next_entry :: "int \<Rightarrow> (timestamp \<times> timer) list \<Rightarrow> (timestamp \<times> int) option" where
  "next_entry i [] = None"
| "next_entry i [e] = None"
| "next_entry i (e # e' # ts) =
     (if key_of e = i then Some (fst e', key_of e') else next_entry i (e' # ts))"

definition addTimer ::
    "timestamp \<Rightarrow> int \<Rightarrow> int \<Rightarrow> bool \<Rightarrow> nat option \<Rightarrow> timer_manager \<Rightarrow> timer_id \<times> timer_manager" where
  "addTimer expired repeat intv fixed cb m =
     (let t = timer_new (timerIdGenerator m) expired repeat intv fixed cb
      in (tid t, m\<lparr>timerIdGenerator := timerIdGenerator m + 1,
                   timers := mm_insert expired t (timers m)\<rparr>))"

text \<open>
  \<^verbatim>\<open>removeTimer\<close> searches from the lower bound of the time in the id, and only marks the timer;
  \<^verbatim>\<open>update\<close> erases it when it comes to it.
\<close>

definition removeTimer :: "timer_id \<Rightarrow> timer_manager \<Rightarrow> timer_manager" where
  "removeTimer i m =
     (case find_timer (id_key i) (dropWhile (\<lambda>e. fst e < id_value i) (timers m)) of
        None \<Rightarrow> m
      | Some t \<Rightarrow> m\<lparr>timers := modify_timer (id_key i) (\<lambda>t. setRepeatTimes 0 (setExpiredTime 0 t)) (timers m)\<rparr>)"

fun tm_exec :: "tm_cmd list \<Rightarrow> timer_manager \<Rightarrow> timer_manager" where
  "tm_exec [] m = m"
| "tm_exec (AddTimer e n i fd cb # cs) m = tm_exec cs (snd (addTimer e n i fd cb m))"
| "tm_exec (RemoveTimer i # cs) m = tm_exec cs (removeTimer i m)"

definition onTimer :: "tm_body \<Rightarrow> timestamp \<Rightarrow> int \<Rightarrow> timer \<Rightarrow> timer_manager \<Rightarrow> timer_manager" where
  "onTimer body now i t m =
     (case timerCallback t of
        Some cb \<Rightarrow>
          if isRepeatable t
          then (let m = m\<lparr>firings := firings m @ [\<lparr>f_key = i, f_due = expiredTime t, f_now = now\<rparr>]\<rparr>;
                    m = tm_exec (body cb (firings m)) m
                in m\<lparr>timers := modify_timer i (afterCallback now) (timers m)\<rparr>)
          else m
      | None \<Rightarrow> m)"

text \<open>
  One turn of the loop of \<^verbatim>\<open>update\<close> for the iterator \<open>i\<close>: \<open>Inl\<close> when the function returns, \<open>Inr\<close>
  with the next iterator (\<open>None\<close> is \<^verbatim>\<open>end()\<close>). A dangling iterator would be undefined behaviour.
\<close>

definition updateBody ::
    "tm_body \<Rightarrow> (nat \<Rightarrow> timestamp) \<Rightarrow> int \<Rightarrow> timer_manager
     \<Rightarrow> (timer_manager + (int option \<times> timer_manager)) res" where
  "updateBody body clock i m =
     (let now = clock (clockReads m);
          m = m\<lparr>clockReads := Suc (clockReads m)\<rparr>
      in case find_timer i (timers m) of
           None \<Rightarrow> Inl Undefined
         | Some t \<Rightarrow>
             if \<not> isExpired now t then Inr (Inl m)
             else (let m = onTimer body now i t m
                   in case find_timer i (timers m) of
                        None \<Rightarrow> Inl Undefined
                      | Some t \<Rightarrow>
                          (let nextIt = next_entry i (timers m);
                               rest = erase_timer i (timers m)
                           in if isRepeatable t
                              then (let newTimer = fst (timer_move t);
                                        m = m\<lparr>timers := mm_insert (expiredTime newTimer) newTimer rest\<rparr>
                                    in Inr (Inr (case nextIt of
                                                   Some (k, j) \<Rightarrow> if k < expiredTime newTimer then Some j else Some i
                                                 | None \<Rightarrow> Some i, m)))
                              else Inr (Inr (map_option snd nextIt, m\<lparr>timers := rest\<rparr>)))))"

partial_function (option) updateLoop ::
    "tm_body \<Rightarrow> (nat \<Rightarrow> timestamp) \<Rightarrow> int option \<Rightarrow> timer_manager \<Rightarrow> timer_manager res option" where
  "updateLoop body clock it m =
     (case it of
        None \<Rightarrow> Some (Inr m)
      | Some i \<Rightarrow>
          (case updateBody body clock i m of
             Inl e \<Rightarrow> Some (Inl e)
           | Inr (Inl m') \<Rightarrow> Some (Inr m')
           | Inr (Inr (it', m')) \<Rightarrow> updateLoop body clock it' m'))"

definition update :: "tm_body \<Rightarrow> (nat \<Rightarrow> timestamp) \<Rightarrow> timer_manager \<Rightarrow> timer_manager res" where
  "update body clock m =
     (case timers m of
        [] \<Rightarrow> Inr m
      | e # es \<Rightarrow> (case updateLoop body clock (Some (key_of e)) m of Some r \<Rightarrow> r | None \<Rightarrow> Inl Hang))"

definition nearestTimerRemainingExpiredTime ::
    "(nat \<Rightarrow> timestamp) \<Rightarrow> timer_manager \<Rightarrow> int \<times> timer_manager" where
  "nearestTimerRemainingExpiredTime clock m =
     (case timers m of
        [] \<Rightarrow> (-1, m)
      | (k, t) # ts \<Rightarrow>
          (let now = clock (clockReads m); m = m\<lparr>clockReads := Suc (clockReads m)\<rparr>
           in if k \<le> now then (0, m)
              else (millisecondsSinceEpoch (minusMicroseconds now k), m)))"

section \<open>The container\<close>

lemma set_mm_insert [simp]: "set (mm_insert k v xs) = insert (k, v) (set xs)"
  by (induction k v xs rule: mm_insert.induct) auto

lemma sorted_mm_insert: "sorted (map fst xs) \<Longrightarrow> sorted (map fst (mm_insert k v xs))"
  by (induction k v xs rule: mm_insert.induct) (auto simp: less_imp_le)

lemma mset_mm_insert: "mset (mm_insert k v xs) = add_mset (k, v) (mset xs)"
  by (induction k v xs rule: mm_insert.induct) auto

lemma distinct_mm_insert:
  "distinct (map key_of (mm_insert k t xs)) \<longleftrightarrow>
   id_key (tid t) \<notin> key_of ` set xs \<and> distinct (map key_of xs)"
proof -
  have "mset (map key_of (mm_insert k t xs)) = mset (map key_of ((k, t) # xs))"
    by (simp add: mset_mm_insert)
  from mset_eq_imp_distinct_iff[OF this] show ?thesis by (simp add: key_of_def)
qed

lemma find_timer_Nil [simp]: "find_timer i [] = None"
  by (simp add: find_timer_def)

lemma find_timer_Cons [simp]:
  "find_timer i (e # ts) = (if key_of e = i then Some (snd e) else find_timer i ts)"
  by (simp add: find_timer_def)

lemma find_timer_None_iff: "find_timer i ts = None \<longleftrightarrow> i \<notin> key_of ` set ts"
  by (induction ts) auto

lemma find_timer_SomeD: "find_timer i ts = Some t \<Longrightarrow> id_key (tid t) = i \<and> t \<in> snd ` set ts"
  by (induction ts) (auto simp: key_of_def split: if_splits)

lemma find_timer_mm_insert:
  "id_key (tid t) \<notin> key_of ` set xs \<Longrightarrow>
   find_timer i (mm_insert k t xs) = (if id_key (tid t) = i then Some t else find_timer i xs)"
  by (induction k t xs rule: mm_insert.induct) (auto simp: key_of_def find_timer_None_iff)

lemma find_timer_erase [simp]:
  "find_timer j (erase_timer i ts) = (if j = i then None else find_timer j ts)"
  by (induction ts) (auto simp: erase_timer_def)

lemma erase_timer_sub: "set (erase_timer i ts) = {e \<in> set ts. key_of e \<noteq> i}"
  by (auto simp: erase_timer_def)

lemma erase_timer_wf:
  "sorted (map fst ts) \<Longrightarrow> sorted (map fst (erase_timer i ts))"
  "distinct (map key_of ts) \<Longrightarrow> distinct (map key_of (erase_timer i ts))"
  by (simp_all add: erase_timer_def sorted_filter distinct_map_filter)

lemma modify_timer_fst [simp]: "map fst (modify_timer i f ts) = map fst ts"
  by (simp add: modify_timer_def comp_def if_distrib cong: if_cong)

definition keeps_id :: "(timer \<Rightarrow> timer) \<Rightarrow> bool" where
  "keeps_id f \<longleftrightarrow> (\<forall>t. id_key (tid (f t)) = id_key (tid t))"

lemma modify_timer_keys: "keeps_id f \<Longrightarrow> map key_of (modify_timer i f ts) = map key_of ts"
  by (induction ts) (auto simp: modify_timer_def key_of_def keeps_id_def)

lemma find_modify_timer:
  "keeps_id f \<Longrightarrow> find_timer j (modify_timer i f ts)
     = (if j = i then map_option f (find_timer i ts) else find_timer j ts)"
  by (induction ts) (auto simp: modify_timer_def key_of_def keeps_id_def)

lemma modify_timer_set:
  "e \<in> set (modify_timer i f ts) \<Longrightarrow>
   (e \<in> set ts \<and> key_of e \<noteq> i) \<or> (\<exists>e' \<in> set ts. key_of e' = i \<and> e = (fst e', f (snd e')))"
  by (auto simp: modify_timer_def)

lemma next_entry_mem:
  "next_entry i ts = Some (k, j) \<Longrightarrow> distinct (map key_of ts) \<Longrightarrow> j \<in> key_of ` set ts \<and> j \<noteq> i"
  by (induction i ts rule: next_entry.induct) (auto split: if_splits)

section \<open>Invariant\<close>

text \<open>
  The map is sorted, ids are unique and older than the generator, so are the ids of all
  firings, and a timer that can still fire is filed under its expiry time (timers in \<open>X\<close>, those
  being worked on, excepted).
\<close>

definition tm_wf :: "int set \<Rightarrow> timer_manager \<Rightarrow> bool" where
  "tm_wf X m \<longleftrightarrow> sorted (map fst (timers m)) \<and> distinct (map key_of (timers m)) \<and>
     (\<forall>e \<in> set (timers m). key_of e < timerIdGenerator m \<and>
        (isRepeatable (snd e) \<and> key_of e \<notin> X \<longrightarrow> fst e = expiredTime (snd e))) \<and>
     (\<forall>f \<in> set (firings m). f_key f < timerIdGenerator m)"

abbreviation tm_inv :: "timer_manager \<Rightarrow> bool" where
  "tm_inv \<equiv> tm_wf {}"

definition cancel :: "timer \<Rightarrow> timer" where
  "cancel t = setRepeatTimes 0 (setExpiredTime 0 t)"

lemma cancel_simps [simp]:
  "keeps_id cancel" "cancel (cancel t) = cancel t" "\<not> isRepeatable (cancel t)"
  "id_key (tid (cancel t)) = id_key (tid t)"
  by (simp_all add: keeps_id_def cancel_def setRepeatTimes_def setExpiredTime_def isRepeatable_def
      kRepeatForever_def)

lemma removeTimer_cases:
  "removeTimer i m = m \<or> removeTimer i m = m\<lparr>timers := modify_timer (id_key i) cancel (timers m)\<rparr>"
  unfolding removeTimer_def cancel_def[abs_def] by (auto split: option.split)

lemma tm_wf_modify:
  assumes "tm_wf X m" and "keeps_id f" and "\<And>t. \<not> isRepeatable (f t)"
  shows "tm_wf X (m\<lparr>timers := modify_timer i f (timers m)\<rparr>)"
proof -
  have "key_of e < timerIdGenerator m \<and> (isRepeatable (snd e) \<and> key_of e \<notin> X \<longrightarrow> fst e = expiredTime (snd e))"
    if "e \<in> set (modify_timer i f (timers m))" for e
    using modify_timer_set[OF that] assms by (auto simp: tm_wf_def key_of_def keeps_id_def)
  then show ?thesis using assms modify_timer_keys[OF assms(2)] by (simp add: tm_wf_def)
qed

lemma tm_wf_modify_working:
  assumes "tm_wf X m" and "keeps_id f" and "i \<in> X"
  shows "tm_wf X (m\<lparr>timers := modify_timer i f (timers m)\<rparr>)"
proof -
  have "key_of e < timerIdGenerator m \<and> (isRepeatable (snd e) \<and> key_of e \<notin> X \<longrightarrow> fst e = expiredTime (snd e))"
    if "e \<in> set (modify_timer i f (timers m))" for e
    using modify_timer_set[OF that] assms by (auto simp: tm_wf_def key_of_def keeps_id_def)
  then show ?thesis using assms modify_timer_keys[OF assms(2)] by (simp add: tm_wf_def)
qed

lemma tm_wf_removeTimer: "tm_wf X m \<Longrightarrow> tm_wf X (removeTimer i m)"
  using removeTimer_cases[of i m] tm_wf_modify[of X m cancel] by auto

lemma tm_wf_gen_notin: "tm_wf X m \<Longrightarrow> timerIdGenerator m \<notin> key_of ` set (timers m)"
  by (auto simp: tm_wf_def)

lemma tm_wf_addTimer: "tm_wf X m \<Longrightarrow> tm_wf X (snd (addTimer e n i fd cb m))"
  using tm_wf_gen_notin[of X m]
  by (fastforce simp: tm_wf_def addTimer_def timer_new_def distinct_mm_insert sorted_mm_insert
      key_of_def expiredTime_def)

lemma tm_wf_exec: "tm_wf X m \<Longrightarrow> tm_wf X (tm_exec cs m)"
  by (induction cs m rule: tm_exec.induct) (simp_all add: tm_wf_addTimer tm_wf_removeTimer)

lemma tm_exec_firings [simp]: "firings (tm_exec cs m) = firings m"
proof (induction cs m rule: tm_exec.induct)
  case (3 i cs m) then show ?case using removeTimer_cases[of i m] by auto
qed (simp_all add: addTimer_def Let_def)

lemma tm_exec_gen: "timerIdGenerator m \<le> timerIdGenerator (tm_exec cs m)"
proof (induction cs m rule: tm_exec.induct)
  case (3 i cs m) then show ?case using removeTimer_cases[of i m] by auto
qed (simp_all add: addTimer_def Let_def)

text \<open>What the commands of a callback can do to an existing timer: nothing, or cancel it.\<close>

lemma tm_exec_find:
  "tm_wf X m \<Longrightarrow> i < timerIdGenerator m \<Longrightarrow>
   find_timer i (timers (tm_exec cs m)) = find_timer i (timers m) \<or>
   find_timer i (timers (tm_exec cs m)) = map_option cancel (find_timer i (timers m))"
proof (induction cs m rule: tm_exec.induct)
  case (2 e n j fd cb cs m)
  have "find_timer i (timers (snd (addTimer e n j fd cb m))) = find_timer i (timers m)"
    "i < timerIdGenerator (snd (addTimer e n j fd cb m))"
    using "2.prems" tm_wf_gen_notin[OF "2.prems"(1)]
    by (auto simp: addTimer_def timer_new_def find_timer_mm_insert Let_def)
  with 2 tm_wf_addTimer show ?case by simp
next
  case (3 j cs m)
  have "find_timer i (timers (removeTimer j m)) = find_timer i (timers m) \<or>
      find_timer i (timers (removeTimer j m)) = map_option cancel (find_timer i (timers m))"
    and "timerIdGenerator (removeTimer j m) = timerIdGenerator m"
    using removeTimer_cases[of j m] by (auto simp: find_modify_timer)
  then show ?case
    using "3.IH"[OF tm_wf_removeTimer[OF "3.prems"(1)]] "3.prems"(2)
    by (auto simp: option.map_comp comp_def)
qed simp

section \<open>One turn of the update loop\<close>

lemma afterCallback_simps [simp]:
  "keeps_id (afterCallback now)" "id_key (tid (afterCallback now t)) = id_key (tid t)"
  "interval (afterCallback now t) = interval t" "fixedDelay (afterCallback now t) = fixedDelay t"
  "timerCallback (afterCallback now t) = timerCallback t"
  "expiredTime (afterCallback now t)
     = plusMilliseconds (interval t) (if fixedDelay t then now else expiredTime t)"
  "repeatTimes (afterCallback now t) = (if repeatTimes t > 0 then repeatTimes t - 1 else repeatTimes t)"
  by (simp_all add: keeps_id_def afterCallback_def setExpiredTime_def setRepeatTimes_def Let_def
      expiredTime_def)

lemma timer_move_same [simp]: "fst (timer_move t) = t"
  by (simp add: timer_move_def)

lemma tm_wf_mono: "tm_wf X m \<Longrightarrow> X \<subseteq> Y \<Longrightarrow> tm_wf Y m"
  by (auto simp: tm_wf_def)

lemma onTimer_wf:
  assumes "tm_inv m" and "find_timer i (timers m) = Some t"
  shows "tm_wf {i} (onTimer body now i t m)"
proof -
  have i: "i < timerIdGenerator m"
    using assms find_timer_None_iff[of i "timers m"] by (fastforce simp: tm_wf_def)
  have wf: "tm_wf {i} m" using assms(1) by (rule tm_wf_mono) simp
  have "tm_wf {i} (m\<lparr>firings := firings m @ [\<lparr>f_key = i, f_due = expiredTime t, f_now = now\<rparr>]\<rparr>)"
    using wf i by (simp add: tm_wf_def)
  from tm_wf_exec[OF this] show ?thesis
    using wf by (auto simp: onTimer_def Let_def intro!: tm_wf_modify_working split: option.split)
qed

text \<open>What a firing does to the timer itself and to the others.\<close>

lemma onTimer_find:
  assumes "tm_inv m" and "find_timer i (timers m) = Some t" and "j < timerIdGenerator m"
  shows "\<exists>g. (g = id \<or> g = cancel) \<and>
    find_timer j (timers (onTimer body now i t m)) =
      (if j = i \<and> timerCallback t \<noteq> None \<and> isRepeatable t
       then Some (afterCallback now (g t)) else map_option g (find_timer j (timers m)))"
proof (cases "timerCallback t \<noteq> None \<and> isRepeatable t")
  case False
  then show ?thesis by (intro exI[of _ id]) (auto simp: onTimer_def option.map_id split: option.split)
next
  case True
  then obtain cb where cb: "timerCallback t = Some cb" and rep: "isRepeatable t" by auto
  define m1 where "m1 = m\<lparr>firings := firings m @ [\<lparr>f_key = i, f_due = expiredTime t, f_now = now\<rparr>]\<rparr>"
  have "i < timerIdGenerator m"
    using assms(1,2) find_timer_None_iff[of i "timers m"] by (fastforce simp: tm_wf_def)
  then have "tm_inv m1" using assms(1) by (simp add: tm_wf_def m1_def)
  moreover have "j < timerIdGenerator m1" "timers m1 = timers m" using assms(3) by (simp_all add: m1_def)
  ultimately obtain g where g: "g = id \<or> g = cancel"
    "find_timer j (timers (tm_exec (body cb (firings m1)) m1)) = map_option g (find_timer j (timers m))"
    using tm_exec_find[of "{}" m1 j "body cb (firings m1)"] by (metis option.map_id0 id_apply)
  then show ?thesis using cb rep assms(2)
    by (intro exI[of _ g]) (auto simp: onTimer_def Let_def find_modify_timer m1_def)
qed

lemma onTimer_firings:
  "firings (onTimer body now i t m) = firings m @
     (if timerCallback t \<noteq> None \<and> isRepeatable t
      then [\<lparr>f_key = i, f_due = expiredTime t, f_now = now\<rparr>] else [])"
  by (auto simp: onTimer_def Let_def split: option.split)

lemma onTimer_gen: "timerIdGenerator m \<le> timerIdGenerator (onTimer body now i t m)"
  by (auto simp: onTimer_def Let_def split: option.split intro: order_trans[OF _ tm_exec_gen])

text \<open>
  A turn keeps the invariant, never meets a dangling iterator, and the next iterator is valid.
\<close>

definition valid_it :: "int option \<Rightarrow> timer_manager \<Rightarrow> bool" where
  "valid_it it m \<longleftrightarrow> (case it of None \<Rightarrow> True | Some i \<Rightarrow> find_timer i (timers m) \<noteq> None)"

lemma reinsert_wf:
  assumes "tm_wf {i} m" and "find_timer i (timers m) = Some t" and "isRepeatable t"
  shows "tm_inv (m\<lparr>timers := mm_insert (expiredTime t) t (erase_timer i (timers m))\<rparr>)"
proof -
  have key: "id_key (tid t) = i" "i < timerIdGenerator m"
    using find_timer_SomeD[OF assms(2)] assms(1) by (auto simp: tm_wf_def key_of_def)
  have "i \<notin> key_of ` set (erase_timer i (timers m))" by (auto simp: erase_timer_sub)
  with assms key show ?thesis
    by (auto simp: tm_wf_def sorted_mm_insert distinct_mm_insert erase_timer_wf erase_timer_sub)
      (auto simp: key_of_def)
qed

lemma erase_wf: "tm_wf {i} m \<Longrightarrow> tm_inv (m\<lparr>timers := erase_timer i (timers m)\<rparr>)"
  by (auto simp: tm_wf_def erase_timer_wf erase_timer_sub)

lemma updateBody_cases:
  fixes clock :: "nat \<Rightarrow> timestamp" and body :: tm_body
  assumes inv: "tm_inv m" and it: "find_timer i (timers m) = Some t"
  defines "now \<equiv> clock (clockReads m)"
  defines "m1 \<equiv> onTimer body now i t (m\<lparr>clockReads := Suc (clockReads m)\<rparr>)"
  shows "if \<not> isExpired now t then updateBody body clock i m = Inr (Inl (m\<lparr>clockReads := Suc (clockReads m)\<rparr>))
    else \<exists>t1 it' m'. find_timer i (timers m1) = Some t1 \<and>
      updateBody body clock i m = Inr (Inr (it', m')) \<and> tm_inv m' \<and> valid_it it' m' \<and>
      m' = m1\<lparr>timers := (if isRepeatable t1
        then mm_insert (expiredTime t1) t1 (erase_timer i (timers m1)) else erase_timer i (timers m1))\<rparr>"
proof (cases "isExpired now t")
  case False
  then show ?thesis using it by (simp add: updateBody_def now_def Let_def)
next
  case True
  define m0 where "m0 = m\<lparr>clockReads := Suc (clockReads m)\<rparr>"
  have inv0: "tm_inv m0" "find_timer i (timers m0) = Some t" using inv it by (simp_all add: m0_def tm_wf_def)
  have wf: "tm_wf {i} m1" using onTimer_wf[OF inv0] by (simp add: m1_def m0_def)
  have gen: "i < timerIdGenerator m0"
    using inv0 find_timer_None_iff[of i "timers m0"] by (fastforce simp: tm_wf_def)
  from onTimer_find[OF inv0 gen, of body now] obtain t1 where t1: "find_timer i (timers m1) = Some t1"
    using inv0(2) unfolding m1_def m0_def[symmetric] by (auto split: if_splits)
  have key: "id_key (tid t1) = i" using find_timer_SomeD[OF t1] by simp
  have fresh: "id_key (tid t1) \<notin> key_of ` set (erase_timer i (timers m1))"
    using key by (auto simp: erase_timer_sub)
  have nxt: "next_entry i (timers m1) = Some (k, j) \<Longrightarrow> j \<noteq> i \<and> find_timer j (timers m1) \<noteq> None" for k j
    using next_entry_mem[of i "timers m1" k j] wf by (auto simp: tm_wf_def find_timer_None_iff)
  show ?thesis
  proof (cases "isRepeatable t1")
    case True
    let ?m = "m1\<lparr>timers := mm_insert (expiredTime t1) t1 (erase_timer i (timers m1))\<rparr>"
    have "updateBody body clock i m = Inr (Inr (case next_entry i (timers m1) of
        Some (k, j) \<Rightarrow> if k < expiredTime t1 then Some j else Some i | None \<Rightarrow> Some i, ?m))"
      using \<open>isExpired now t\<close> it t1 True
      by (simp add: updateBody_def now_def[symmetric] m1_def[symmetric] Let_def)
    moreover have "valid_it (case next_entry i (timers m1) of
        Some (k, j) \<Rightarrow> if k < expiredTime t1 then Some j else Some i | None \<Rightarrow> Some i) ?m"
      using nxt key by (auto simp: valid_it_def find_timer_mm_insert[OF fresh] split: option.split)
    ultimately show ?thesis using \<open>isExpired now t\<close> t1 True reinsert_wf[OF wf t1 True] by auto
  next
    case False
    let ?m = "m1\<lparr>timers := erase_timer i (timers m1)\<rparr>"
    have "updateBody body clock i m = Inr (Inr (map_option snd (next_entry i (timers m1)), ?m))"
      using \<open>isExpired now t\<close> it t1 False
      by (simp add: updateBody_def now_def[symmetric] m1_def[symmetric] Let_def)
    moreover have "valid_it (map_option snd (next_entry i (timers m1))) ?m"
      using nxt by (auto simp: valid_it_def split: option.split)
    ultimately show ?thesis using \<open>isExpired now t\<close> t1 False erase_wf[OF wf] by auto
  qed
qed

section \<open>Schedules\<close>

text \<open>
  The schedule of a timer added with expiry \<open>E\<close>, repeat count \<open>n\<close> and interval \<open>I\<close>: the first
  firing is due at \<open>E\<close>, each later one an interval after the previous due time (at a fixed
  rate) or after the previous firing (with a fixed delay); none happens before it is due, and
  there are at most \<open>n\<close> unless \<open>n\<close> is \<open>kRepeatForever\<close>.
\<close>

definition next_due :: "timestamp \<Rightarrow> int \<Rightarrow> bool \<Rightarrow> firing list \<Rightarrow> timestamp" where
  "next_due E I fd fs =
     (if fs = [] then E else (if fd then f_now (last fs) else f_due (last fs)) + I * 1000)"

definition on_schedule :: "timestamp \<Rightarrow> int \<Rightarrow> int \<Rightarrow> bool \<Rightarrow> firing list \<Rightarrow> bool" where
  "on_schedule E n I fd fs \<longleftrightarrow>
     (\<forall>j < length fs. f_due (fs ! j) = next_due E I fd (take j fs) \<and> f_due (fs ! j) \<le> f_now (fs ! j)) \<and>
     (n = kRepeatForever \<or> int (length fs) \<le> max 0 n)"

definition firings_of :: "int \<Rightarrow> timer_manager \<Rightarrow> firing list" where
  "firings_of i m = filter (\<lambda>f. f_key f = i) (firings m)"

text \<open>What connects a timer in the map with the firings so far.\<close>

definition sched :: "timestamp \<Rightarrow> int \<Rightarrow> int \<Rightarrow> bool \<Rightarrow> int \<Rightarrow> timer_manager \<Rightarrow> bool" where
  "sched E n I fd i m \<longleftrightarrow> on_schedule E n I fd (firings_of i m) \<and> i < timerIdGenerator m \<and>
     (\<forall>t. find_timer i (timers m) = Some t \<and> isRepeatable t \<longrightarrow>
        expiredTime t = next_due E I fd (firings_of i m) \<and> interval t = I \<and> fixedDelay t = fd \<and>
        (if n = kRepeatForever then repeatTimes t = kRepeatForever
         else repeatTimes t > 0 \<and> repeatTimes t + int (length (firings_of i m)) = n))"

lemma on_schedule_snoc:
  "on_schedule E n I fd (fs @ [f]) \<longleftrightarrow> on_schedule E n I fd fs \<and> f_due f = next_due E I fd fs \<and>
     f_due f \<le> f_now f \<and> (n = kRepeatForever \<or> int (length fs) < n)"
  by (auto simp: on_schedule_def nth_append less_Suc_eq)

lemma repeat_cases:
  "isRepeatable t \<longleftrightarrow> repeatTimes t = kRepeatForever \<or> repeatTimes t > 0"
  "repeatTimes (cancel t) = 0" "kRepeatForever < 0"
  by (simp_all add: isRepeatable_def cancel_def setRepeatTimes_def kRepeatForever_def)

text \<open>One turn at timer \<open>i\<close>, seen from timer \<open>j\<close>.\<close>

lemma turn_other:
  assumes inv: "tm_inv m" and it: "find_timer i (timers m) = Some t" and j: "j < timerIdGenerator m"
    and turn: "updateBody body clock i m = Inr (Inr (it', m'))"
  shows "timerIdGenerator m \<le> timerIdGenerator m' \<and>
    (if j = i \<and> timerCallback t \<noteq> None \<and> isRepeatable t
     then firings_of j m' = firings_of j m @ [\<lparr>f_key = i, f_due = expiredTime t, f_now = clock (clockReads m)\<rparr>] \<and>
       expiredTime t \<le> clock (clockReads m) \<and>
       (\<forall>u. find_timer j (timers m') = Some u \<and> isRepeatable u \<longrightarrow> u = afterCallback (clock (clockReads m)) t)
     else firings_of j m' = firings_of j m \<and>
       (\<forall>u. find_timer j (timers m') = Some u \<and> isRepeatable u \<longrightarrow> find_timer j (timers m) = Some u))"
proof -
  define m0 where "m0 = m\<lparr>clockReads := Suc (clockReads m)\<rparr>"
  define now where "now = clock (clockReads m)"
  define m1 where "m1 = onTimer body now i t m0"
  have inv0: "tm_inv m0" "find_timer i (timers m0) = Some t" "j < timerIdGenerator m0"
    using inv it j by (simp_all add: m0_def tm_wf_def)
  from updateBody_cases[OF inv it, of clock body] turn obtain t1 where
    t1: "isExpired now t" "find_timer i (timers m1) = Some t1"
      "m' = m1\<lparr>timers := (if isRepeatable t1 then mm_insert (expiredTime t1) t1 (erase_timer i (timers m1))
             else erase_timer i (timers m1))\<rparr>"
    by (auto simp: m1_def m0_def now_def split: if_splits)
  have key: "id_key (tid t1) = i" using find_timer_SomeD[OF t1(2)] by simp
  then have fresh: "id_key (tid t1) \<notin> key_of ` set (erase_timer i (timers m1))"
    by (auto simp: erase_timer_sub)
  have here: "find_timer j (timers m') = Some u \<and> isRepeatable u \<longrightarrow> find_timer j (timers m1) = Some u" for u
    using t1(2,3) key by (auto simp: find_timer_mm_insert[OF fresh] split: if_splits)
  from onTimer_find[OF inv0, of body now] obtain g where g: "g = id \<or> g = cancel"
    "find_timer j (timers m1) = (if j = i \<and> timerCallback t \<noteq> None \<and> isRepeatable t
       then Some (afterCallback now (g t)) else map_option g (find_timer j (timers m0)))"
    unfolding m1_def[symmetric] by blast
  have live: "if j = i \<and> timerCallback t \<noteq> None \<and> isRepeatable t then u = afterCallback now t
      else find_timer j (timers m) = Some u"
    if "find_timer j (timers m1) = Some u" "isRepeatable u" for u
  proof (cases "g = id")
    case True
    then show ?thesis using g(2) that by (auto simp: m0_def option.map_id split: if_splits)
  next
    case False
    then have "g = cancel" using g(1) by simp
    then have "repeatTimes u = 0" using g(2) that(1)
      by (cases "find_timer j (timers m0)") (auto simp: repeat_cases split: if_splits)
    then show ?thesis using that(2) by (simp add: repeat_cases kRepeatForever_def)
  qed
  have fir: "firings m' = firings m @ (if timerCallback t \<noteq> None \<and> isRepeatable t
      then [\<lparr>f_key = i, f_due = expiredTime t, f_now = now\<rparr>] else [])"
    using t1(3) onTimer_firings[of body now i t m0] by (simp add: m1_def m0_def)
  have gen: "timerIdGenerator m \<le> timerIdGenerator m'"
    using t1(3) onTimer_gen[of m0 body now i t] by (simp add: m1_def m0_def)
  have due: "expiredTime t \<le> now" using t1(1) by (simp add: isExpired_def expiredTime_def)
  show ?thesis
  proof (cases "j = i \<and> timerCallback t \<noteq> None \<and> isRepeatable t")
    case True
    then have "firings_of j m' = firings_of j m @ [\<lparr>f_key = i, f_due = expiredTime t, f_now = now\<rparr>]"
      using fir by (simp add: firings_of_def)
    moreover have "\<forall>u. find_timer j (timers m') = Some u \<and> isRepeatable u \<longrightarrow> u = afterCallback now t"
      using here live unfolding if_P[OF True] by blast
    ultimately show ?thesis using gen due unfolding if_P[OF True] now_def by blast
  next
    case False
    then have "firings_of j m' = firings_of j m" using fir by (auto simp: firings_of_def)
    moreover have "\<forall>u. find_timer j (timers m') = Some u \<and> isRepeatable u \<longrightarrow> find_timer j (timers m) = Some u"
      using here live unfolding if_not_P[OF False] by blast
    ultimately show ?thesis using gen unfolding if_not_P[OF False] by blast
  qed
qed

lemma turn_sched:
  assumes "tm_inv m" and "find_timer i (timers m) = Some t" and "sched E n I fd j m"
    and "updateBody body clock i m = Inr (Inr (it', m'))"
  shows "sched E n I fd j m'"
proof -
  have j: "j < timerIdGenerator m" using assms(3) by (simp add: sched_def)
  note turn = turn_other[OF assms(1,2) j assms(4)]
  show ?thesis
  proof (cases "j = i \<and> timerCallback t \<noteq> None \<and> isRepeatable t")
    case False
    then have fs: "firings_of j m' = firings_of j m"
      and live: "\<And>u. find_timer j (timers m') = Some u \<Longrightarrow> isRepeatable u \<Longrightarrow> find_timer j (timers m) = Some u"
      and gen: "timerIdGenerator m \<le> timerIdGenerator m'"
      using turn unfolding if_not_P[OF False] by blast+
    show ?thesis using assms(3) gen live unfolding sched_def fs by (meson order_less_le_trans)
  next
    case True
    define now where "now = clock (clockReads m)"
    define f where "f = \<lparr>f_key = i, f_due = expiredTime t, f_now = now\<rparr>"
    have fs: "firings_of j m' = firings_of j m @ [f]" and due: "expiredTime t \<le> now"
      and live: "\<And>u. find_timer j (timers m') = Some u \<Longrightarrow> isRepeatable u \<Longrightarrow> u = afterCallback now t"
      and gen: "timerIdGenerator m \<le> timerIdGenerator m'"
      using turn unfolding if_P[OF True] f_def now_def by blast+
    have t: "expiredTime t = next_due E I fd (firings_of j m)" "interval t = I" "fixedDelay t = fd"
      "if n = kRepeatForever then repeatTimes t = kRepeatForever
       else repeatTimes t > 0 \<and> repeatTimes t + int (length (firings_of j m)) = n"
      using assms(2,3) True by (auto simp: sched_def)
    have ons: "on_schedule E n I fd (firings_of j m')"
      unfolding fs on_schedule_snoc
      using assms(3) t due by (auto simp: sched_def f_def split: if_splits)
    have "isRepeatable (afterCallback now t) \<Longrightarrow> n \<noteq> kRepeatForever \<Longrightarrow>
        repeatTimes (afterCallback now t) > 0 \<and> repeatTimes (afterCallback now t) + int (length (firings_of j m')) = n"
      using t(4) by (auto simp: fs repeat_cases kRepeatForever_def split: if_splits)
    moreover have "n = kRepeatForever \<Longrightarrow> repeatTimes (afterCallback now t) = kRepeatForever"
      using t(4) by (simp add: kRepeatForever_def)
    moreover have "expiredTime (afterCallback now t) = next_due E I fd (firings_of j m')"
      using t by (simp add: fs next_due_def f_def plusMilliseconds_def time_consts)
    moreover have "j < timerIdGenerator m'" using j gen by simp
    ultimately show ?thesis unfolding sched_def using ons t(2,3) live by fastforce
  qed
qed

text \<open>A timer that cannot fire any more.\<close>

definition dead :: "int \<Rightarrow> timer_manager \<Rightarrow> bool" where
  "dead i m \<longleftrightarrow> i < timerIdGenerator m \<and> (\<forall>t. find_timer i (timers m) = Some t \<longrightarrow> \<not> isRepeatable t)"

lemma turn_dead:
  assumes "tm_inv m" and "find_timer i (timers m) = Some t" and "dead j m"
    and "updateBody body clock i m = Inr (Inr (it', m'))"
  shows "dead j m' \<and> firings_of j m' = firings_of j m"
proof -
  have j: "j < timerIdGenerator m" using assms(3) by (simp add: dead_def)
  have quiet: "\<not> (j = i \<and> timerCallback t \<noteq> None \<and> isRepeatable t)"
    using assms(2,3) by (auto simp: dead_def)
  show ?thesis
    using turn_other[OF assms(1,2) j assms(4)] assms(3) unfolding if_not_P[OF quiet] dead_def
    by (meson order_less_le_trans)
qed

section \<open>Whole operations\<close>

text \<open>A property that every turn keeps holds when \<^verbatim>\<open>update\<close> returns.\<close>

definition turn_keeps :: "tm_body \<Rightarrow> (nat \<Rightarrow> timestamp) \<Rightarrow> (timer_manager \<Rightarrow> bool) \<Rightarrow> bool" where
  "turn_keeps body clock P \<longleftrightarrow>
     (\<forall>i t m it' m'. tm_inv m \<and> P m \<and> find_timer i (timers m) = Some t \<and>
        updateBody body clock i m = Inr (Inr (it', m')) \<longrightarrow> P m') \<and>
     (\<forall>m n. P m \<longrightarrow> P (m\<lparr>clockReads := n\<rparr>))"

lemma updateLoop_keeps:
  assumes keep: "turn_keeps body clock P"
  shows "updateLoop body clock it m = Some r \<Longrightarrow> tm_inv m \<Longrightarrow> P m \<Longrightarrow> valid_it it m \<Longrightarrow>
    \<exists>m'. r = Inr m' \<and> tm_inv m' \<and> P m'"
proof -
  assume ret: "updateLoop body clock it m = Some r" and "tm_inv m" "P m" "valid_it it m"
  have "body = body \<longrightarrow> clock = clock \<longrightarrow> tm_inv m \<longrightarrow> P m \<longrightarrow> valid_it it m \<longrightarrow> (\<exists>m'. r = Inr m' \<and> tm_inv m' \<and> P m')"
  proof (rule updateLoop.raw_induct[where P = "\<lambda>b c it m r. b = body \<longrightarrow> c = clock \<longrightarrow> tm_inv m \<longrightarrow> P m \<longrightarrow>
      valid_it it m \<longrightarrow> (\<exists>m'. r = Inr m' \<and> tm_inv m' \<and> P m')", OF _ ret], intro impI)
    fix loop b c it m r
    assume IH: "\<And>b c it m r. loop b c it m = Some r \<Longrightarrow> b = body \<longrightarrow> c = clock \<longrightarrow> tm_inv m \<longrightarrow> P m \<longrightarrow>
        valid_it it m \<longrightarrow> (\<exists>m'. r = Inr m' \<and> tm_inv m' \<and> P m')"
      and eq: "(case it of None \<Rightarrow> Some (Inr m)
        | Some i \<Rightarrow> (case updateBody b c i m of Inl e \<Rightarrow> Some (Inl e) | Inr (Inl m') \<Rightarrow> Some (Inr m')
             | Inr (Inr (it', m')) \<Rightarrow> loop b c it' m')) = Some r"
      and bc: "b = body" "c = clock" and pre: "tm_inv m" "P m" "valid_it it m"
    show "\<exists>m'. r = Inr m' \<and> tm_inv m' \<and> P m'"
    proof (cases it)
      case None then show ?thesis using eq pre by auto
    next
      case (Some i)
      then obtain t where t: "find_timer i (timers m) = Some t" using pre(3) by (auto simp: valid_it_def)
      note turn = updateBody_cases[OF pre(1) t, of clock body]
      show ?thesis
      proof (cases "isExpired (clock (clockReads m)) t")
        case False
        then show ?thesis using turn eq Some bc pre keep by (auto simp: tm_wf_def turn_keeps_def)
      next
        case True
        with turn obtain it' m' where m': "updateBody body clock i m = Inr (Inr (it', m'))" "tm_inv m'" "valid_it it' m'"
          by auto
        then show ?thesis using eq Some bc IH[of body clock it' m' r] pre(1,2) t keep by (auto simp: turn_keeps_def)
      qed
    qed
  qed
  then show ?thesis using \<open>tm_inv m\<close> \<open>P m\<close> \<open>valid_it it m\<close> by blast
qed

lemma update_keeps:
  assumes "turn_keeps body clock P" and "tm_inv m" and "P m" and "update body clock m = Inr m'"
  shows "tm_inv m' \<and> P m'"
proof (cases "timers m")
  case Nil then show ?thesis using assms by (simp add: update_def)
next
  case (Cons e es)
  then obtain r where "updateLoop body clock (Some (key_of e)) m = Some r" "r = Inr m'"
    using assms(4) by (auto simp: update_def split: option.splits)
  moreover have "valid_it (Some (key_of e)) m" using Cons by (simp add: valid_it_def)
  ultimately show ?thesis using updateLoop_keeps[OF assms(1) _ assms(2,3)] by blast
qed

text \<open>Histories: any sequence of calls of the three operations.\<close>

inductive tm_reach :: "tm_body \<Rightarrow> (nat \<Rightarrow> timestamp) \<Rightarrow> timer_manager \<Rightarrow> timer_manager \<Rightarrow> bool"
  for body clock m where
  tm_here: "tm_reach body clock m m"
| tm_cmd: "tm_reach body clock m v \<Longrightarrow> tm_reach body clock m (tm_exec [c] v)"
| tm_update: "tm_reach body clock m v \<Longrightarrow> update body clock v = Inr v' \<Longrightarrow> tm_reach body clock m v'"
| tm_nearest: "tm_reach body clock m v \<Longrightarrow> nearestTimerRemainingExpiredTime clock v = (r, v') \<Longrightarrow>
    tm_reach body clock m v'"

lemma nearest_same:
  "nearestTimerRemainingExpiredTime clock v = (r, v') \<Longrightarrow>
   timers v' = timers v \<and> timerIdGenerator v' = timerIdGenerator v \<and> firings v' = firings v"
  by (auto simp: nearestTimerRemainingExpiredTime_def Let_def split: list.splits if_splits)

lemma same_state:
  assumes "timers m' = timers m" and "timerIdGenerator m' = timerIdGenerator m" and "firings m' = firings m"
  shows "sched E n I fd j m' = sched E n I fd j m" "dead j m' = dead j m"
    "firings_of j m' = firings_of j m" "tm_wf X m' = tm_wf X m"
  unfolding sched_def dead_def firings_of_def tm_wf_def by (simp_all add: assms cong: if_cong)

lemma clock_read_same [simp]:
  "sched E n I fd j (m\<lparr>clockReads := k\<rparr>) = sched E n I fd j m"
  "dead j (m\<lparr>clockReads := k\<rparr>) = dead j m"
  "firings_of j (m\<lparr>clockReads := k\<rparr>) = firings_of j m"
  by (rule same_state; simp)+

lemma nearest_same_state:
  assumes "nearestTimerRemainingExpiredTime clock v = (r, v')"
  shows "sched E n I fd j v' = sched E n I fd j v" "dead j v' = dead j v"
    "firings_of j v' = firings_of j v" "tm_wf X v' = tm_wf X v"
  using nearest_same[OF assms] by (simp_all add: same_state[of v' v])

lemma firings_of_exec [simp]: "firings_of j (tm_exec cs m) = firings_of j m"
  by (simp add: firings_of_def)

lemma exec_live:
  assumes "tm_inv m" and "j < timerIdGenerator m" and "find_timer j (timers (tm_exec cs m)) = Some u"
    and "isRepeatable u"
  shows "find_timer j (timers m) = Some u"
  using tm_exec_find[OF assms(1,2), of cs] assms(3,4) by (cases "find_timer j (timers m)") auto

lemma sched_exec: "tm_inv m \<Longrightarrow> sched E n I fd j m \<Longrightarrow> sched E n I fd j (tm_exec cs m)"
  using exec_live[of m j cs] order_less_le_trans[OF _ tm_exec_gen[of m cs], of j]
  unfolding sched_def firings_of_exec by blast

lemma dead_exec: "tm_inv m \<Longrightarrow> dead j m \<Longrightarrow> dead j (tm_exec cs m)"
  using exec_live[of m j cs] order_less_le_trans[OF _ tm_exec_gen[of m cs], of j]
  unfolding dead_def by blast

lemma tm_keep_sched: "turn_keeps body clock (sched E n I fd j)"
  unfolding turn_keeps_def
proof (intro conjI allI impI)
  show "sched E n I fd j m'" if "tm_inv m \<and> sched E n I fd j m \<and> find_timer i (timers m) = Some t \<and>
      updateBody body clock i m = Inr (Inr (it', m'))" for i t m it' m'
    using turn_sched that by blast
qed simp

lemma tm_reach_sched:
  "tm_reach body clock m m' \<Longrightarrow> tm_inv m \<Longrightarrow> sched E n I fd j m \<Longrightarrow> tm_inv m' \<and> sched E n I fd j m'"
proof (induction rule: tm_reach.induct)
  case (tm_cmd v c)
  then show ?case using sched_exec[of v E n I fd j "[c]"] tm_wf_exec[of "{}" v "[c]"] by blast
next
  case (tm_update v v')
  then show ?case using update_keeps[OF tm_keep_sched] by blast
next
  case (tm_nearest v r v')
  then show ?case using nearest_same_state[OF tm_nearest.hyps(2)] by simp
qed simp

lemma tm_keep_dead: "turn_keeps body clock (\<lambda>m. dead j m \<and> firings_of j m = fs)"
  unfolding turn_keeps_def
proof (intro conjI[where Q = "\<forall>m n. _ m n"] allI impI)
  show "dead j m' \<and> firings_of j m' = fs" if "tm_inv m \<and> (dead j m \<and> firings_of j m = fs) \<and>
      find_timer i (timers m) = Some t \<and> updateBody body clock i m = Inr (Inr (it', m'))" for i t m it' m'
    using turn_dead[of m i t j body clock it' m'] that by simp
qed simp

lemma tm_reach_dead:
  "tm_reach body clock m m' \<Longrightarrow> tm_inv m \<Longrightarrow> dead j m \<and> firings_of j m = fs \<Longrightarrow>
   tm_inv m' \<and> dead j m' \<and> firings_of j m' = fs"
proof (induction rule: tm_reach.induct)
  case (tm_cmd v c)
  then show ?case using dead_exec[of v j "[c]"] tm_wf_exec[of "{}" v "[c]"] firings_of_exec[of j "[c]" v]
    by simp
next
  case (tm_update v v')
  then show ?case using update_keeps[OF tm_keep_dead] by blast
next
  case (tm_nearest v r v')
  then show ?case using nearest_same_state[OF tm_nearest.hyps(2)] by simp
qed simp

text \<open>Adding a timer starts its schedule; cancelling one that is on its schedule ends it.\<close>

lemma addTimer_sched:
  assumes "tm_inv m" and "addTimer E n I fd cb m = (i, m')"
  shows "tm_inv m' \<and> sched E n I fd (id_key i) m' \<and> id_value i = E"
proof -
  have "firings_of (timerIdGenerator m) m = []"
    using assms(1) by (force simp: firings_of_def tm_wf_def filter_empty_conv)
  then show ?thesis
    using assms tm_wf_addTimer[OF assms(1), of E n I fd cb] tm_wf_gen_notin[OF assms(1)]
    by (auto simp: addTimer_def timer_new_def sched_def on_schedule_def next_due_def firings_of_def
        find_timer_mm_insert repeat_cases expiredTime_def Let_def)
qed

lemma next_due_later:
  assumes "on_schedule E n I fd fs" and "0 \<le> I"
  shows "E \<le> next_due E I fd fs"
  using assms(1)
proof (induction fs rule: rev_induct)
  case (snoc f fs)
  then show ?case using assms(2) by (auto simp: on_schedule_snoc next_due_def[of _ _ _ "fs @ [f]"])
qed (simp add: next_due_def)

lemma find_timer_mem:
  "distinct (map key_of ts) \<Longrightarrow> (k, t) \<in> set ts \<Longrightarrow> find_timer (id_key (tid t)) ts = Some t"
  by (induction ts) (auto simp: key_of_def image_iff)

lemma find_timer_lower_bound:
  assumes "distinct (map key_of ts)" and "(k, t) \<in> set ts" and "E \<le> k"
  shows "find_timer (id_key (tid t)) (dropWhile (\<lambda>e. fst e < E) ts) = Some t"
  using assms
proof (induction ts)
  case (Cons e ts)
  show ?case
  proof (cases "fst e < E")
    case True then show ?thesis using Cons by auto
  next
    case False then show ?thesis using find_timer_mem[OF Cons.prems(1,2)] by simp
  qed
qed simp

lemma removeTimer_dead:
  assumes "tm_inv m" and "sched E n I fd (id_key i) m" and "id_value i = E" and "0 \<le> I"
  shows "dead (id_key i) (removeTimer i m)"
proof (rule ccontr)
  assume "\<not> dead (id_key i) (removeTimer i m)"
  moreover have gen: "id_key i < timerIdGenerator (removeTimer i m)"
    using removeTimer_cases[of i m] assms(2) by (auto simp: sched_def)
  ultimately obtain t where t: "find_timer (id_key i) (timers (removeTimer i m)) = Some t" "isRepeatable t"
    by (auto simp: dead_def)
  then have same: "removeTimer i m = m" "find_timer (id_key i) (timers m) = Some t"
    using removeTimer_cases[of i m] by (auto simp: find_modify_timer)
  from find_timer_SomeD[OF same(2)] obtain k where k: "(k, t) \<in> set (timers m)" "id_key (tid t) = id_key i"
    by auto
  have "k = expiredTime t" using assms(1) k t(2) by (force simp: tm_wf_def)
  moreover have "E \<le> expiredTime t"
    using assms(2,4) same(2) t(2) next_due_later by (auto simp: sched_def)
  ultimately have "find_timer (id_key i) (dropWhile (\<lambda>e. fst e < id_value i) (timers m)) = Some t"
    using find_timer_lower_bound[OF _ k(1)] assms(1,3) k(2) by (simp add: tm_wf_def)
  then have "removeTimer i m = m\<lparr>timers := modify_timer (id_key i) cancel (timers m)\<rparr>"
    by (simp add: removeTimer_def cancel_def[abs_def])
  then have "cancel t = t" using t(1) by (simp add: find_modify_timer same(2))
  then show False using t(2) cancel_simps(3)[of t] by simp
qed

section \<open>Termination of update\<close>

text \<open>
  \<^verbatim>\<open>update\<close> returns if the clock, as read meanwhile, stays below some time \<open>T\<close>, callbacks cancel
  timers but add none, every timer that can fire has a callback, and every timer that repeats for
  ever has an interval of at least a millisecond; one-shot timers and timers with a repeat count may
  have any interval. A timer weighs the firings it has left, or those due by \<open>T\<close> if it repeats for ever.
\<close>

definition weight :: "timestamp \<Rightarrow> timer \<Rightarrow> nat" where
  "weight T t =
     (if repeatTimes t = kRepeatForever
      then (if expiredTime t \<le> T then nat ((T - expiredTime t) div 1000) + 2 else 1)
      else nat (repeatTimes t) + 1)"

definition total :: "timestamp \<Rightarrow> (timestamp \<times> timer) list \<Rightarrow> nat" where
  "total T ts = sum_list (map (\<lambda>e. weight T (snd e)) ts)"

definition removes_only :: "tm_body \<Rightarrow> bool" where
  "removes_only body \<longleftrightarrow> (\<forall>cb fs. \<forall>c \<in> set (body cb fs). \<exists>i. c = RemoveTimer i)"

definition lively :: "timer_manager \<Rightarrow> bool" where
  "lively m \<longleftrightarrow> (\<forall>i t. find_timer i (timers m) = Some t \<and> isRepeatable t \<longrightarrow>
     timerCallback t \<noteq> None \<and> (repeatTimes t = kRepeatForever \<longrightarrow> 1 \<le> interval t))"

lemma weight_pos: "0 < weight T t"
  by (simp add: weight_def)

lemma total_mm_insert: "total T (mm_insert k t ts) = weight T t + total T ts"
  by (induction k t ts rule: mm_insert.induct) (auto simp: total_def)

lemma total_erase:
  "find_timer i ts = Some t \<Longrightarrow> distinct (map key_of ts) \<Longrightarrow> total T (erase_timer i ts) + weight T t = total T ts"
proof (induction ts)
  case (Cons e ts)
  show ?case
  proof (cases "key_of e = i")
    case True
    then have "i \<notin> key_of ` set ts" using Cons.prems(2) by simp
    then have "\<forall>x \<in> set ts. key_of x \<noteq> i" by blast
    then have "erase_timer i ts = ts" by (simp add: erase_timer_def)
    then show ?thesis using True Cons.prems(1) by (simp add: total_def erase_timer_def)
  next
    case False
    then show ?thesis using Cons by (simp add: total_def erase_timer_def)
  qed
qed simp

lemma erase_modify: "keeps_id f \<Longrightarrow> erase_timer i (modify_timer i f ts) = erase_timer i ts"
  by (induction ts) (auto simp: erase_timer_def modify_timer_def key_of_def keeps_id_def)

lemma total_cancel: "total T (erase_timer i (modify_timer j cancel ts)) \<le> total T (erase_timer i ts)"
proof (induction ts)
  case (Cons e ts)
  have "weight T (cancel (snd e)) = 1"
    by (simp add: weight_def cancel_def setRepeatTimes_def setExpiredTime_def kRepeatForever_def)
  then have "weight T (cancel (snd e)) \<le> weight T (snd e)" using weight_pos[of T "snd e"] by simp
  then show ?case using Cons by (auto simp: total_def erase_timer_def modify_timer_def key_of_def)
qed (simp add: modify_timer_def)

lemma exec_removes:
  "\<forall>c \<in> set cs. \<exists>i. c = RemoveTimer i \<Longrightarrow>
   total T (erase_timer i (timers (tm_exec cs m))) \<le> total T (erase_timer i (timers m)) \<and>
   timerIdGenerator (tm_exec cs m) = timerIdGenerator m"
proof (induction cs m rule: tm_exec.induct)
  case (3 j cs m)
  have "total T (erase_timer i (timers (removeTimer j m))) \<le> total T (erase_timer i (timers m)) \<and>
      timerIdGenerator (removeTimer j m) = timerIdGenerator m"
    using removeTimer_cases[of j m] total_cancel[of T i "id_key j" "timers m"] by auto
  then show ?case using 3 by force
qed auto

lemma weight_afterCallback:
  assumes "isRepeatable t" and "expiredTime t \<le> now" and "now \<le> T"
    and "repeatTimes t = kRepeatForever \<longrightarrow> 1 \<le> interval t"
  shows "weight T (afterCallback now t) < weight T t"
proof (cases "repeatTimes t = kRepeatForever")
  case False
  then have "0 < repeatTimes t" using assms(1) by (simp add: isRepeatable_def)
  then show ?thesis using False
    by (auto simp: weight_def afterCallback_def setRepeatTimes_def setExpiredTime_def kRepeatForever_def Let_def)
next
  case True
  have later: "expiredTime t + 1000 \<le> expiredTime (afterCallback now t)"
    using assms(2,4) True by (simp add: plusMilliseconds_def time_consts)
  then have "(T - expiredTime (afterCallback now t)) div 1000 \<le> (T - expiredTime t) div 1000 - 1"
    using zdiv_mono1[of "T - expiredTime (afterCallback now t)" "T - expiredTime t - 1000" 1000]
      div_diff[of 1000 1000 "T - expiredTime t"] by (simp add: minus_div_mult_eq_mod)
  moreover have "0 \<le> (T - expiredTime t) div 1000" using assms(2,3) by (simp add: pos_imp_zdiv_nonneg_iff)
  moreover have "expiredTime (afterCallback now t) \<le> T \<Longrightarrow> 0 \<le> (T - expiredTime (afterCallback now t)) div 1000"
    by (simp add: pos_imp_zdiv_nonneg_iff)
  moreover have "repeatTimes (afterCallback now t) = kRepeatForever"
    using True by (simp add: afterCallback_def setRepeatTimes_def setExpiredTime_def kRepeatForever_def Let_def)
  ultimately show ?thesis using assms(2,3) True by (auto simp: weight_def)
qed

lemma turn_lighter:
  assumes inv: "tm_inv m" and it: "find_timer i (timers m) = Some t" and live: "lively m"
    and body: "removes_only body" and clock: "clock (clockReads m) \<le> T"
    and turn: "updateBody body clock i m = Inr (Inr (it', m'))"
  shows "total T (timers m') < total T (timers m) \<and> timerIdGenerator m' = timerIdGenerator m"
proof -
  define m0 where "m0 = m\<lparr>clockReads := Suc (clockReads m)\<rparr>"
  define now where "now = clock (clockReads m)"
  define m1 where "m1 = onTimer body now i t m0"
  from updateBody_cases[OF inv it, of clock body] turn obtain t1 where
    t1: "isExpired now t" "find_timer i (timers m1) = Some t1"
      "m' = m1\<lparr>timers := (if isRepeatable t1 then mm_insert (expiredTime t1) t1 (erase_timer i (timers m1))
             else erase_timer i (timers m1))\<rparr>"
    by (auto simp: m1_def m0_def now_def split: if_splits)
  have gen: "i < timerIdGenerator m"
    using inv it find_timer_None_iff[of i "timers m"] by (fastforce simp: tm_wf_def)
  have inv0: "tm_inv m0" "find_timer i (timers m0) = Some t" using inv it by (simp_all add: m0_def tm_wf_def)
  have rest: "total T (erase_timer i (timers m1)) \<le> total T (erase_timer i (timers m)) \<and>
      timerIdGenerator m1 = timerIdGenerator m"
  proof (cases "timerCallback t")
    case (Some cb)
    define m2 where "m2 = m0\<lparr>firings := firings m0 @ [\<lparr>f_key = i, f_due = expiredTime t, f_now = now\<rparr>]\<rparr>"
    have "\<forall>c \<in> set (body cb (firings m2)). \<exists>i. c = RemoveTimer i" using body by (auto simp: removes_only_def)
    from exec_removes[OF this, of T i m2] show ?thesis
      unfolding m1_def onTimer_def Some by (simp add: erase_modify Let_def m2_def m0_def)
  qed (simp add: m1_def onTimer_def m0_def)
  have whole: "total T (erase_timer i (timers m)) + weight T t = total T (timers m)"
    using total_erase[OF it] inv by (simp add: tm_wf_def)
  have "isRepeatable t1 \<Longrightarrow> weight T t1 < weight T t"
  proof -
    assume r: "isRepeatable t1"
    from onTimer_find[OF inv0, of i body now] gen obtain g where g: "g = id \<or> g = cancel"
      "find_timer i (timers m1) = (if i = i \<and> timerCallback t \<noteq> None \<and> isRepeatable t
         then Some (afterCallback now (g t)) else map_option g (find_timer i (timers m0)))"
      unfolding m1_def[symmetric] by (auto simp: m0_def)
    have "isRepeatable t \<Longrightarrow> timerCallback t \<noteq> None \<and> (repeatTimes t = kRepeatForever \<longrightarrow> 1 \<le> interval t)"
      using live it by (auto simp: lively_def)
    then have "isRepeatable t" "repeatTimes t = kRepeatForever \<longrightarrow> 1 \<le> interval t" "t1 = afterCallback now t"
      using g t1(2) r inv0(2) by (auto simp: repeat_cases kRepeatForever_def split: if_splits)
    then show ?thesis using weight_afterCallback[of t now T] t1(1) clock
      by (simp add: isExpired_def expiredTime_def now_def)
  qed
  then show ?thesis
    using rest whole weight_pos[of T t] t1(3) by (auto simp: total_mm_insert)
qed

lemma turn_lively:
  assumes "tm_inv m" and it: "find_timer i (timers m) = Some t" and "lively m"
    and "removes_only body" and "clock (clockReads m) \<le> T"
    and "updateBody body clock i m = Inr (Inr (it', m'))" and inv': "tm_inv m'"
  shows "lively m'"
  unfolding lively_def
proof (intro allI impI)
  fix j u assume u: "find_timer j (timers m') = Some u \<and> isRepeatable u"
  have "j < timerIdGenerator m'"
    using u inv' find_timer_None_iff[of j "timers m'"] by (fastforce simp: tm_wf_def)
  then have j: "j < timerIdGenerator m" using turn_lighter[OF assms(1-6)] by simp
  have was: "\<And>v k. find_timer k (timers m) = Some v \<Longrightarrow> isRepeatable v \<Longrightarrow>
      timerCallback v \<noteq> None \<and> (repeatTimes v = kRepeatForever \<longrightarrow> 1 \<le> interval v)"
    using assms(3) by (auto simp: lively_def)
  show "timerCallback u \<noteq> None \<and> (repeatTimes u = kRepeatForever \<longrightarrow> 1 \<le> interval u)"
  proof (cases "j = i \<and> timerCallback t \<noteq> None \<and> isRepeatable t")
    case True
    then have "u = afterCallback (clock (clockReads m)) t"
      using turn_other[OF assms(1) it j assms(6)] u by simp
    moreover have "repeatTimes (afterCallback now t) = kRepeatForever \<longrightarrow> repeatTimes t = kRepeatForever" for now
      by (auto simp: afterCallback_def setRepeatTimes_def setExpiredTime_def kRepeatForever_def Let_def)
    ultimately show ?thesis using True was[OF it] by simp
  next
    case False
    then have "find_timer j (timers m) = Some u"
      using turn_other[OF assms(1) it j assms(6)] u unfolding if_not_P[OF False] by blast
    then show ?thesis using was u by blast
  qed
qed

lemma updateLoop_returns:
  assumes body: "removes_only body" and clock: "\<And>n. clock n \<le> T"
  shows "tm_inv m \<Longrightarrow> lively m \<Longrightarrow> valid_it it m \<Longrightarrow> \<exists>m'. updateLoop body clock it m = Some (Inr m')"
proof (induction "total T (timers m)" arbitrary: it m rule: less_induct)
  case less
  show ?case
  proof (cases it)
    case None then show ?thesis by (simp add: updateLoop.simps)
  next
    case (Some i)
    then obtain t where t: "find_timer i (timers m) = Some t" using less.prems(3) by (auto simp: valid_it_def)
    note turn = updateBody_cases[OF less.prems(1) t, of clock body]
    show ?thesis
    proof (cases "isExpired (clock (clockReads m)) t")
      case False
      then show ?thesis using turn Some by (simp add: updateLoop.simps)
    next
      case True
      with turn obtain it' m' where m': "updateBody body clock i m = Inr (Inr (it', m'))" "tm_inv m'" "valid_it it' m'"
        by auto
      have "total T (timers m') < total T (timers m)" "lively m'"
        using turn_lighter[OF less.prems(1) t less.prems(2) body clock m'(1)]
          turn_lively[OF less.prems(1) t less.prems(2) body clock m'(1,2)] by auto
      from less.hyps[OF this(1) m'(2) this(2) m'(3)] show ?thesis
        using Some m'(1) by (subst updateLoop.simps) simp
    qed
  qed
qed

definition tm_empty :: timer_manager where
  "tm_empty = \<lparr>timers = [], timerIdGenerator = 0, clockReads = 0, firings = []\<rparr>"

lemma tm_inv_empty [simp]: "tm_inv tm_empty"
  by (simp add: tm_wf_def tm_empty_def)

text \<open>For evaluation on concrete timers.\<close>

lemmas timer_demo = isExpired_def isRepeatable_def kRepeatForever_def expiredTime_def afterCallback_def
  setExpiredTime_def setRepeatTimes_def plusMilliseconds_def time_consts key_of_def timer_move_def

section \<open>Properties\<close>

text \<open>
  C34. Schedules. A timer added to a well-formed manager fires, in whatever history of
  additions, cancellations (also from inside callbacks) and updates follows, exactly on its
  schedule: first due at the given time, then an interval after the previous due time or, with
  a fixed delay, after the previous firing; never before it is due; and never more often than
  its repeat count.
\<close>

theorem timer_schedule_exact:
  assumes "tm_inv m" and "addTimer E n I fd cb m = (i, m1)" and "tm_reach body clock m1 m'"
  shows "on_schedule E n I fd (firings_of (id_key i) m')"
proof -
  have "tm_inv m1" "sched E n I fd (id_key i) m1" using addTimer_sched[OF assms(1,2)] by simp_all
  from tm_reach_sched[OF assms(3) this] show ?thesis unfolding sched_def by blast
qed

theorem timer_schedule_exact_witness:
  "\<exists>i m1 m'. addTimer 10 2 5 False (Some 0) tm_empty = (i, m1) \<and>
     update (\<lambda>cb fs. []) (\<lambda>n. 5010) m1 = Inr m' \<and>
     map f_due (firings_of (id_key i) m') = [10, 5010] \<and>
     on_schedule 10 2 5 False (firings_of (id_key i) m')"
proof -
  obtain i m1 where add: "addTimer 10 2 5 False (Some 0) tm_empty = (i, m1)" by force
  define m' where "m' = m1\<lparr>timers := [], clockReads := 2, firings := [
    \<lparr>f_key = 0, f_due = 10, f_now = 5010\<rparr>, \<lparr>f_key = 0, f_due = 5010, f_now = 5010\<rparr>]\<rparr>"
  have run: "update (\<lambda>cb fs. []) (\<lambda>n. 5010) m1 = Inr m'"
    using add unfolding m'_def
    by (auto simp: addTimer_def tm_empty_def timer_new_def update_def updateLoop.simps updateBody_def
        onTimer_def Let_def modify_timer_def erase_timer_def timer_demo)
  have "tm_reach (\<lambda>cb fs. []) (\<lambda>n. 5010) m1 m'" by (rule tm_update[OF tm_here run])
  from timer_schedule_exact[OF tm_inv_empty add this] show ?thesis
    using add run by (auto simp: m'_def firings_of_def addTimer_def tm_empty_def timer_new_def)
qed

text \<open>
  Cancellation. Once a timer with a non-negative interval has been removed, it never fires
  again, whatever happens later.
\<close>

lemma cancelled_timer_never_fires:
  assumes "tm_inv m" and "addTimer E n I fd cb m = (i, m1)" and "0 \<le> I"
    and "tm_reach body clock m1 m2" and "tm_reach body clock (removeTimer i m2) m3"
  shows "firings_of (id_key i) m3 = firings_of (id_key i) m2"
proof -
  have m1: "tm_inv m1" "sched E n I fd (id_key i) m1" "id_value i = E"
    using addTimer_sched[OF assms(1,2)] by simp_all
  have m2: "tm_inv m2" "sched E n I fd (id_key i) m2" using tm_reach_sched[OF assms(4) m1(1,2)] by simp_all
  have "dead (id_key i) (removeTimer i m2)" by (rule removeTimer_dead[OF m2 m1(3) assms(3)])
  moreover have "firings_of (id_key i) (removeTimer i m2) = firings_of (id_key i) m2"
    using removeTimer_cases[of i m2] by (auto simp: firings_of_def)
  ultimately show ?thesis
    using tm_reach_dead[OF assms(5) tm_wf_removeTimer[OF m2(1)]] by blast
qed

text \<open>
  C35. Termination. \<^verbatim>\<open>update\<close> returns, without dangling iterators and with the invariant kept, if
  the clock as read meanwhile is bounded, callbacks add no timers (they may cancel any), every timer
  that can fire has a callback, and every timer that repeats for ever has an interval of at least a
  millisecond. One-shot timers, which \<^verbatim>\<open>EventLoop::schedule\<close> makes with the interval 0, and timers with
  a repeat count may have any interval.
\<close>

theorem update_terminates:
  assumes "tm_inv m" and "lively m" and "removes_only body" and "\<forall>n. clock n \<le> T"
  shows "\<exists>m'. update body clock m = Inr m' \<and> tm_inv m'"
proof (cases "timers m")
  case Nil then show ?thesis using assms(1) by (simp add: update_def)
next
  case (Cons e es)
  have "\<exists>m'. updateLoop body clock (Some (key_of e)) m = Some (Inr m')"
    using assms Cons by (intro updateLoop_returns) (auto simp: valid_it_def)
  then obtain m' where run: "update body clock m = Inr m'" using Cons by (auto simp: update_def)
  moreover have "turn_keeps body clock (\<lambda>m. True)" by (simp add: turn_keeps_def)
  ultimately show ?thesis using update_keeps[OF _ assms(1) _ run] by blast
qed

theorem update_terminates_witness:
  "\<exists>m'. update (\<lambda>cb fs. []) (\<lambda>n. 5010)
     (snd (addTimer 20 1 0 False (Some 1) (snd (addTimer 10 (-1) 5 False (Some 0) tm_empty)))) = Inr m' \<and> tm_inv m'"
proof (rule update_terminates[where T = 5010])
  show "tm_inv (snd (addTimer 20 1 0 False (Some 1) (snd (addTimer 10 (-1) 5 False (Some 0) tm_empty))))"
    by (simp add: tm_wf_addTimer)
qed (auto simp: lively_def addTimer_def timer_new_def tm_empty_def removes_only_def kRepeatForever_def Let_def split: if_splits)

text \<open>
  The poll timeout: \<^verbatim>\<open>nearestTimerRemainingExpiredTime\<close> is -1 exactly without timers, 0 if
  the earliest entry of the map is due, and otherwise the time until the earliest entry, in
  milliseconds rounded down.
\<close>

lemma nearest_remaining:
  assumes "tm_inv m" and "nearestTimerRemainingExpiredTime clock m = (r, m')"
  shows "if timers m = [] then r = -1
    else let first = Min (fst ` set (timers m)); now = clock (clockReads m)
         in (if first \<le> now then r = 0 else r * 1000 \<le> first - now \<and> first - now < (r + 1) * 1000)"
proof (cases "timers m")
  case Nil then show ?thesis using assms(2) by (simp add: nearestTimerRemainingExpiredTime_def)
next
  case (Cons e es)
  then have "Min (fst ` set (timers m)) = fst e"
    using assms(1) by (intro Min_eqI) (auto simp: tm_wf_def)
  moreover have "0 \<le> d \<Longrightarrow> cdiv d 1000 * 1000 \<le> d \<and> d < (cdiv d 1000 + 1) * 1000" for d
    by (simp add: cdiv_def) presburger
  ultimately show ?thesis
    using Cons assms(2)
    by (cases e) (auto simp: nearestTimerRemainingExpiredTime_def Let_def millisecondsSinceEpoch_def
        minusMicroseconds_def time_consts split: if_splits)
qed

text \<open>
  A timer that is caught up onto the time of the next one overtakes it: of a timer due at
  10 with interval 10 ms and one due at 10010, one update at time 10010 runs the first twice
  and the second not at all, although it is due.
\<close>

lemma update_skips_equal_timer:
  "\<exists>m'. update (\<lambda>cb fs. []) (\<lambda>n. 10010)
      (snd (addTimer 10010 1 0 False (Some 1) (snd (addTimer 10 (-1) 10 False (Some 0) tm_empty)))) = Inr m' \<and>
    map f_key (firings m') = [0, 0] \<and> map (\<lambda>e. (fst e, key_of e)) (timers m') = [(10010, 1), (20010, 0)]"
  by (simp add: addTimer_def tm_empty_def timer_new_def update_def updateLoop.simps updateBody_def
      onTimer_def Let_def modify_timer_def erase_timer_def timer_demo)

end
