(* ===== verification/Event_Loop.thy ===== *)
theory Event_Loop
  imports Timer_Manager
begin

text \<open>
  \<^verbatim>\<open>nets/net/core/EventLoop\<close>, \<^verbatim>\<open>nets/net/channel/NotifyChannel\<close> and \<^verbatim>\<open>EventLoopGroup\<close>. The loop thread
  and any number of other threads that post tasks or call \<^verbatim>\<open>shutdown\<close> are a step relation: each
  critical section, each store to \<^verbatim>\<open>running_\<close> and each write to or read from the event descriptor
  is a step. Timer callbacks, tasks and channel handlers are user code: at those points of the
  loop the relation allows any calls of \<^verbatim>\<open>addTask\<close> and \<^verbatim>\<open>shutdown\<close>.
\<close>

section \<open>The wait passed to the poller\<close>

definition kDefaultPollTimeout :: int where "kDefaultPollTimeout = 3000"
definition kMinimumPollTimeout :: int where "kMinimumPollTimeout = 1"

definition pollTimeout :: "int \<Rightarrow> int" where
  "pollTimeout remainingExpiredTime =
     (let timeout = (if remainingExpiredTime = -1 then kDefaultPollTimeout
                     else min remainingExpiredTime kDefaultPollTimeout)
      in max kMinimumPollTimeout timeout)"

text \<open>The three ways to schedule a callback; the clock is read first.\<close>

definition now_plus :: "(nat \<Rightarrow> timestamp) \<Rightarrow> int \<Rightarrow> timer_manager \<Rightarrow> timestamp \<times> timer_manager" where
  "now_plus clock delay m =
     (plusMilliseconds delay (clock (clockReads m)), m\<lparr>clockReads := Suc (clockReads m)\<rparr>)"

definition schedule :: "(nat \<Rightarrow> timestamp) \<Rightarrow> int \<Rightarrow> nat \<Rightarrow> timer_manager \<Rightarrow> timer_id \<times> timer_manager" where
  "schedule clock delay fn m =
     (case now_plus clock delay m of (t, m) \<Rightarrow> addTimer t 1 0 False (Some fn) m)"

definition scheduleAtFixedRate ::
    "(nat \<Rightarrow> timestamp) \<Rightarrow> int \<Rightarrow> int \<Rightarrow> nat \<Rightarrow> timer_manager \<Rightarrow> timer_id \<times> timer_manager" where
  "scheduleAtFixedRate clock initDelay intv fn m =
     (case now_plus clock initDelay m of (t, m) \<Rightarrow> addTimer t kRepeatForever intv False (Some fn) m)"

definition scheduleAtFixedDelay ::
    "(nat \<Rightarrow> timestamp) \<Rightarrow> int \<Rightarrow> int \<Rightarrow> nat \<Rightarrow> timer_manager \<Rightarrow> timer_id \<times> timer_manager" where
  "scheduleAtFixedDelay clock initDelay delay fn m =
     (case now_plus clock initDelay m of (t, m) \<Rightarrow> addTimer t kRepeatForever delay True (Some fn) m)"

definition cancelScheduleTask :: "timer_id \<Rightarrow> timer_manager \<Rightarrow> timer_manager" where
  "cancelScheduleTask timerId m = removeTimer timerId m"

section \<open>The loop and its posters\<close>

text \<open>
  Program points of the loop thread: before \<^verbatim>\<open>run\<close>, at the test of the while loop, in
  \<^verbatim>\<open>TimerManager::update\<close>, in \<^verbatim>\<open>runPendingTasks\<close> before the flag is set, before the swap, between two
  tasks and inside one (with the tasks left of the batch), about to poll, handling the ready
  channels (the flag tells that the notifier is still among them), between the push and the
  notification of an \<^verbatim>\<open>addTask\<close> made at some point, and after the loop.
\<close>

datatype loop_pc =
    LStart | LTest | LTimers | LFlag | LSwap | LRun "nat list" | LTask "nat list" | LPoll | LHandle bool
  | LPosted loop_pc | LEnd

record event_loop =
  running :: bool
  pendingTasks :: "nat list"
  runningPendingTasks :: bool
  eventFd :: nat
  loopPc :: loop_pc
  notifiers :: nat
  posted :: "nat list"
  executed :: "nat list"

text \<open>\<open>notifiers\<close> counts the other threads that are about to notify; \<open>posted\<close> and \<open>executed\<close> are ghosts.\<close>

definition el_new :: event_loop where
  "el_new = \<lparr>running = False, pendingTasks = [], runningPendingTasks = False, eventFd = 0, loopPc = LStart,
     notifiers = 0, posted = [], executed = []\<rparr>"

text \<open>
  The event descriptor counts up to \<open>2 ^ 64 - 2\<close>; a write that would pass that fails and is only
  logged. Reading gives the count and resets it.
\<close>

definition notify :: "event_loop \<Rightarrow> event_loop" where
  "notify s = (if eventFd s + 1 \<le> 2 ^ 64 - 2 then s\<lparr>eventFd := eventFd s + 1\<rparr> else s)"

definition notifier_handleReadEvent :: "event_loop \<Rightarrow> event_loop" where
  "notifier_handleReadEvent s = s\<lparr>eventFd := 0\<rparr>"

definition addTask_push :: "nat \<Rightarrow> event_loop \<Rightarrow> event_loop" where
  "addTask_push t s = s\<lparr>pendingTasks := pendingTasks s @ [t], posted := posted s @ [t]\<rparr>"

definition addTask_notify :: "bool \<Rightarrow> event_loop \<Rightarrow> event_loop" where
  "addTask_notify isInCurrentEventLoop s =
     (if \<not> isInCurrentEventLoop \<or> runningPendingTasks s then notify s else s)"

fun in_user_code :: "loop_pc \<Rightarrow> bool" where
  "in_user_code LTimers = True" | "in_user_code (LTask ts) = True" | "in_user_code (LHandle b) = True"
| "in_user_code _ = False"

inductive loop_step :: "event_loop \<Rightarrow> event_loop \<Rightarrow> bool" where
  run_start: "loopPc s = LStart \<Longrightarrow> loop_step s (s\<lparr>running := True, loopPc := LTest\<rparr>)"
| run_test: "loopPc s = LTest \<Longrightarrow> running s \<Longrightarrow> loop_step s (s\<lparr>loopPc := LTimers\<rparr>)"
| run_exit: "loopPc s = LTest \<Longrightarrow> \<not> running s \<Longrightarrow> loop_step s (s\<lparr>loopPc := LEnd\<rparr>)"
| timers_done: "loopPc s = LTimers \<Longrightarrow> loop_step s (s\<lparr>loopPc := LFlag\<rparr>)"
| tasks_flag: "loopPc s = LFlag \<Longrightarrow> loop_step s (s\<lparr>runningPendingTasks := True, loopPc := LSwap\<rparr>)"
| tasks_swap: "loopPc s = LSwap \<Longrightarrow> loop_step s (s\<lparr>pendingTasks := [], loopPc := LRun (pendingTasks s)\<rparr>)"
| task_call: "loopPc s = LRun (t # ts) \<Longrightarrow> loop_step s (s\<lparr>loopPc := LTask ts, executed := executed s @ [t]\<rparr>)"
| task_return: "loopPc s = LTask ts \<Longrightarrow> loop_step s (s\<lparr>loopPc := LRun ts\<rparr>)"
| tasks_done: "loopPc s = LRun [] \<Longrightarrow> loop_step s (s\<lparr>runningPendingTasks := False, loopPc := LPoll\<rparr>)"
| poll_notified: "loopPc s = LPoll \<Longrightarrow> 0 < eventFd s \<Longrightarrow> loop_step s (s\<lparr>loopPc := LHandle True\<rparr>)"
| poll_other: "loopPc s = LPoll \<Longrightarrow> loop_step s (s\<lparr>loopPc := LHandle False\<rparr>)"
| handle_notifier: "loopPc s = LHandle True \<Longrightarrow>
    loop_step s ((notifier_handleReadEvent s)\<lparr>loopPc := LHandle False\<rparr>)"
| handle_done: "loopPc s = LHandle False \<Longrightarrow> loop_step s (s\<lparr>loopPc := LTest\<rparr>)"
| user_push: "in_user_code (loopPc s) \<Longrightarrow> loop_step s ((addTask_push t s)\<lparr>loopPc := LPosted (loopPc s)\<rparr>)"
| user_notify: "loopPc s = LPosted pc \<Longrightarrow> loop_step s ((addTask_notify True s)\<lparr>loopPc := pc\<rparr>)"
| user_shutdown: "in_user_code (loopPc s) \<Longrightarrow> loop_step s (s\<lparr>running := False\<rparr>)"
| other_push: "loop_step s ((addTask_push t s)\<lparr>notifiers := notifiers s + 1\<rparr>)"
| other_shutdown: "loop_step s (s\<lparr>running := False, notifiers := notifiers s + 1\<rparr>)"
| other_notify: "notifiers s = Suc n \<Longrightarrow> loop_step s ((addTask_notify False s)\<lparr>notifiers := n\<rparr>)"

inductive_cases loop_stepE: "loop_step s s'"

abbreviation loop_steps :: "event_loop \<Rightarrow> event_loop \<Rightarrow> bool" where
  "loop_steps \<equiv> loop_step\<^sup>*\<^sup>*"

section \<open>The group\<close>

record 'l event_loop_group =
  nextLoop :: nat
  eventLoops :: "'l list"

definition group_next :: "'l event_loop_group \<Rightarrow> ('l \<times> 'l event_loop_group) res" where
  "group_next g =
     (if nextLoop g < length (eventLoops g)
      then (let n = nextLoop g + 1
            in Inr (eventLoops g ! nextLoop g, g\<lparr>nextLoop := (if n \<ge> length (eventLoops g) then 0 else n)\<rparr>))
      else Inl Undefined)"

definition group_shutdown :: "event_loop event_loop_group \<Rightarrow> event_loop event_loop_group" where
  "group_shutdown g =
     g\<lparr>eventLoops := map (\<lambda>s. if running s then s\<lparr>running := False, notifiers := notifiers s + 1\<rparr> else s)
       (eventLoops g)\<rparr>"

definition group_isShutdown :: "event_loop event_loop_group \<Rightarrow> bool" where
  "group_isShutdown g = list_all (\<lambda>s. \<not> running s) (eventLoops g)"

fun group_nexts :: "nat \<Rightarrow> 'l event_loop_group \<Rightarrow> ('l list \<times> 'l event_loop_group) res" where
  "group_nexts 0 g = Inr ([], g)"
| "group_nexts (Suc n) g =
     ebind (group_next g) (\<lambda>(l, g'). ebind (group_nexts n g') (\<lambda>(ls, g''). Inr (l # ls, g'')))"

section \<open>Invariant of the loop\<close>

fun batch :: "loop_pc \<Rightarrow> nat list" where
  "batch (LRun ts) = ts" | "batch (LTask ts) = ts" | "batch (LPosted pc) = batch pc" | "batch _ = []"

text \<open>The points between the swap and the poll; there a task pushed now waits for the next turn.\<close>

fun before_poll :: "loop_pc \<Rightarrow> bool" where
  "before_poll (LRun ts) = True" | "before_poll (LTask ts) = True" | "before_poll LPoll = True" | "before_poll _ = False"

fun in_tasks :: "loop_pc \<Rightarrow> bool" where
  "in_tasks LSwap = True" | "in_tasks (LRun ts) = True" | "in_tasks (LTask ts) = True"
| "in_tasks (LPosted pc) = in_tasks pc" | "in_tasks _ = False"

fun posted_ok :: "loop_pc \<Rightarrow> bool" where
  "posted_ok (LPosted pc) = in_user_code pc" | "posted_ok _ = True"

definition loop_inv :: "event_loop \<Rightarrow> bool" where
  "loop_inv s \<longleftrightarrow>
     posted s = executed s @ batch (loopPc s) @ pendingTasks s \<and>
     runningPendingTasks s = in_tasks (loopPc s) \<and> posted_ok (loopPc s) \<and>
     (before_poll (loopPc s) \<longrightarrow> pendingTasks s \<noteq> [] \<longrightarrow> 0 < eventFd s \<or> 0 < notifiers s)"

lemma notify_simps [simp]:
  "running (notify s) = running s" "pendingTasks (notify s) = pendingTasks s" "loopPc (notify s) = loopPc s"
  "runningPendingTasks (notify s) = runningPendingTasks s" "notifiers (notify s) = notifiers s"
  "posted (notify s) = posted s" "executed (notify s) = executed s" "0 < eventFd (notify s)"
  by (auto simp: notify_def)

lemma loop_inv_new: "loop_inv el_new"
  by (simp add: loop_inv_def el_new_def)

lemma loop_step_inv:
  assumes "loop_step s s'" and "loop_inv s"
  shows "loop_inv s'"
  using assms
  by (cases rule: loop_step.cases)
    (auto simp: loop_inv_def addTask_push_def addTask_notify_def notifier_handleReadEvent_def elim!: in_user_code.elims)

lemma loop_steps_inv: "loop_steps el_new s \<Longrightarrow> loop_inv s"
  by (induction rule: rtranclp_induct) (use loop_inv_new loop_step_inv in auto)

text \<open>
  C31. Tasks run once and in the order in which they were posted, whichever threads post them: in
  every reachable state the tasks posted so far are those executed, followed by the rest of the
  batch in progress, followed by those pending.
\<close>

theorem event_loop_tasks_fifo:
  assumes "loop_steps el_new s"
  shows "posted s = executed s @ batch (loopPc s) @ pendingTasks s"
  using loop_steps_inv[OF assms] by (simp add: loop_inv_def)

text \<open>
  C30. No task sleeps through a poll: whenever the loop is about to block in the poller while tasks
  are pending, the event descriptor is already readable, so the poll returns at once, or another
  thread is just about to write to it.
\<close>

theorem event_loop_no_lost_wakeup:
  assumes "loop_steps el_new s" and "loopPc s = LPoll" and "pendingTasks s \<noteq> []"
  shows "0 < eventFd s \<or> 0 < notifiers s"
  using loop_steps_inv[OF assms(1)] assms(2,3) by (simp add: loop_inv_def)

section \<open>Shutdown\<close>

text \<open>The points from the poll to the end of the turn.\<close>

fun after_tasks :: "loop_pc \<Rightarrow> bool" where
  "after_tasks LPoll = True" | "after_tasks (LHandle b) = True" | "after_tasks LTest = True" | "after_tasks LEnd = True"
| "after_tasks (LPosted pc) = (case pc of LHandle b \<Rightarrow> True | _ \<Rightarrow> False)" | "after_tasks _ = False"

lemma loop_step_stopped:
  assumes "loop_step s s'" and "\<not> running s" and "loopPc s \<noteq> LStart" and "posted_ok (loopPc s)"
  shows "\<not> running s' \<and> loopPc s' \<noteq> LStart \<and>
         (after_tasks (loopPc s) \<longrightarrow> after_tasks (loopPc s') \<and> executed s' = executed s)"
  using assms
  by (cases rule: loop_step.cases)
    (auto simp: addTask_push_def addTask_notify_def notifier_handleReadEvent_def elim!: in_user_code.elims
      split: loop_pc.splits)

text \<open>
  Shutdown is final once the loop runs: after \<^verbatim>\<open>running_\<close> has been cleared at any point after
  the start of \<^verbatim>\<open>run\<close>, it stays cleared, and when the task phase of the current turn is over no
  task is executed any more, whatever is posted.
\<close>

lemma event_loop_shutdown_final:
  assumes "loop_steps el_new s" and "\<not> running s" and "loopPc s \<noteq> LStart" and "loop_steps s s'"
  shows "\<not> running s' \<and> (after_tasks (loopPc s) \<longrightarrow> executed s' = executed s)"
proof -
  from assms(4) have "loop_inv s' \<and> \<not> running s' \<and> loopPc s' \<noteq> LStart \<and>
      (after_tasks (loopPc s) \<longrightarrow> after_tasks (loopPc s') \<and> executed s' = executed s)"
  proof induction
    case base then show ?case using assms(2,3) loop_steps_inv[OF assms(1)] by simp
  next
    case (step t u)
    then show ?case using loop_step_stopped[OF step(2)] loop_step_inv[OF step(2)] by (auto simp: loop_inv_def)
  qed
  then show ?thesis by simp
qed

text \<open>A shutdown that comes before \<^verbatim>\<open>run\<close> is lost: the loop starts all the same.\<close>

lemma shutdown_before_run_lost:
  assumes "loop_step s s'" and "loopPc s = LStart" and "loopPc s' \<noteq> LStart"
  shows "running s'"
  using assms by (cases rule: loop_step.cases) (auto simp: addTask_push_def addTask_notify_def)

section \<open>A concrete run\<close>

text \<open>A task is posted while the loop is between its tasks and its poll.\<close>

abbreviation el_at :: "loop_pc \<Rightarrow> event_loop" where
  "el_at pc \<equiv> el_new\<lparr>running := True, runningPendingTasks := in_tasks pc, loopPc := pc\<rparr>"

abbreviation el_posted :: "bool \<Rightarrow> loop_pc \<Rightarrow> event_loop" where
  "el_posted run pc \<equiv> el_new\<lparr>running := run, loopPc := pc, pendingTasks := [7], posted := [7], notifiers := (if run then 1 else 2)\<rparr>"

lemmas loop_via = converse_rtranclp_into_rtranclp[of loop_step]

lemma el_run_posted: "loop_steps el_new (el_posted True LPoll)"
proof -
  have 1: "loop_step el_new (el_at LTest)" using run_start[of el_new] by (simp add: el_new_def)
  have 2: "loop_step (el_at LTest) (el_at LTimers)" using run_test[of "el_at LTest"] by (simp add: el_new_def)
  have 3: "loop_step (el_at LTimers) (el_at LFlag)" using timers_done[of "el_at LTimers"] by (simp add: el_new_def)
  have 4: "loop_step (el_at LFlag) (el_at LSwap)" using tasks_flag[of "el_at LFlag"] by (simp add: el_new_def)
  have 5: "loop_step (el_at LSwap) (el_at (LRun []))" using tasks_swap[of "el_at LSwap"] by (simp add: el_new_def)
  have 6: "loop_step (el_at (LRun [])) (el_at LPoll)" using tasks_done[of "el_at (LRun [])"] by (simp add: el_new_def)
  have 7: "loop_step (el_at LPoll) (el_posted True LPoll)"
    using other_push[of "el_at LPoll" 7] by (simp add: el_new_def addTask_push_def)
  show ?thesis
    by (rule loop_via[OF 1 loop_via[OF 2 loop_via[OF 3 loop_via[OF 4 loop_via[OF 5 loop_via[OF 6
      loop_via[OF 7 rtranclp.rtrancl_refl]]]]]]])
qed

theorem event_loop_tasks_fifo_witness:
  "\<exists>s. loop_steps el_new s \<and> pendingTasks s = [7] \<and> posted s = executed s @ batch (loopPc s) @ pendingTasks s"
  using event_loop_tasks_fifo[OF el_run_posted] el_run_posted
  by (intro exI[of _ "el_posted True LPoll"]) simp

theorem event_loop_no_lost_wakeup_witness:
  "\<exists>s. loop_steps el_new s \<and> loopPc s = LPoll \<and> pendingTasks s = [7] \<and> (0 < eventFd s \<or> 0 < notifiers s)"
  using event_loop_no_lost_wakeup[OF el_run_posted] el_run_posted
  by (intro exI[of _ "el_posted True LPoll"]) simp

section \<open>Timeouts and round robin\<close>

text \<open>
  The loop sleeps at least 1 ms and at most 3 s, and with timers it wakes before the earliest
  one is due, except that it sleeps the minimum of 1 ms when that time is nearer.
\<close>

lemma poll_wakes_for_timer:
  assumes "tm_inv m" and "nearestTimerRemainingExpiredTime clock m = (r, m')"
  shows "1 \<le> pollTimeout r \<and> pollTimeout r \<le> 3000 \<and>
         (timers m \<noteq> [] \<longrightarrow> plusMilliseconds (pollTimeout r) (clock (clockReads m)) \<le>
            max (Min (fst ` set (timers m))) (plusMilliseconds 1 (clock (clockReads m))))"
proof -
  define first where "first = Min (fst ` set (timers m))"
  show ?thesis using nearest_remaining[OF assms] unfolding first_def[symmetric]
    by (auto simp: pollTimeout_def kDefaultPollTimeout_def kMinimumPollTimeout_def plusMilliseconds_def
        time_consts Let_def max_def min_def split: if_splits)
qed

text \<open>
  The group hands out its loops in turn: the loops returned by \<open>k\<close> calls of \<^verbatim>\<open>next\<close> on a fresh
  group of \<open>n > 0\<close> loops are loop 0, 1, ..., \<open>n - 1\<close>, 0, 1, and so on.
\<close>

lemma group_next_round_robin:
  assumes "ls \<noteq> []"
  shows "\<exists>g. group_nexts k \<lparr>nextLoop = 0, eventLoops = ls\<rparr> = Inr (map (\<lambda>i. ls ! (i mod length ls)) [0..<k], g)"
proof -
  have "\<exists>g. group_nexts k \<lparr>nextLoop = j mod length ls, eventLoops = ls\<rparr> =
      Inr (map (\<lambda>i. ls ! (i mod length ls)) [j..<j + k], g)" for j
  proof (induction k arbitrary: j)
    case (Suc k)
    have lt: "j mod length ls < length ls" using assms by simp
    have nx: "(if length ls \<le> Suc (j mod length ls) then 0 else Suc (j mod length ls)) = Suc j mod length ls"
      using lt by (auto simp: mod_Suc)
    obtain g where "group_nexts k \<lparr>nextLoop = Suc j mod length ls, eventLoops = ls\<rparr> =
        Inr (map (\<lambda>i. ls ! (i mod length ls)) [Suc j..<Suc j + k], g)" using Suc[of "Suc j"] by blast
    then show ?case using lt nx by (simp add: group_next_def Let_def upt_conv_Cons del: upt_Suc)
  qed simp
  from this[of 0] show ?thesis by simp
qed

end
