(* ===== verification/Handler_Pipeline.thy ===== *)
theory Handler_Pipeline
  imports Nets_Prelude
begin

text \<open>
  \<^verbatim>\<open>nets/net/core/ChannelHandler\<close>, \<^verbatim>\<open>ChannelHandlerPipeline\<close> and the socket and datagram pipelines
  on top of it: a singly linked list of shared handlers. The handlers live in an explicit store
  from addresses to objects, so a handler that is linked twice is linked twice here; walks along
  \<^verbatim>\<open>next_\<close> may not end, and then the operation's result is \<open>Hang\<close>.
\<close>

section \<open>Handlers\<close>

datatype handler_kind = SocketHandler | DatagramHandler

record handler =
  name :: string
  kind :: handler_kind
  "next" :: "nat option"

type_synonym store = "nat \<Rightarrow> handler"

definition setNext :: "nat \<Rightarrow> nat option \<Rightarrow> store \<Rightarrow> store" where
  "setNext h n H = H(h := (H h)\<lparr>next := n\<rparr>)"

partial_function (option) findLast_loop :: "store \<Rightarrow> nat \<Rightarrow> nat option" where
  "findLast_loop H temp =
     (case next (H temp) of None \<Rightarrow> Some temp | Some n \<Rightarrow> findLast_loop H n)"

definition findLast :: "store \<Rightarrow> nat \<Rightarrow> nat option" where
  "findLast H this = (case next (H this) of None \<Rightarrow> Some this | Some n \<Rightarrow> findLast_loop H n)"

partial_function (option) findLastPrev_loop :: "store \<Rightarrow> nat \<Rightarrow> nat \<Rightarrow> nat option" where
  "findLastPrev_loop H prev temp =
     (case next (H temp) of None \<Rightarrow> Some prev | Some n \<Rightarrow> findLastPrev_loop H temp n)"

text \<open>\<^verbatim>\<open>findLastPrev\<close> dereferences \<^verbatim>\<open>next_\<close> without a test.\<close>

definition findLastPrev :: "store \<Rightarrow> nat \<Rightarrow> nat res option" where
  "findLastPrev H this =
     (case next (H this) of None \<Rightarrow> Some (Inl Undefined)
      | Some n \<Rightarrow> map_option Inr (findLastPrev_loop H this n))"

partial_function (option) findPrevName_loop :: "store \<Rightarrow> string \<Rightarrow> nat \<Rightarrow> nat option \<Rightarrow> nat option option" where
  "findPrevName_loop H nm prev temp =
     (if temp = None then Some None
      else if name (H (the temp)) = nm then Some (Some prev)
      else findPrevName_loop H nm (the temp) (next (H (the temp))))"

definition findChannelHandlerPrev_name :: "store \<Rightarrow> nat \<Rightarrow> string \<Rightarrow> nat option option" where
  "findChannelHandlerPrev_name H this nm = findPrevName_loop H nm this (next (H this))"

partial_function (option) findPrevPtr_loop :: "store \<Rightarrow> nat \<Rightarrow> nat \<Rightarrow> nat option \<Rightarrow> nat option option" where
  "findPrevPtr_loop H h prev temp =
     (if temp = None then Some None
      else if the temp = h then Some (Some prev)
      else findPrevPtr_loop H h (the temp) (next (H (the temp))))"

definition findChannelHandlerPrev_ptr :: "store \<Rightarrow> nat \<Rightarrow> nat \<Rightarrow> nat option option" where
  "findChannelHandlerPrev_ptr H this h = findPrevPtr_loop H h this (next (H this))"

section \<open>The pipeline\<close>

record pipeline =
  handlers :: store
  headChannelHandler :: "nat option"

definition hang :: "'a option \<Rightarrow> 'a res" where
  "hang r = (case r of None \<Rightarrow> Inl Hang | Some x \<Rightarrow> Inr x)"

definition addFirst :: "nat option \<Rightarrow> pipeline \<Rightarrow> pipeline" where
  "addFirst channelHandler p =
     (case channelHandler of None \<Rightarrow> p
      | Some h \<Rightarrow>
          (let p' = (if headChannelHandler p \<noteq> None
                     then p\<lparr>handlers := setNext h (headChannelHandler p) (handlers p)\<rparr> else p)
           in p'\<lparr>headChannelHandler := Some h\<rparr>))"

definition addLast :: "nat option \<Rightarrow> pipeline \<Rightarrow> pipeline res" where
  "addLast channelHandler p =
     (case channelHandler of None \<Rightarrow> Inr p
      | Some h \<Rightarrow>
          (case headChannelHandler p of
             Some hp \<Rightarrow> ebind (hang (findLast (handlers p) hp))
               (\<lambda>last. Inr (p\<lparr>handlers := setNext last (Some h) (handlers p)\<rparr>))
           | None \<Rightarrow> Inr (p\<lparr>headChannelHandler := Some h\<rparr>)))"

text \<open>\<open>hp\<close> is the head, which the callers have tested.\<close>

definition unlinkHead :: "nat \<Rightarrow> pipeline \<Rightarrow> pipeline" where
  "unlinkHead hp p =
     (case next (handlers p hp) of
        Some n \<Rightarrow> p\<lparr>handlers := setNext hp None (handlers p), headChannelHandler := Some n\<rparr>
      | None \<Rightarrow> p\<lparr>headChannelHandler := None\<rparr>)"

definition unlinkChannelHandler :: "nat \<Rightarrow> nat \<Rightarrow> pipeline \<Rightarrow> pipeline" where
  "unlinkChannelHandler prev h p =
     (if next (handlers p h) \<noteq> None
      then p\<lparr>handlers := setNext h None (setNext prev (next (handlers p h)) (handlers p))\<rparr>
      else p\<lparr>handlers := setNext prev None (handlers p)\<rparr>)"

definition removeFirst :: "pipeline \<Rightarrow> nat option \<times> pipeline" where
  "removeFirst p =
     (case headChannelHandler p of None \<Rightarrow> (None, p) | Some hp \<Rightarrow> (Some hp, unlinkHead hp p))"

definition removeLast :: "pipeline \<Rightarrow> (nat option \<times> pipeline) res" where
  "removeLast p =
     (case headChannelHandler p of None \<Rightarrow> Inr (None, p)
      | Some hp \<Rightarrow>
          if next (handlers p hp) = None then Inr (Some hp, unlinkHead hp p)
          else ebind (hang (findLastPrev (handlers p) hp)) (\<lambda>r. ebind r (\<lambda>prev.
            Inr (next (handlers p prev), p\<lparr>handlers := setNext prev None (handlers p)\<rparr>))))"

text \<open>What both versions of \<^verbatim>\<open>remove\<close> do with the predecessor they found.\<close>

definition remove_after :: "nat \<Rightarrow> pipeline \<Rightarrow> (nat \<times> pipeline) res" where
  "remove_after prev p =
     (case next (handlers p prev) of None \<Rightarrow> Inl Undefined
      | Some rm \<Rightarrow> Inr (rm, unlinkChannelHandler prev rm p))"

definition remove_name :: "string \<Rightarrow> pipeline \<Rightarrow> (nat option \<times> pipeline) res" where
  "remove_name nm p =
     (case headChannelHandler p of None \<Rightarrow> Inr (None, p)
      | Some hp \<Rightarrow>
          if nm = [] then Inr (None, p)
          else if name (handlers p hp) = nm then Inr (Some hp, unlinkHead hp p)
          else ebind (hang (findChannelHandlerPrev_name (handlers p) hp nm)) (\<lambda>r.
            case r of None \<Rightarrow> Inr (None, p)
            | Some prev \<Rightarrow> ebind (remove_after prev p) (\<lambda>(rm, p'). Inr (Some rm, p'))))"

definition remove_ptr :: "nat option \<Rightarrow> pipeline \<Rightarrow> (bool \<times> pipeline) res" where
  "remove_ptr channelHandler p =
     (case (headChannelHandler p, channelHandler) of
        (Some hp, Some h) \<Rightarrow>
          if hp = h then Inr (True, unlinkHead hp p)
          else ebind (hang (findChannelHandlerPrev_ptr (handlers p) hp h)) (\<lambda>r.
            case r of None \<Rightarrow> Inr (False, p)
            | Some prev \<Rightarrow> ebind (remove_after prev p) (\<lambda>(rm, p'). Inr (True, p')))
      | _ \<Rightarrow> Inr (False, p))"

section \<open>Events\<close>

text \<open>
  An event enters at the head. Each handler's virtual method is user code; \<open>fwd h e\<close> says whether
  handler \<open>h\<close> passes \<open>e\<close> on with its \<^verbatim>\<open>fireChannel...\<close> method, as the default implementation does.
  The result is the sequence of handlers called. A handler of the wrong class makes the
  \<^verbatim>\<open>dynamic_pointer_cast\<close> null.
\<close>

datatype ('addr, 'msg, 'pkt) event =
  ChannelConnect 'addr 'addr | ChannelDisconnect | ChannelRead 'msg | DatagramActive | DatagramRead 'pkt

fun event_kind :: "('addr, 'msg, 'pkt) event \<Rightarrow> handler_kind" where
  "event_kind DatagramActive = DatagramHandler" | "event_kind (DatagramRead m) = DatagramHandler"
| "event_kind _ = SocketHandler"

partial_function (option) channelEvent ::
    "(nat \<Rightarrow> ('addr, 'msg, 'pkt) event \<Rightarrow> bool) \<Rightarrow> store \<Rightarrow> ('addr, 'msg, 'pkt) event \<Rightarrow> nat \<Rightarrow> nat list \<Rightarrow>
     nat list res option" where
  "channelEvent fwd H e h calls =
     (if kind (H h) \<noteq> event_kind e then Some (Inl Undefined)
      else if fwd h e then
        (case next (H h) of None \<Rightarrow> Some (Inr (calls @ [h])) | Some n \<Rightarrow> channelEvent fwd H e n (calls @ [h]))
      else Some (Inr (calls @ [h])))"

definition fireEvent ::
    "(nat \<Rightarrow> ('addr, 'msg, 'pkt) event \<Rightarrow> bool) \<Rightarrow> ('addr, 'msg, 'pkt) event \<Rightarrow> pipeline \<Rightarrow> nat list res" where
  "fireEvent fwd e p =
     (case headChannelHandler p of None \<Rightarrow> Inr []
      | Some hp \<Rightarrow> ebind (hang (channelEvent fwd (handlers p) e hp [])) (\<lambda>r. r))"

definition fireSocketChannelConnect where
  "fireSocketChannelConnect fwd localAddress peerAddress p = fireEvent fwd (ChannelConnect localAddress peerAddress) p"

definition fireSocketChannelDisconnect where
  "fireSocketChannelDisconnect fwd p = fireEvent fwd ChannelDisconnect p"

definition fireSocketChannelRead where
  "fireSocketChannelRead fwd message p = fireEvent fwd (ChannelRead message) p"

definition fireDatagramChannelActive where
  "fireDatagramChannelActive fwd p = fireEvent fwd DatagramActive p"

definition fireDatagramChannelRead where
  "fireDatagramChannelRead fwd message p = fireEvent fwd (DatagramRead message) p"

section \<open>Lists in the store\<close>

text \<open>\<open>seg H p xs q\<close>: following \<^verbatim>\<open>next_\<close> from \<open>p\<close> passes the handlers \<open>xs\<close> and then is at \<open>q\<close>.\<close>

fun seg :: "store \<Rightarrow> nat option \<Rightarrow> nat list \<Rightarrow> nat option \<Rightarrow> bool" where
  "seg H p [] q \<longleftrightarrow> p = q"
| "seg H p (x # xs) q \<longleftrightarrow> p = Some x \<and> seg H (next (H x)) xs q"

lemma seg_append [simp]: "seg H p (us @ vs) q \<longleftrightarrow> (\<exists>r. seg H p us r \<and> seg H r vs q)"
  by (induction us arbitrary: p) auto

lemma seg_frame [simp]: "h \<notin> set xs \<Longrightarrow> seg (setNext h n H) p xs q = seg H p xs q"
  by (induction xs arbitrary: p) (auto simp: setNext_def)

lemma setNext_simps [simp]:
  "next (setNext h n H x) = (if x = h then n else next (H x))"
  "name (setNext h n H x) = name (H x)" "kind (setNext h n H x) = kind (H x)"
  by (simp_all add: setNext_def)

definition repr :: "pipeline \<Rightarrow> nat list \<Rightarrow> bool" where
  "repr p xs \<longleftrightarrow> seg (handlers p) (headChannelHandler p) xs None \<and> distinct xs \<and>
     (\<forall>h. h \<notin> set xs \<longrightarrow> next (handlers p h) = None)"

lemma findLast_loop_seg: "seg H (Some a) (a # xs) None \<Longrightarrow> findLast_loop H a = Some (last (a # xs))"
  by (induction xs arbitrary: a) (auto simp: findLast_loop.simps)

lemma findLast_seg: "seg H (Some a) (a # xs) None \<Longrightarrow> findLast H a = Some (last (a # xs))"
  using findLast_loop_seg[of H a xs] by (simp add: findLast_def findLast_loop.simps[of H a])

lemma findLastPrev_loop_seg:
  "seg H (Some b) (b # xs) None \<Longrightarrow> findLastPrev_loop H a b = Some (last (butlast (a # b # xs)))"
  by (induction xs arbitrary: a b) (auto simp: findLastPrev_loop.simps)

fun prev_of :: "(nat \<Rightarrow> bool) \<Rightarrow> nat \<Rightarrow> nat list \<Rightarrow> nat option" where
  "prev_of P a [] = None"
| "prev_of P a (x # xs) = (if P x then Some a else prev_of P x xs)"

lemma findPrevName_loop_seg:
  "seg H p xs None \<Longrightarrow> findPrevName_loop H nm a p = Some (prev_of (\<lambda>h. name (H h) = nm) a xs)"
  by (induction xs arbitrary: a p) (auto simp: findPrevName_loop.simps)

lemma findPrevPtr_loop_seg:
  "seg H p xs None \<Longrightarrow> findPrevPtr_loop H h a p = Some (prev_of (\<lambda>x. x = h) a xs)"
  by (induction xs arbitrary: a p) (auto simp: findPrevPtr_loop.simps)

lemma prev_of_None: "prev_of P a xs = None \<longleftrightarrow> (\<forall>x \<in> set xs. \<not> P x)"
  by (induction xs arbitrary: a) auto

lemma prev_of_Some:
  "prev_of P a xs = Some b \<Longrightarrow>
   \<exists>us x vs. a # xs = us @ b # x # vs \<and> P x \<and> List.find P xs = Some x"
proof (induction xs arbitrary: a)
  case (Cons y ys)
  show ?case
  proof (cases "P y")
    case True then show ?thesis using Cons(2) by (intro exI[of _ "[]"]) auto
  next
    case False
    then obtain us x vs where "y # ys = us @ b # x # vs" "P x" "List.find P ys = Some x"
      using Cons(1)[of y] Cons(2) by auto
    moreover from this(3) have "List.find P (y # ys) = Some x" using False by simp
    ultimately show ?thesis by (metis append_Cons)
  qed
qed simp

section \<open>Each operation on a represented list\<close>

lemma addFirst_repr: "repr p xs \<Longrightarrow> h \<notin> set xs \<Longrightarrow> repr (addFirst (Some h) p) (h # xs)"
  by (cases xs) (auto simp: repr_def addFirst_def Let_def)

lemma addLast_repr:
  assumes "repr p xs" and "h \<notin> set xs"
  shows "\<exists>p'. addLast (Some h) p = Inr p' \<and> repr p' (xs @ [h])"
proof (cases xs rule: rev_cases)
  case Nil then show ?thesis using assms by (auto simp: repr_def addLast_def)
next
  case (snoc ys y)
  then obtain hp zs where zs: "xs = hp # zs" using list.exhaust[of xs] by blast
  then have hp: "headChannelHandler p = Some hp" "seg (handlers p) (Some hp) (hp # zs) None"
    using assms(1) by (auto simp: repr_def)
  have "findLast (handlers p) hp = Some y" using findLast_seg[OF hp(2)] snoc zs by (metis last_snoc)
  then show ?thesis using assms snoc hp(1) by (auto simp: repr_def addLast_def hang_def)
qed

lemma unlinkHead_repr: "repr p (x # xs) \<Longrightarrow> repr (unlinkHead x p) xs"
  by (cases xs) (auto simp: repr_def unlinkHead_def, metis)

lemma unlink_repr:
  assumes "repr p (us @ b # x # vs)"
  shows "repr (unlinkChannelHandler b x p) (us @ b # vs)"
  using assms by (cases vs) (auto simp: repr_def unlinkChannelHandler_def)

lemma repr_next: "repr p (us @ b # x # vs) \<Longrightarrow> next (handlers p b) = Some x"
  by (auto simp: repr_def)

lemma repr_head: "repr p (x # xs) \<Longrightarrow> headChannelHandler p = Some x" "repr p [] \<Longrightarrow> headChannelHandler p = None"
  by (auto simp: repr_def)

lemma removeFirst_repr:
  "repr p [] \<Longrightarrow> removeFirst p = (None, p)"
  "repr p (x # xs) \<Longrightarrow> \<exists>p'. removeFirst p = (Some x, p') \<and> repr p' xs"
  using repr_head unlinkHead_repr by (auto simp: removeFirst_def)

lemma removeLast_repr:
  assumes r: "repr p (xs @ [z])"
  shows "\<exists>p'. removeLast p = Inr (Some z, p') \<and> repr p' xs"
proof (cases xs rule: rev_cases)
  case Nil
  then show ?thesis using r repr_head(1)[of p z "[]"] unlinkHead_repr[of p z "[]"]
    by (auto simp: removeLast_def repr_def)
next
  case (snoc ys y)
  then obtain hp zs where zs: "xs = hp # zs" using list.exhaust[of xs] by blast
  obtain b bs where b: "zs @ [z] = b # bs" by (cases zs) auto
  have s: "seg (handlers p) (Some hp) (hp # b # bs) None" using r zs b by (auto simp: repr_def)
  have "last (butlast (hp # b # bs)) = y" using snoc zs b by (metis append_Cons butlast_snoc last_snoc)
  then have "findLastPrev (handlers p) hp = Some (Inr y)"
    using findLastPrev_loop_seg[of "handlers p" b bs hp] s by (simp add: findLastPrev_def)
  moreover have "next (handlers p y) = Some z" using repr_next[of p ys y z "[]"] r snoc by simp
  moreover have "repr (p\<lparr>handlers := setNext y None (handlers p)\<rparr>) xs" using r snoc by (auto simp: repr_def)
  ultimately show ?thesis using repr_head(1)[of p hp "zs @ [z]"] r zs s by (auto simp: removeLast_def hang_def)
qed

text \<open>Both removals, when the head is not the one to remove.\<close>

lemma remove_after_repr:
  assumes "repr p (a # xs)" and "prev_of P a xs = Some b" and "\<not> P a"
  shows "\<exists>x p'. remove_after b p = Inr (x, p') \<and> List.find P (a # xs) = Some x \<and> repr p' (remove1 x (a # xs))"
proof -
  obtain us x vs where x: "a # xs = us @ b # x # vs" "P x" "List.find P xs = Some x"
    using prev_of_Some[OF assms(2)] by blast
  have r: "repr p (us @ b # x # vs)" using assms(1) x(1) by simp
  have "x \<notin> set us" "x \<noteq> b" using r by (auto simp: repr_def)
  then have "remove1 x (us @ b # x # vs) = us @ b # vs" by (simp add: remove1_append)
  moreover have "List.find P (a # xs) = Some x" using x(3) assms(3) by simp
  ultimately show ?thesis
    using unlink_repr[OF r] repr_next[OF r] unfolding x(1) by (simp add: remove_after_def)
qed

lemma remove_name_repr:
  assumes r: "repr p xs" and nm: "nm \<noteq> []"
  defines "P \<equiv> \<lambda>h. name (handlers p h) = nm"
  shows "\<exists>p'. remove_name nm p = Inr (List.find P xs, p') \<and>
           repr p' (case List.find P xs of None \<Rightarrow> xs | Some x \<Rightarrow> remove1 x xs)"
proof (cases xs)
  case Nil then show ?thesis using r repr_head(2)[of p] by (auto simp: remove_name_def)
next
  case (Cons a ys)
  note hp = repr_head(1)[OF r[unfolded Cons]]
  show ?thesis
  proof (cases "P a")
    case True
    then show ?thesis using Cons hp nm unlinkHead_repr[OF r[unfolded Cons]] by (auto simp: remove_name_def P_def)
  next
    case False
    have f: "findChannelHandlerPrev_name (handlers p) a nm = Some (prev_of P a ys)"
      using r Cons findPrevName_loop_seg[of "handlers p" "next (handlers p a)" ys nm a]
      by (auto simp: findChannelHandlerPrev_name_def P_def repr_def)
    show ?thesis
    proof (cases "prev_of P a ys")
      case None
      then have "List.find P xs = None" using False Cons by (auto simp: find_None_iff prev_of_None)
      then show ?thesis using None f hp nm r False by (auto simp: remove_name_def hang_def P_def)
    next
      case (Some b)
      then show ?thesis using remove_after_repr[OF r[unfolded Cons] Some False] f hp nm False Cons
        by (auto simp: remove_name_def hang_def P_def)
    qed
  qed
qed

lemma remove_ptr_repr:
  assumes r: "repr p xs"
  shows "\<exists>p'. remove_ptr (Some h) p = Inr (h \<in> set xs, p') \<and> repr p' (remove1 h xs)"
proof (cases xs)
  case Nil then show ?thesis using r repr_head(2)[of p] by (auto simp: remove_ptr_def)
next
  case (Cons a ys)
  note hp = repr_head(1)[OF r[unfolded Cons]]
  show ?thesis
  proof (cases "a = h")
    case True
    then show ?thesis using Cons hp unlinkHead_repr[OF r[unfolded Cons]] by (auto simp: remove_ptr_def)
  next
    case False
    have f: "findChannelHandlerPrev_ptr (handlers p) a h = Some (prev_of (\<lambda>x. x = h) a ys)"
      using r Cons findPrevPtr_loop_seg[of "handlers p" "next (handlers p a)" ys h a]
      by (auto simp: findChannelHandlerPrev_ptr_def repr_def)
    show ?thesis
    proof (cases "prev_of (\<lambda>x. x = h) a ys")
      case None
      then have "h \<notin> set xs" using False Cons by (auto simp: prev_of_None)
      then show ?thesis using None f hp r False by (auto simp: remove_ptr_def hang_def remove1_idem)
    next
      case (Some b)
      then show ?thesis using remove_after_repr[OF r[unfolded Cons] Some False] f hp False Cons
        by (auto simp: remove_ptr_def hang_def find_Some_iff)
    qed
  qed
qed

section \<open>The pipeline as a list\<close>

datatype pipe_op =
    AddFirst "nat option" | AddLast "nat option" | RemoveFirst | RemoveLast
  | RemoveName string | RemoveHandler "nat option"

datatype pipe_result = Nothing | Handler "nat option" | Flag bool

definition pipe_exec :: "pipe_op \<Rightarrow> pipeline \<Rightarrow> (pipe_result \<times> pipeline) res" where
  "pipe_exec c p =
     (case c of
        AddFirst h \<Rightarrow> Inr (Nothing, addFirst h p)
      | AddLast h \<Rightarrow> ebind (addLast h p) (\<lambda>p'. Inr (Nothing, p'))
      | RemoveFirst \<Rightarrow> (case removeFirst p of (h, p') \<Rightarrow> Inr (Handler h, p'))
      | RemoveLast \<Rightarrow> ebind (removeLast p) (\<lambda>(h, p'). Inr (Handler h, p'))
      | RemoveName n \<Rightarrow> ebind (remove_name n p) (\<lambda>(h, p'). Inr (Handler h, p'))
      | RemoveHandler h \<Rightarrow> ebind (remove_ptr h p) (\<lambda>(b, p'). Inr (Flag b, p')))"

text \<open>The same on the list of handlers, which is what the pipeline promises.\<close>

definition list_exec :: "(nat \<Rightarrow> string) \<Rightarrow> pipe_op \<Rightarrow> nat list \<Rightarrow> pipe_result \<times> nat list" where
  "list_exec nm c xs =
     (case c of
        AddFirst h \<Rightarrow> (Nothing, case h of None \<Rightarrow> xs | Some h \<Rightarrow> h # xs)
      | AddLast h \<Rightarrow> (Nothing, case h of None \<Rightarrow> xs | Some h \<Rightarrow> xs @ [h])
      | RemoveFirst \<Rightarrow> (case xs of [] \<Rightarrow> (Handler None, []) | x # ys \<Rightarrow> (Handler (Some x), ys))
      | RemoveLast \<Rightarrow> (if xs = [] then (Handler None, []) else (Handler (Some (last xs)), butlast xs))
      | RemoveName n \<Rightarrow>
          (let r = (if n = [] then None else List.find (\<lambda>h. nm h = n) xs)
           in (Handler r, case r of None \<Rightarrow> xs | Some x \<Rightarrow> remove1 x xs))
      | RemoveHandler h \<Rightarrow>
          (case h of None \<Rightarrow> (Flag False, xs) | Some h \<Rightarrow> (Flag (h \<in> set xs), remove1 h xs)))"

text \<open>A handler is not added while it is in the pipeline.\<close>

fun fresh_op :: "pipe_op \<Rightarrow> nat list \<Rightarrow> bool" where
  "fresh_op (AddFirst (Some h)) xs \<longleftrightarrow> h \<notin> set xs"
| "fresh_op (AddLast (Some h)) xs \<longleftrightarrow> h \<notin> set xs"
| "fresh_op _ xs \<longleftrightarrow> True"

definition named :: "(nat \<Rightarrow> string) \<Rightarrow> pipeline \<Rightarrow> nat list \<Rightarrow> bool" where
  "named nm p xs \<longleftrightarrow> repr p xs \<and> (\<forall>h. name (handlers p h) = nm h)"

lemma unlink_names:
  "name (handlers (unlinkHead hp p) h) = name (handlers p h)"
  "name (handlers (unlinkChannelHandler b x p) h) = name (handlers p h)"
  by (auto simp: unlinkHead_def unlinkChannelHandler_def split: option.splits)

lemma remove_after_names: "remove_after b p = Inr (x, p') \<Longrightarrow> name (handlers p' h) = name (handlers p h)"
  by (auto simp: remove_after_def unlink_names split: option.splits)

lemma pipe_exec_names: "pipe_exec c p = Inr (r, p') \<Longrightarrow> name (handlers p' h) = name (handlers p h)"
  by (cases c) (auto simp: pipe_exec_def addFirst_def addLast_def removeFirst_def removeLast_def remove_name_def
      remove_ptr_def hang_def Let_def unlink_names ebind_def dest: remove_after_names
      split: option.splits sum.splits if_splits prod.splits)

lemma pipe_exec_repr:
  assumes r: "repr p xs" and nm: "\<And>h. name (handlers p h) = nm h" and fr: "fresh_op c xs"
  shows "\<exists>p'. pipe_exec c p = Inr (fst (list_exec nm c xs), p') \<and> repr p' (snd (list_exec nm c xs))"
proof (cases c)
  case (AddFirst h)
  then show ?thesis using r fr addFirst_repr[of p xs] by (cases h) (auto simp: pipe_exec_def list_exec_def addFirst_def)
next
  case (AddLast h)
  then show ?thesis using r fr addLast_repr[of p xs "the h"]
    by (cases h) (auto simp: pipe_exec_def list_exec_def addLast_def)
next
  case RemoveFirst
  then show ?thesis using r removeFirst_repr(1)[of p] removeFirst_repr(2)[of p "List.hd xs" "tl xs"]
    by (cases xs) (auto simp: pipe_exec_def list_exec_def)
next
  case RemoveLast
  then show ?thesis using r repr_head(2)[of p] removeLast_repr[of p "butlast xs" "last xs"]
    by (cases "xs = []") (auto simp: pipe_exec_def list_exec_def removeLast_def)
next
  case (RemoveName n)
  show ?thesis
  proof (cases "n = []")
    case True
    then show ?thesis using r RemoveName
      by (auto simp: pipe_exec_def list_exec_def remove_name_def split: option.splits)
  next
    case False
    then show ?thesis using remove_name_repr[OF r False] RemoveName
      by (auto simp: pipe_exec_def list_exec_def nm Let_def)
  qed
next
  case (RemoveHandler h)
  then show ?thesis using r remove_ptr_repr[OF r, of "the h"]
    by (cases h) (auto simp: pipe_exec_def list_exec_def remove_ptr_def split: option.splits)
qed

interpretation pl: simulation pipe_exec "list_exec nm" fresh_op "named nm" for nm
proof unfold_locales
  fix p xs c
  assume n: "named nm p xs" and f: "fresh_op c xs"
  then obtain p' where p': "pipe_exec c p = Inr (fst (list_exec nm c xs), p')" "repr p' (snd (list_exec nm c xs))"
    using pipe_exec_repr[of p xs nm c] by (auto simp: named_def)
  then show "\<exists>c'. pipe_exec c p = Inr (fst (list_exec nm c xs), c') \<and> named nm c' (snd (list_exec nm c xs))"
    using pipe_exec_names[OF p'(1)] n by (auto simp: named_def)
qed

definition new_pipeline :: "store \<Rightarrow> pipeline" where
  "new_pipeline H = \<lparr>handlers = H, headChannelHandler = None\<rparr>"

text \<open>
  C32. A pipeline is a list of handlers: starting from an empty pipeline and handlers that are
  linked nowhere, any sequence of \<^verbatim>\<open>addFirst\<close>, \<^verbatim>\<open>addLast\<close>, \<^verbatim>\<open>removeFirst\<close>, \<^verbatim>\<open>removeLast\<close> and the
  two \<^verbatim>\<open>remove\<close>s returns, gives the results of the same operations on a list, and leaves that list
  linked in the store, provided no handler is added while it is in the pipeline.
\<close>

theorem pipeline_refines_list:
  assumes "\<And>h. next (H h) = None" and "ops_allowed (list_exec (\<lambda>h. name (H h))) fresh_op ops []"
  shows "\<exists>p. run_ops pipe_exec ops (new_pipeline H) = Inr (fst (spec_ops (list_exec (\<lambda>h. name (H h))) ops []), p) \<and>
             seg (handlers p) (headChannelHandler p) (snd (spec_ops (list_exec (\<lambda>h. name (H h))) ops [])) None"
proof -
  have "named (\<lambda>h. name (H h)) (new_pipeline H) []" using assms(1) by (simp add: named_def repr_def new_pipeline_def)
  from pl.run_ops_sim[OF this assms(2)] show ?thesis by (auto simp: named_def repr_def)
qed

theorem pipeline_refines_list_witness:
  "let H = (\<lambda>h. \<lparr>name = (if h = 1 then ''a'' else ''b''), kind = SocketHandler, next = None\<rparr>);
       ops = [AddLast (Some 1), AddLast (Some 2), AddFirst (Some 3), RemoveName ''a'', RemoveLast] in
   (\<forall>h. next (H h) = None) \<and> ops_allowed (list_exec (\<lambda>h. name (H h))) fresh_op ops [] \<and>
   (\<exists>p. run_ops pipe_exec ops (new_pipeline H) =
      Inr ([Nothing, Nothing, Nothing, Handler (Some 1), Handler (Some 2)], p) \<and>
      seg (handlers p) (headChannelHandler p) [3] None)"
  using pipeline_refines_list[of "\<lambda>h. \<lparr>name = (if h = 1 then ''a'' else ''b''), kind = SocketHandler, next = None\<rparr>"
      "[AddLast (Some 1), AddLast (Some 2), AddFirst (Some 3), RemoveName ''a'', RemoveLast]"]
  by (simp add: list_exec_def)

section \<open>Events on a represented list\<close>

fun visited :: "(nat \<Rightarrow> bool) \<Rightarrow> nat list \<Rightarrow> nat list" where
  "visited f [] = []"
| "visited f (x # xs) = x # (if f x then visited f xs else [])"

lemma channelEvent_seg:
  "seg H (Some x) (x # xs) None \<Longrightarrow> (\<And>h. h \<in> set (x # xs) \<Longrightarrow> kind (H h) = event_kind e) \<Longrightarrow>
   channelEvent fwd H e x calls = Some (Inr (calls @ visited (\<lambda>h. fwd h e) (x # xs)))"
proof (induction xs arbitrary: x calls)
  case Nil then show ?case by (simp add: channelEvent.simps)
next
  case (Cons y ys)
  then show ?case using Cons(1)[of y "calls @ [x]"] by (simp add: channelEvent.simps[of fwd H e x])
qed

text \<open>
  C33. An event fired into a pipeline that represents the handlers \<open>xs\<close>, all of the class the event
  is for, reaches exactly the handlers from the first on, in order, up to and including the
  first that does not pass it on; with the default handlers, which all pass on, every one.
\<close>

theorem fireEvent_order:
  assumes "repr p xs" and "\<And>h. h \<in> set xs \<Longrightarrow> kind (handlers p h) = event_kind e"
  shows "fireEvent fwd e p = Inr (visited (\<lambda>h. fwd h e) xs) \<and>
         ((\<forall>h \<in> set xs. fwd h e) \<longrightarrow> fireEvent fwd e p = Inr xs)"
proof -
  have all: "(\<forall>h \<in> set ys. fwd h e) \<Longrightarrow> visited (\<lambda>h. fwd h e) ys = ys" for ys by (induction ys) auto
  have "fireEvent fwd e p = Inr (visited (\<lambda>h. fwd h e) xs)"
  proof (cases xs)
    case Nil then show ?thesis using assms by (simp add: fireEvent_def repr_def)
  next
    case (Cons x ys)
    then have "seg (handlers p) (Some x) (x # ys) None" using assms by (auto simp: repr_def)
    then show ?thesis using channelEvent_seg[of "handlers p" x ys e fwd "[]"] Cons assms(2) repr_head(1)[of p x ys] assms(1)
      by (simp add: fireEvent_def hang_def)
  qed
  then show ?thesis using all by auto
qed

definition two_handlers :: pipeline where
  "two_handlers = \<lparr>handlers = (\<lambda>h. \<lparr>name = [], kind = SocketHandler, next = (if h = 1 then Some 2 else None)\<rparr>),
     headChannelHandler = Some 1\<rparr>"

lemma two_handlers_repr: "repr two_handlers [1, 2]"
  by (auto simp: repr_def two_handlers_def)

theorem fireEvent_order_witness:
  "fireSocketChannelDisconnect (\<lambda>h e. True) two_handlers = Inr [1, 2] \<and>
   fireSocketChannelRead (\<lambda>h e. h \<noteq> 1) (5::nat) two_handlers = Inr [1]"
  using fireEvent_order[OF two_handlers_repr, of ChannelDisconnect "\<lambda>h e. True"]
    fireEvent_order[OF two_handlers_repr, of "ChannelRead 5" "\<lambda>h e. h \<noteq> 1"]
  by (simp add: two_handlers_def fireSocketChannelDisconnect_def fireSocketChannelRead_def)

section \<open>A handler added twice\<close>

lemma findLast_loop_cycle: "next (H h) = Some h \<Longrightarrow> findLast_loop H h = None"
proof -
  assume c: "next (H h) = Some h"
  have "findLast_loop H x = Some r \<Longrightarrow> H = H \<longrightarrow> x \<noteq> h" for x r
  proof (rule findLast_loop.raw_induct[where P="\<lambda>H' x r. H' = H \<longrightarrow> x \<noteq> h"])
    fix loop H' t r
    assume IH: "\<And>H' x r. loop H' x = Some r \<Longrightarrow> H' = H \<longrightarrow> x \<noteq> h"
      and b: "(case next (H' t) of None \<Rightarrow> Some t | Some n \<Rightarrow> loop H' n) = Some r"
    show "H' = H \<longrightarrow> t \<noteq> h" using b c IH[of H' h r] by auto
  qed
  then show ?thesis by (cases "findLast_loop H h") auto
qed

text \<open>
  Adding the handler at the head of a pipeline once more with \<^verbatim>\<open>addFirst\<close> links it to itself;
  from then on \<^verbatim>\<open>addLast\<close> never returns.
\<close>

lemma addFirst_twice_cycles:
  "addLast (Some k) (addFirst (Some h) (addFirst (Some h) (new_pipeline H))) = Inl Hang"
proof -
  let ?p = "addFirst (Some h) (addFirst (Some h) (new_pipeline H))"
  have "next (handlers ?p h) = Some h" "headChannelHandler ?p = Some h"
    by (simp_all add: addFirst_def new_pipeline_def Let_def)
  then show ?thesis using findLast_loop_cycle[of "handlers ?p" h]
    by (simp add: addLast_def hang_def findLast_def)
qed

end
