(* ===== verification/Blocking_Queue.thy ===== *)
theory Blocking_Queue
  imports Nets_Prelude "HOL-Library.Multiset"
begin

text \<open>
  \<^verbatim>\<open>nets/base/BoundedBlockingQueue.h\<close>. First every operation as the critical section it runs
  under the queue's mutex; then any number of threads calling the blocking operations, as a step
  relation in which the mutex, the two condition variables, the gap between testing the wait
  condition and going to sleep, and the notification after unlocking are separate steps.
\<close>

section \<open>Critical sections\<close>

record 'a bbq =
  maxQueueSize :: nat
  queue :: "'a list"

definition kDefaultMaxQueueSize :: nat where "kDefaultMaxQueueSize = 2147483646"

definition bbq_new :: "nat \<Rightarrow> 'a bbq" where
  "bbq_new n = \<lparr>maxQueueSize = n, queue = []\<rparr>"

definition isFull :: "'a bbq \<Rightarrow> bool" where
  "isFull q \<longleftrightarrow> length (queue q) \<ge> maxQueueSize q"

definition isEmpty :: "'a bbq \<Rightarrow> bool" where
  "isEmpty q \<longleftrightarrow> queue q = []"

definition bbq_size :: "'a bbq \<Rightarrow> nat" where
  "bbq_size q = length (queue q)"

text \<open>
  What happens when a thread holds the mutex and evaluates the wait condition: it goes to
  sleep, or the operation is done with a result. \<^verbatim>\<open>front()\<close> of an empty deque is undefined.
\<close>

datatype 'r attempt = Blocked | Done 'r

definition push_back :: "'a \<Rightarrow> 'a bbq \<Rightarrow> 'a bbq" where
  "push_back el q = q\<lparr>queue := queue q @ [el]\<rparr>"

definition pop_front :: "'a bbq \<Rightarrow> ('a \<times> 'a bbq) res" where
  "pop_front q = (case queue q of [] \<Rightarrow> Inl Undefined | x # xs \<Rightarrow> Inr (x, q\<lparr>queue := xs\<rparr>))"

definition put_move :: "'a \<Rightarrow> 'a bbq \<Rightarrow> 'a bbq attempt" where
  "put_move el q = (if \<not> isFull q then Done (push_back el q) else Blocked)"

definition put_copy :: "'a \<Rightarrow> 'a bbq \<Rightarrow> 'a bbq attempt" where
  "put_copy el q = (if \<not> isFull q then Done (push_back el q) else Blocked)"

definition take_el :: "'a bbq \<Rightarrow> ('a \<times> 'a bbq) res attempt" where
  "take_el q = (if queue q \<noteq> [] then Done (pop_front q) else Blocked)"

text \<open>
  With a predicate: \<open>p1\<close> is its value inside the wait condition, \<open>p2\<close> its value when it is called
  again afterwards.
\<close>

definition put_move_pred :: "bool \<Rightarrow> bool \<Rightarrow> 'a \<Rightarrow> 'a bbq \<Rightarrow> (bool \<times> 'a bbq) attempt" where
  "put_move_pred p1 p2 el q =
     (if \<not> isFull q \<or> p1 then (if p2 then Done (False, q) else Done (True, push_back el q)) else Blocked)"

definition put_copy_pred :: "bool \<Rightarrow> bool \<Rightarrow> 'a \<Rightarrow> 'a bbq \<Rightarrow> (bool \<times> 'a bbq) attempt" where
  "put_copy_pred p1 p2 el q =
     (if \<not> isFull q \<or> p1 then (if p2 then Done (False, q) else Done (True, push_back el q)) else Blocked)"

definition take_pred :: "bool \<Rightarrow> bool \<Rightarrow> 'a bbq \<Rightarrow> ('a option \<times> 'a bbq) res attempt" where
  "take_pred p1 p2 q =
     (if queue q \<noteq> [] \<or> p1
      then (if p2 then Done (Inr (None, q))
            else Done (ebind (pop_front q) (\<lambda>(x, q'). Inr (Some x, q'))))
      else Blocked)"

text \<open>With a timeout: \<open>late\<close> says that the time is over, and then the call gives up instead of sleeping.\<close>

definition put_move_for :: "bool \<Rightarrow> 'a \<Rightarrow> 'a bbq \<Rightarrow> (bool \<times> 'a bbq) attempt" where
  "put_move_for late el q =
     (if \<not> isFull q then Done (True, push_back el q) else if late then Done (False, q) else Blocked)"

definition put_copy_for :: "bool \<Rightarrow> 'a \<Rightarrow> 'a bbq \<Rightarrow> (bool \<times> 'a bbq) attempt" where
  "put_copy_for late el q =
     (if \<not> isFull q then Done (True, push_back el q) else if late then Done (False, q) else Blocked)"

definition take_for :: "bool \<Rightarrow> 'a bbq \<Rightarrow> ('a option \<times> 'a bbq) res attempt" where
  "take_for late q =
     (if queue q \<noteq> [] then Done (ebind (pop_front q) (\<lambda>(x, q'). Inr (Some x, q')))
      else if late then Done (Inr (None, q)) else Blocked)"

definition put_move_for_pred :: "bool \<Rightarrow> bool \<Rightarrow> bool \<Rightarrow> 'a \<Rightarrow> 'a bbq \<Rightarrow> (bool \<times> 'a bbq) attempt" where
  "put_move_for_pred late p1 p2 el q =
     (if \<not> isFull q \<or> p1 then (if p2 then Done (False, q) else Done (True, push_back el q))
      else if late then Done (False, q) else Blocked)"

definition put_copy_for_pred :: "bool \<Rightarrow> bool \<Rightarrow> bool \<Rightarrow> 'a \<Rightarrow> 'a bbq \<Rightarrow> (bool \<times> 'a bbq) attempt" where
  "put_copy_for_pred late p1 p2 el q =
     (if \<not> isFull q \<or> p1 then (if p2 then Done (False, q) else Done (True, push_back el q))
      else if late then Done (False, q) else Blocked)"

definition take_for_pred :: "bool \<Rightarrow> bool \<Rightarrow> bool \<Rightarrow> 'a bbq \<Rightarrow> ('a option \<times> 'a bbq) res attempt" where
  "take_for_pred late p1 p2 q =
     (if queue q \<noteq> [] \<or> p1
      then (if p2 then Done (Inr (None, q))
            else Done (ebind (pop_front q) (\<lambda>(x, q'). Inr (Some x, q'))))
      else if late then Done (Inr (None, q)) else Blocked)"

text \<open>\<open>owns\<close>: whether \<^verbatim>\<open>try_to_lock\<close> got the mutex.\<close>

definition tryPush_move :: "bool \<Rightarrow> 'a \<Rightarrow> 'a bbq \<Rightarrow> bool \<times> 'a bbq" where
  "tryPush_move owns el q = (if owns \<and> \<not> isFull q then (True, push_back el q) else (False, q))"

definition tryPush_copy :: "bool \<Rightarrow> 'a \<Rightarrow> 'a bbq \<Rightarrow> bool \<times> 'a bbq" where
  "tryPush_copy owns el q = (if owns \<and> \<not> isFull q then (True, push_back el q) else (False, q))"

definition tryPop :: "bool \<Rightarrow> 'a bbq \<Rightarrow> ('a option \<times> 'a bbq) res" where
  "tryPop owns q =
     (if owns \<and> queue q \<noteq> [] then ebind (pop_front q) (\<lambda>(x, q'). Inr (Some x, q')) else Inr (None, q))"

lemmas bbq_defs = isFull_def isEmpty_def bbq_size_def push_back_def pop_front_def put_move_def
  put_copy_def take_el_def put_move_pred_def put_copy_pred_def take_pred_def put_move_for_def
  put_copy_for_def take_for_def put_move_for_pred_def put_copy_for_pred_def take_for_pred_def
  tryPush_move_def tryPush_copy_def tryPop_def

section \<open>The queue as a bounded FIFO\<close>

text \<open>
  The contract a client relies on: insertion appends when there is room and is refused
  otherwise; removal takes the oldest element; the bound is never exceeded.
\<close>

locale bounded_fifo =
  fixes items :: "'q \<Rightarrow> 'a list" and bound :: "'q \<Rightarrow> nat"
    and offer :: "'a \<Rightarrow> 'q \<Rightarrow> bool \<times> 'q" and poll :: "'q \<Rightarrow> 'a option \<times> 'q"
  assumes offer_room: "length (items q) < bound q \<Longrightarrow>
      fst (offer x q) \<and> items (snd (offer x q)) = items q @ [x]"
    and offer_full: "bound q \<le> length (items q) \<Longrightarrow> \<not> fst (offer x q) \<and> snd (offer x q) = q"
    and poll_some: "items q = x # xs \<Longrightarrow> fst (poll q) = Some x \<and> items (snd (poll q)) = xs"
    and poll_none: "items q = [] \<Longrightarrow> poll q = (None, q)"
    and bound_same: "bound (snd (offer x q)) = bound q \<and> bound (snd (poll q)) = bound q"
begin

fun offers :: "'a list \<Rightarrow> 'q \<Rightarrow> bool list \<times> 'q" where
  "offers [] q = ([], q)"
| "offers (x # xs) q = (let (b, q') = offer x q; (bs, q'') = offers xs q' in (b # bs, q''))"

fun drain :: "nat \<Rightarrow> 'q \<Rightarrow> 'a list \<times> 'q" where
  "drain 0 q = ([], q)"
| "drain (Suc n) q = (case poll q of (None, q') \<Rightarrow> ([], q')
     | (Some x, q') \<Rightarrow> (let (xs, q'') = drain n q' in (x # xs, q'')))"

lemma offers_items:
  "items (snd (offers xs q)) = items q @ take (bound q - length (items q)) xs \<and>
   bound (snd (offers xs q)) = bound q \<and>
   fst (offers xs q) = map (\<lambda>i. i < bound q - length (items q)) [0..<length xs]"
proof (induction xs arbitrary: q)
  case (Cons x xs)
  obtain b q' where o: "offer x q = (b, q')" by force
  have bnd: "bound q' = bound q" using bound_same[of x q] o by simp
  show ?case
  proof (cases "length (items q) < bound q")
    case True
    then have q': "b" "items q' = items q @ [x]" using offer_room[of q x] o by auto
    obtain n where n: "bound q - length (items q) = Suc n" using True by (metis Suc_diff_Suc)
    then have n': "bound q - Suc (length (items q)) = n" by simp
    show ?thesis using Cons[of q'] o q' bnd n n'
      by (simp add: case_prod_beta upt_conv_Cons map_Suc_upt[symmetric] del: upt_Suc)
  next
    case False
    then have q': "\<not> b" "q' = q" using offer_full[of q x] o by auto
    then show ?thesis using Cons[of q] o False
      by (simp add: case_prod_beta upt_conv_Cons map_Suc_upt[symmetric] del: upt_Suc)
  qed
qed simp

lemma drain_items:
  "fst (drain n q) = take n (items q) \<and> items (snd (drain n q)) = drop n (items q)"
proof (induction n arbitrary: q)
  case (Suc n)
  show ?case
  proof (cases "items q")
    case Nil then show ?thesis using poll_none[of q] by simp
  next
    case (Cons x xs)
    then obtain q' where "poll q = (Some x, q')" "items q' = xs" using poll_some[of q x xs] by (metis prod.collapse)
    then show ?thesis using Suc[of q'] Cons by (simp add: case_prod_beta)
  qed
qed simp

lemma offers_then_drain:
  "items q = [] \<Longrightarrow> fst (drain n (snd (offers xs q))) = take n (take (bound q) xs)"
  using offers_items[of xs q] drain_items[of n "snd (offers xs q)"] by simp

end

definition bbq_offer :: "'a \<Rightarrow> 'a bbq \<Rightarrow> bool \<times> 'a bbq" where
  "bbq_offer el q = tryPush_copy True el q"

definition bbq_poll :: "'a bbq \<Rightarrow> 'a option \<times> 'a bbq" where
  "bbq_poll q = (case tryPop True q of Inr r \<Rightarrow> r | Inl e \<Rightarrow> (None, q))"

interpretation bq: bounded_fifo queue maxQueueSize bbq_offer bbq_poll
  by unfold_locales (auto simp: bbq_offer_def bbq_poll_def bbq_defs split: list.splits)

section \<open>Threads on the queue\<close>

text \<open>
  Where a thread is inside \<^verbatim>\<open>put\<close> or \<^verbatim>\<open>take\<close>: about to lock and test (at the start and after each
  wake-up), holding the mutex with the condition found false, asleep on the condition
  variable, or done with its critical section and about to notify. Threads are anonymous, so
  the state has their multiset. The logs are ghosts: what was put and taken, in order.
\<close>

datatype 'a pc =
    PutReady 'a | PutBlocking 'a | PutAsleep 'a | PutNotify
  | TakeReady | TakeBlocking | TakeAsleep | TakeNotify

record 'a bq_state =
  bq :: "'a bbq"
  pcs :: "'a pc multiset"
  locked :: bool
  putLog :: "'a list"
  takeLog :: "'a list"

inductive bq_step :: "'a bq_state \<Rightarrow> 'a bq_state \<Rightarrow> bool" where
  call_put: "bq_step s (s\<lparr>pcs := add_mset (PutReady x) (pcs s)\<rparr>)"
| call_take: "bq_step s (s\<lparr>pcs := add_mset TakeReady (pcs s)\<rparr>)"
| put_done: "pcs s = add_mset (PutReady x) M \<Longrightarrow> \<not> locked s \<Longrightarrow> put_copy x (bq s) = Done q \<Longrightarrow>
    bq_step s (s\<lparr>bq := q, pcs := add_mset PutNotify M, putLog := putLog s @ [x]\<rparr>)"
| put_block: "pcs s = add_mset (PutReady x) M \<Longrightarrow> \<not> locked s \<Longrightarrow> put_copy x (bq s) = Blocked \<Longrightarrow>
    bq_step s (s\<lparr>pcs := add_mset (PutBlocking x) M, locked := True\<rparr>)"
| put_sleep: "pcs s = add_mset (PutBlocking x) M \<Longrightarrow>
    bq_step s (s\<lparr>pcs := add_mset (PutAsleep x) M, locked := False\<rparr>)"
| put_notify: "pcs s = add_mset PutNotify (add_mset TakeAsleep M) \<Longrightarrow>
    bq_step s (s\<lparr>pcs := add_mset TakeReady M\<rparr>)"
| put_notify_none: "pcs s = add_mset PutNotify M \<Longrightarrow> TakeAsleep \<notin># M \<Longrightarrow> bq_step s (s\<lparr>pcs := M\<rparr>)"
| take_done: "pcs s = add_mset TakeReady M \<Longrightarrow> \<not> locked s \<Longrightarrow> take_el (bq s) = Done (Inr (x, q)) \<Longrightarrow>
    bq_step s (s\<lparr>bq := q, pcs := add_mset TakeNotify M, takeLog := takeLog s @ [x]\<rparr>)"
| take_block: "pcs s = add_mset TakeReady M \<Longrightarrow> \<not> locked s \<Longrightarrow> take_el (bq s) = Blocked \<Longrightarrow>
    bq_step s (s\<lparr>pcs := add_mset TakeBlocking M, locked := True\<rparr>)"
| take_sleep: "pcs s = add_mset TakeBlocking M \<Longrightarrow>
    bq_step s (s\<lparr>pcs := add_mset TakeAsleep M, locked := False\<rparr>)"
| take_notify: "pcs s = add_mset TakeNotify (add_mset (PutAsleep x) M) \<Longrightarrow>
    bq_step s (s\<lparr>pcs := add_mset (PutReady x) M\<rparr>)"
| take_notify_none: "pcs s = add_mset TakeNotify M \<Longrightarrow> (\<And>x. PutAsleep x \<notin># M) \<Longrightarrow> bq_step s (s\<lparr>pcs := M\<rparr>)"
| spurious_put: "pcs s = add_mset (PutAsleep x) M \<Longrightarrow> bq_step s (s\<lparr>pcs := add_mset (PutReady x) M\<rparr>)"
| spurious_take: "pcs s = add_mset TakeAsleep M \<Longrightarrow> bq_step s (s\<lparr>pcs := add_mset TakeReady M\<rparr>)"

definition bq_init :: "nat \<Rightarrow> 'a bq_state" where
  "bq_init n = \<lparr>bq = bbq_new n, pcs = {#}, locked = False, putLog = [], takeLog = []\<rparr>"

abbreviation bq_steps :: "'a bq_state \<Rightarrow> 'a bq_state \<Rightarrow> bool" where
  "bq_steps \<equiv> bq_step\<^sup>*\<^sup>*"

text \<open>Counting threads by place.\<close>

fun is_PutReady :: "'a pc \<Rightarrow> bool" where
  "is_PutReady (PutReady x) = True" | "is_PutReady _ = False"

fun is_PutAsleep :: "'a pc \<Rightarrow> bool" where
  "is_PutAsleep (PutAsleep x) = True" | "is_PutAsleep (PutBlocking x) = True" | "is_PutAsleep _ = False"

fun is_TakeAsleep :: "'a pc \<Rightarrow> bool" where
  "is_TakeAsleep TakeAsleep = True" | "is_TakeAsleep TakeBlocking = True" | "is_TakeAsleep _ = False"

fun is_Blocking :: "'a pc \<Rightarrow> bool" where
  "is_Blocking (PutBlocking x) = True" | "is_Blocking TakeBlocking = True" | "is_Blocking _ = False"

definition num :: "('b \<Rightarrow> bool) \<Rightarrow> 'b multiset \<Rightarrow> nat" where
  "num P M = size (filter_mset P M)"

definition cnt :: "('a pc \<Rightarrow> bool) \<Rightarrow> 'a bq_state \<Rightarrow> nat" where
  "cnt P s = num P (pcs s)"

text \<open>
  The invariant. The first parts are the bound, the FIFO order, mutual exclusion, and
  that a thread about to sleep has a reason to. The last two say that no wake-up is lost: while a thread sleeps in \<^verbatim>\<open>take\<close> (or is about to),
  every element in the queue is matched by a pending notification or by a thread that is about
  to look; likewise for \<^verbatim>\<open>put\<close> and free places.
\<close>

definition bq_inv :: "'a bq_state \<Rightarrow> bool" where
  "bq_inv s \<longleftrightarrow>
     length (queue (bq s)) \<le> maxQueueSize (bq s) \<and>
     putLog s = takeLog s @ queue (bq s) \<and>
     cnt is_Blocking s = (if locked s then 1 else 0) \<and>
     (TakeBlocking \<in># pcs s \<longrightarrow> queue (bq s) = []) \<and>
     (\<forall>x. PutBlocking x \<in># pcs s \<longrightarrow> isFull (bq s)) \<and>
     (0 < cnt is_TakeAsleep s \<longrightarrow>
        length (queue (bq s)) \<le> cnt (\<lambda>p. p = PutNotify) s + cnt (\<lambda>p. p = TakeReady) s) \<and>
     (0 < cnt is_PutAsleep s \<longrightarrow>
        maxQueueSize (bq s) - length (queue (bq s)) \<le> cnt (\<lambda>p. p = TakeNotify) s + cnt is_PutReady s)"

lemma num_add [simp]: "num P (add_mset p M) = (if P p then Suc (num P M) else num P M)"
  by (simp add: num_def)

lemma num_pos: "0 < num P M \<longleftrightarrow> (\<exists>p \<in># M. P p)"
  by (induction M) (auto simp: num_def)

lemma asleep_cases:
  "0 < num is_TakeAsleep M \<longleftrightarrow> TakeAsleep \<in># M \<or> TakeBlocking \<in># M"
  "0 < num is_PutAsleep M \<longleftrightarrow> (\<exists>x. PutAsleep x \<in># M \<or> PutBlocking x \<in># M)"
  unfolding num_pos by (auto elim!: is_TakeAsleep.elims is_PutAsleep.elims) force+

lemma not_blocking:
  "num is_Blocking M = 0 \<Longrightarrow> TakeBlocking \<notin># M \<and> (\<forall>x. PutBlocking x \<notin># M)"
  using num_pos[of is_Blocking M] by auto

lemma bq_inv_init: "bq_inv (bq_init n)"
  by (simp add: bq_inv_def bq_init_def bbq_new_def cnt_def num_def)

lemma bq_step_inv:
  assumes "bq_step s s'" and "bq_inv s"
  shows "bq_inv s'"
  using assms
proof (cases rule: bq_step.cases)
  case (put_done x M q)
  then show ?thesis using assms(2) not_blocking[of M]
    by (auto simp: bq_inv_def cnt_def put_copy_def push_back_def isFull_def split: if_splits)
next
  case (take_done M x q)
  then show ?thesis using assms(2) not_blocking[of M]
    by (auto simp: bq_inv_def cnt_def take_el_def pop_front_def isFull_def split: if_splits list.splits)
next
  case (put_notify_none M)
  then show ?thesis using assms(2) asleep_cases(1)[of M] by (auto simp: bq_inv_def cnt_def)
next
  case (take_notify_none M)
  then show ?thesis using assms(2) asleep_cases(2)[of M] by (auto simp: bq_inv_def cnt_def isFull_def)
next
  case (put_block x M)
  then show ?thesis using assms(2) not_blocking[of M]
    by (auto simp: bq_inv_def cnt_def put_copy_def isFull_def split: if_splits)
next
  case (take_block M)
  then show ?thesis using assms(2) not_blocking[of M]
    by (auto simp: bq_inv_def cnt_def take_el_def split: if_splits)
next
  case (put_sleep x M)
  then show ?thesis using assms(2) not_blocking[of M]
    by (auto simp: bq_inv_def cnt_def isFull_def split: if_splits)
next
  case (take_sleep M)
  then show ?thesis using assms(2) not_blocking[of M]
    by (auto simp: bq_inv_def cnt_def split: if_splits)
qed (auto simp: bq_inv_def cnt_def)

lemma bq_steps_inv: "bq_steps (bq_init n) s \<Longrightarrow> bq_inv s"
  by (induction rule: rtranclp_induct) (auto intro: bq_inv_init bq_step_inv)

lemma steps_max: "bq_steps s s' \<Longrightarrow> maxQueueSize (bq s') = maxQueueSize (bq s)"
proof (induction rule: rtranclp_induct)
  case (step u v)
  then show ?case
    by (auto elim!: bq_step.cases simp: put_copy_def push_back_def take_el_def pop_front_def
        split: if_splits list.splits)
qed simp

lemma all_asleep:
  assumes "\<forall>p \<in># M. p = TakeAsleep \<or> (\<exists>x. p = PutAsleep x)"
  shows "num (\<lambda>p. p = PutNotify) M = 0" "num (\<lambda>p. p = TakeReady) M = 0"
    "num (\<lambda>p. p = TakeNotify) M = 0" "num is_PutReady M = 0"
  using assms by (induction M) (auto simp: num_def)

section \<open>Properties\<close>

text \<open>
  C36. No lost wake-up. However threads call \<^verbatim>\<open>put\<close> and \<^verbatim>\<open>take\<close> and are scheduled, if all threads
  inside the queue are asleep, then a thread asleep in \<^verbatim>\<open>take\<close> means that the queue is empty,
  and one asleep in \<^verbatim>\<open>put\<close> that it is full: nobody sleeps who could go on.
\<close>

theorem bbq_no_lost_wakeup:
  assumes "bq_steps (bq_init n) s" and "\<forall>p \<in># pcs s. p = TakeAsleep \<or> (\<exists>x. p = PutAsleep x)"
  shows "(TakeAsleep \<in># pcs s \<longrightarrow> queue (bq s) = []) \<and>
    ((\<exists>x. PutAsleep x \<in># pcs s) \<longrightarrow> length (queue (bq s)) = n)"
proof -
  note inv = bq_steps_inv[OF assms(1)]
  have max: "maxQueueSize (bq s) = n" using steps_max[OF assms(1)] by (simp add: bq_init_def bbq_new_def)
  have "cnt (\<lambda>p. p = PutNotify) s = 0" "cnt (\<lambda>p. p = TakeReady) s = 0"
    "cnt (\<lambda>p. p = TakeNotify) s = 0" "cnt is_PutReady s = 0"
    using all_asleep[OF assms(2)] by (simp_all add: cnt_def)
  with inv max show ?thesis
    by (auto simp: bq_inv_def cnt_def asleep_cases)
qed

theorem bbq_no_lost_wakeup_witness:
  "\<exists>s. bq_steps (bq_init 3 :: nat bq_state) s \<and> TakeAsleep \<in># pcs s \<and> queue (bq s) = []"
proof -
  let ?s0 = "bq_init 3 :: nat bq_state"
  let ?s1 = "?s0\<lparr>pcs := add_mset TakeReady (pcs ?s0)\<rparr>"
  let ?s2 = "?s1\<lparr>pcs := add_mset TakeBlocking {#}, locked := True\<rparr>"
  let ?s3 = "?s2\<lparr>pcs := add_mset TakeAsleep {#}, locked := False\<rparr>"
  have "bq_step ?s0 ?s1" by (rule call_take)
  moreover have "bq_step ?s1 ?s2"
    by (rule take_block) (simp_all add: bq_init_def take_el_def bbq_new_def)
  moreover have "bq_step ?s2 ?s3" by (rule take_sleep) simp
  ultimately have r: "bq_steps ?s0 ?s3" by (meson rtranclp.rtrancl_refl rtranclp.rtrancl_into_rtrancl)
  from bbq_no_lost_wakeup[OF r] r show ?thesis by (intro exI[of _ ?s3]) simp
qed

text \<open>
  C37. Linearizable FIFO. In every reachable state the elements taken so far, followed by those
  in the queue, are the elements put so far, in order; the queue never exceeds its bound; and
  at most one thread holds the mutex.
\<close>

theorem bbq_fifo:
  assumes "bq_steps (bq_init n) s"
  shows "putLog s = takeLog s @ queue (bq s) \<and> length (queue (bq s)) \<le> n \<and> cnt is_Blocking s \<le> 1"
  using bq_steps_inv[OF assms] steps_max[OF assms]
  by (simp add: bq_inv_def bq_init_def bbq_new_def)

theorem bbq_fifo_witness:
  "\<exists>s. bq_steps (bq_init 3) s \<and> putLog s = [7 :: nat] \<and> takeLog s @ queue (bq s) = [7]"
proof -
  let ?s0 = "bq_init 3 :: nat bq_state"
  let ?s1 = "?s0\<lparr>pcs := add_mset (PutReady 7) (pcs ?s0)\<rparr>"
  let ?s2 = "?s1\<lparr>bq := push_back 7 (bq ?s1), pcs := add_mset PutNotify {#}, putLog := putLog ?s1 @ [7]\<rparr>"
  have "bq_step ?s0 ?s1" by (rule call_put)
  moreover have "bq_step ?s1 ?s2"
    by (rule put_done) (simp_all add: bq_init_def put_copy_def bbq_new_def isFull_def)
  ultimately have r: "bq_steps ?s0 ?s2" by (meson rtranclp.rtrancl_refl rtranclp.rtrancl_into_rtrancl)
  from bbq_fifo[OF r] r show ?thesis by (intro exI[of _ ?s2]) (simp add: bq_init_def)
qed

text \<open>
  The non-blocking operations: offering a list of elements to an empty queue accepts
  exactly as many as fit, in order, and polling gives them back in the same order.
\<close>

lemma bbq_offer_poll:
  "fst (bq.offers xs (bbq_new n)) = map (\<lambda>i. i < n) [0..<length xs] \<and>
   fst (bq.drain k (snd (bq.offers xs (bbq_new n)))) = take k (take n xs)"
  using bq.offers_items[of xs "bbq_new n"] bq.offers_then_drain[of "bbq_new n" k xs]
  by (simp add: bbq_new_def)

end
