(* ===== verification/Thread_Pool.thy ===== *)
theory Thread_Pool
  imports Blocking_Queue
begin

text \<open>
  \<^verbatim>\<open>nets/base/ThreadPool.{h,cpp}\<close>: a pool of core and temporary workers on a bounded task queue,
  with the state and the number of active threads packed into one atomic 32-bit word. The word
  operations come first, then the pool as a step relation: every atomic access, every critical
  section, every sleep and every notification of the callers of \<^verbatim>\<open>execute\<close>, of the workers and
  of \<^verbatim>\<open>shutdown\<close> is a step, and steps of different threads interleave in any way.
\<close>

section \<open>The control word\<close>

definition kCountBits :: nat where "kCountBits = 30"
definition kCountMask :: "32 word" where "kCountMask = push_bit kCountBits 1 - 1"
definition kRunning :: "32 word" where "kRunning = push_bit kCountBits 1"
definition kShutdown :: "32 word" where "kShutdown = push_bit kCountBits 0"

definition isRunning :: "32 word \<Rightarrow> bool" where
  "isRunning ctl \<longleftrightarrow> ctl AND NOT kCountMask = kRunning"

definition isShutdown :: "32 word \<Rightarrow> bool" where
  "isShutdown ctl \<longleftrightarrow> ctl AND NOT kCountMask = kShutdown"

definition numOfActiveThreads :: "32 word \<Rightarrow> nat" where
  "numOfActiveThreads ctl = unat (ctl AND kCountMask)"

definition shutdownCtl :: "32 word \<Rightarrow> 32 word" where
  "shutdownCtl ctl = kShutdown OR (ctl AND kCountMask)"

text \<open>A control word that holds a state and a count.\<close>

definition enc :: "bool \<Rightarrow> nat \<Rightarrow> 32 word" where
  "enc run n = (if run then kRunning else kShutdown) OR of_nat n"

lemma kCountMask_mask: "kCountMask = mask 30"
  by (simp add: kCountMask_def kCountBits_def mask_eq_exp_minus_1)

lemma kRunning_exp: "kRunning = 2 ^ 30" "kShutdown = 0"
  by (simp_all add: kRunning_def kShutdown_def kCountBits_def)

lemma bit_kRunning: "bit kRunning k \<longleftrightarrow> k = 30"
  using bit_exp_iff[where 'a="32 word", of 30 k] by (auto simp: kRunning_exp)

lemma bit_of_nat_high: "n < 2 ^ 30 \<Longrightarrow> 30 \<le> k \<Longrightarrow> \<not> bit (of_nat n :: 32 word) k"
proof -
  assume n: "n < 2 ^ 30" and k: "30 \<le> k"
  then have "n div 2 ^ k = 0" using less_le_trans[OF n power_increasing[of 30 k "2::nat"]] by simp
  then have "\<not> bit n k" by (simp add: bit_iff_odd)
  then show ?thesis by (simp add: bit_simps)
qed

lemma enc_facts:
  assumes n: "n < 2 ^ 30"
  shows "isRunning (enc run n) \<longleftrightarrow> run" and "isShutdown (enc run n) \<longleftrightarrow> \<not> run"
    and "numOfActiveThreads (enc run n) = n" and "shutdownCtl (enc run n) = enc False n"
proof -
  have hi: "bit (of_nat n :: 32 word) k \<Longrightarrow> k < 30" for k
    using bit_of_nat_high[OF n] not_less by blast
  have bits: "bit (enc run n) k \<longleftrightarrow> (run \<and> k = 30) \<or> bit (of_nat n :: 32 word) k" for k
    by (auto simp: enc_def kRunning_exp(2) bit_kRunning bit_or_iff)
  have high: "enc run n AND NOT kCountMask = (if run then kRunning else 0)"
  proof (rule bit_word_eqI)
    fix k assume "k < LENGTH(32)"
    then show "bit (enc run n AND NOT kCountMask) k = bit (if run then kRunning else 0) k"
      using hi[of k] bits[of k] by (auto simp: kCountMask_mask bit_and_iff bit_not_iff bit_mask_iff bit_kRunning)
  qed
  have low: "enc run n AND kCountMask = of_nat n"
  proof (rule bit_word_eqI)
    fix k assume "k < LENGTH(32)"
    then show "bit (enc run n AND kCountMask) k = bit (of_nat n :: 32 word) k"
      using hi[of k] bits[of k] by (auto simp: kCountMask_mask bit_and_iff bit_mask_iff)
  qed
  have small: "n < 2 ^ 32" using n by simp
  show "isRunning (enc run n) \<longleftrightarrow> run" "isShutdown (enc run n) \<longleftrightarrow> \<not> run"
    by (simp_all add: isRunning_def isShutdown_def high kRunning_exp)
  show "numOfActiveThreads (enc run n) = n"
    using small by (simp add: numOfActiveThreads_def low unat_of_nat)
  show "shutdownCtl (enc run n) = enc False n"
    unfolding shutdownCtl_def low by (simp add: enc_def)
qed

lemma enc_plus: "n < 2 ^ 30 \<Longrightarrow> enc run n = (if run then 2 ^ 30 else 0) + of_nat n"
proof -
  assume n: "n < 2 ^ 30"
  have "kRunning + of_nat n = kRunning OR of_nat n"
    by (rule disjunctive_add) (use bit_of_nat_high[OF n] in \<open>auto simp: bit_kRunning\<close>)
  then show ?thesis by (simp add: enc_def kRunning_exp)
qed

lemma enc_inc: "Suc n < 2 ^ 30 \<Longrightarrow> enc run n + 1 = enc run (Suc n)"
  by (simp add: enc_plus)

lemma enc_dec: "Suc n < 2 ^ 30 \<Longrightarrow> enc run (Suc n) - 1 = enc run n"
  using enc_inc[of n run] by (metis add_diff_cancel_right')

lemma enc_inject: "n < 2 ^ 30 \<Longrightarrow> m < 2 ^ 30 \<Longrightarrow> enc a n = enc b m \<longleftrightarrow> a = b \<and> n = m"
  using enc_facts by metis

section \<open>The pool\<close>

text \<open>
  Tasks are numbered. A worker is running a task, at the head of its loop, about to lock the
  queue and test, holding the queue's mutex with nothing to take, asleep, or about to release
  itself; the flag tells core workers. A caller of \<^verbatim>\<open>execute\<close> is at one of the points between its
  atomic accesses (with the control word it has loaded, where it matters), and so is a caller of
  \<^verbatim>\<open>shutdown\<close>. \<open>submitted\<close>, \<open>accepted\<close>, \<open>rejected\<close>, \<open>started\<close> and \<open>discarded\<close> are ghosts.
\<close>

datatype worker =
    WRunning bool nat | WLoop bool | WTake bool | WBlocking bool | WAsleep bool | WRelease bool

datatype client =
    CExec nat
  | CAdd bool nat
  | CAddCas bool nat "32 word"
  | CCommit bool nat
  | CReload nat
  | CPush nat "32 word"
  | CNotify

datatype stopper = SStart | SCas | SCasWith "32 word" | SNotify | SWait | SDrain

record pool =
  corePoolSize :: nat
  maximumPoolSize :: nat
  taskQueue :: "nat bbq"
  queueLocked :: bool
  ctl :: "32 word"
  workers :: "worker multiset"
  clients :: "client multiset"
  stoppers :: "stopper multiset"
  submitted :: "nat multiset"
  accepted :: "nat multiset"
  rejected :: "nat multiset"
  started :: "nat multiset"
  discarded :: "nat multiset"

definition pool_new :: "int \<Rightarrow> int \<Rightarrow> nat \<Rightarrow> pool res" where
  "pool_new core maxi queueSize =
     (if core \<le> 0 \<or> core > maxi then Inl (Throw (InvalidArgument ''ThreadPool corePoolSize''))
      else Inr \<lparr>corePoolSize = nat core, maximumPoolSize = nat maxi, taskQueue = bbq_new queueSize,
        queueLocked = False, ctl = kRunning, workers = {#}, clients = {#}, stoppers = {#},
        submitted = {#}, accepted = {#}, rejected = {#}, started = {#}, discarded = {#}\<rparr>)"

text \<open>
  The local decisions of \<^verbatim>\<open>execute\<close>: after loading \<open>c\<close>; and of \<^verbatim>\<open>addThreadTask\<close> after loading
  \<open>c\<close>: \<open>None\<close> is to give up.
\<close>

definition execute_first :: "pool \<Rightarrow> 32 word \<Rightarrow> nat \<Rightarrow> client option" where
  "execute_first p c t =
     (if isShutdown c then None
      else if numOfActiveThreads c < corePoolSize p then Some (CAdd True t)
      else Some (CPush t c))"

definition addThreadTask_try :: "pool \<Rightarrow> bool \<Rightarrow> 32 word \<Rightarrow> bool" where
  "addThreadTask_try p isCore c \<longleftrightarrow>
     \<not> isShutdown c \<and> numOfActiveThreads c < (if isCore then corePoolSize p else maximumPoolSize p)"

text \<open>What follows a failed \<^verbatim>\<open>addThreadTask\<close>: reload and try the queue, or return false.\<close>

definition add_failed :: "bool \<Rightarrow> nat \<Rightarrow> client multiset \<Rightarrow> pool \<Rightarrow> pool" where
  "add_failed isCore t M p =
     (if isCore then p\<lparr>clients := add_mset (CReload t) M\<rparr>
      else p\<lparr>clients := M, rejected := add_mset t (rejected p)\<rparr>)"

definition wake_all :: "worker multiset \<Rightarrow> worker multiset" where
  "wake_all W = image_mset (\<lambda>w. case w of WAsleep b \<Rightarrow> WTake b | _ \<Rightarrow> w) W"

text \<open>The take a worker makes: core workers wait, others give up after the keep-alive time.\<close>

definition worker_take :: "bool \<Rightarrow> bool \<Rightarrow> pool \<Rightarrow> (nat option \<times> nat bbq) res attempt" where
  "worker_take isCore late p =
     (if isCore then take_pred (isShutdown (ctl p)) (isShutdown (ctl p)) (taskQueue p)
      else take_for_pred late (isShutdown (ctl p)) (isShutdown (ctl p)) (taskQueue p))"

inductive pool_step :: "pool \<Rightarrow> pool \<Rightarrow> bool" where
  exec_call: "pool_step p (p\<lparr>clients := add_mset (CExec t) (clients p), submitted := add_mset t (submitted p)\<rparr>)"
| exec_first: "clients p = add_mset (CExec t) M \<Longrightarrow> execute_first p (ctl p) t = Some c \<Longrightarrow>
    pool_step p (p\<lparr>clients := add_mset c M\<rparr>)"
| exec_refused: "clients p = add_mset (CExec t) M \<Longrightarrow> execute_first p (ctl p) t = None \<Longrightarrow>
    pool_step p (p\<lparr>clients := M, rejected := add_mset t (rejected p)\<rparr>)"
| add_load: "clients p = add_mset (CAdd b t) M \<Longrightarrow> addThreadTask_try p b (ctl p) \<Longrightarrow>
    pool_step p (p\<lparr>clients := add_mset (CAddCas b t (ctl p)) M\<rparr>)"
| add_give_up: "clients p = add_mset (CAdd b t) M \<Longrightarrow> \<not> addThreadTask_try p b (ctl p) \<Longrightarrow>
    pool_step p (add_failed b t M p)"
| add_cas: "clients p = add_mset (CAddCas b t c) M \<Longrightarrow> ctl p = c \<Longrightarrow>
    pool_step p (p\<lparr>clients := add_mset (CCommit b t) M, ctl := c + 1\<rparr>)"
| add_cas_lost: "clients p = add_mset (CAddCas b t c) M \<Longrightarrow> ctl p \<noteq> c \<Longrightarrow>
    pool_step p (p\<lparr>clients := add_mset (CAdd b t) M\<rparr>)"
| add_commit: "clients p = add_mset (CCommit b t) M \<Longrightarrow> isRunning (ctl p) \<Longrightarrow>
    pool_step p (p\<lparr>clients := M, workers := add_mset (WRunning b t) (workers p),
      accepted := add_mset t (accepted p), started := add_mset t (started p)\<rparr>)"
| add_undo: "clients p = add_mset (CCommit b t) M \<Longrightarrow> \<not> isRunning (ctl p) \<Longrightarrow>
    pool_step p (add_failed b t M (p\<lparr>ctl := ctl p - 1\<rparr>))"
| exec_reload: "clients p = add_mset (CReload t) M \<Longrightarrow>
    pool_step p (p\<lparr>clients := add_mset (CPush t (ctl p)) M\<rparr>)"
| exec_push: "clients p = add_mset (CPush t c) M \<Longrightarrow> isRunning c \<Longrightarrow> \<not> queueLocked p \<Longrightarrow>
    tryPush_copy True t (taskQueue p) = (True, q) \<Longrightarrow>
    pool_step p (p\<lparr>clients := add_mset CNotify M, taskQueue := q, accepted := add_mset t (accepted p)\<rparr>)"
| exec_push_failed: "clients p = add_mset (CPush t c) M \<Longrightarrow>
    \<not> isRunning c \<or> tryPush_copy owns t (taskQueue p) = (False, q) \<Longrightarrow>
    pool_step p (p\<lparr>clients := add_mset (CAdd False t) M\<rparr>)"
| exec_notify: "clients p = add_mset CNotify M \<Longrightarrow> workers p = add_mset (WAsleep b) W \<Longrightarrow>
    pool_step p (p\<lparr>clients := M, workers := add_mset (WTake b) W\<rparr>)"
| exec_notify_none: "clients p = add_mset CNotify M \<Longrightarrow> (\<And>b. WAsleep b \<notin># workers p) \<Longrightarrow>
    pool_step p (p\<lparr>clients := M\<rparr>)"
| work_done: "workers p = add_mset (WRunning b t) W \<Longrightarrow> pool_step p (p\<lparr>workers := add_mset (WLoop b) W\<rparr>)"
| work_loop: "workers p = add_mset (WLoop b) W \<Longrightarrow> isRunning (ctl p) \<Longrightarrow>
    pool_step p (p\<lparr>workers := add_mset (WTake b) W\<rparr>)"
| work_leave: "workers p = add_mset (WLoop b) W \<Longrightarrow> \<not> isRunning (ctl p) \<Longrightarrow>
    pool_step p (p\<lparr>workers := add_mset (WRelease b) W\<rparr>)"
| work_take: "workers p = add_mset (WTake b) W \<Longrightarrow> \<not> queueLocked p \<Longrightarrow>
    worker_take b late p = Done (Inr (Some t, q)) \<Longrightarrow>
    pool_step p (p\<lparr>workers := add_mset (WRunning b t) W, taskQueue := q, started := add_mset t (started p)\<rparr>)"
| work_nothing: "workers p = add_mset (WTake b) W \<Longrightarrow> \<not> queueLocked p \<Longrightarrow>
    worker_take b late p = Done (Inr (None, q)) \<Longrightarrow>
    pool_step p (p\<lparr>workers := add_mset (if b then WLoop b else WRelease b) W, taskQueue := q\<rparr>)"
| work_block: "workers p = add_mset (WTake b) W \<Longrightarrow> \<not> queueLocked p \<Longrightarrow>
    worker_take b False p = Blocked \<Longrightarrow>
    pool_step p (p\<lparr>workers := add_mset (WBlocking b) W, queueLocked := True\<rparr>)"
| work_sleep: "workers p = add_mset (WBlocking b) W \<Longrightarrow>
    pool_step p (p\<lparr>workers := add_mset (WAsleep b) W, queueLocked := False\<rparr>)"
| work_wake: "workers p = add_mset (WAsleep b) W \<Longrightarrow> pool_step p (p\<lparr>workers := add_mset (WTake b) W\<rparr>)"
| work_release: "workers p = add_mset (WRelease b) W \<Longrightarrow> pool_step p (p\<lparr>workers := W, ctl := ctl p - 1\<rparr>)"
| stop_call: "pool_step p (p\<lparr>stoppers := add_mset SStart (stoppers p)\<rparr>)"
| stop_again: "stoppers p = add_mset SStart T \<Longrightarrow> isShutdown (ctl p) \<Longrightarrow> pool_step p (p\<lparr>stoppers := T\<rparr>)"
| stop_start: "stoppers p = add_mset SStart T \<Longrightarrow> \<not> isShutdown (ctl p) \<Longrightarrow>
    pool_step p (p\<lparr>stoppers := add_mset SCas T\<rparr>)"
| stop_load: "stoppers p = add_mset SCas T \<Longrightarrow> pool_step p (p\<lparr>stoppers := add_mset (SCasWith (ctl p)) T\<rparr>)"
| stop_cas: "stoppers p = add_mset (SCasWith c) T \<Longrightarrow> ctl p = c \<Longrightarrow>
    pool_step p (p\<lparr>stoppers := add_mset SNotify T, ctl := shutdownCtl c\<rparr>)"
| stop_cas_lost: "stoppers p = add_mset (SCasWith c) T \<Longrightarrow> ctl p \<noteq> c \<Longrightarrow>
    pool_step p (p\<lparr>stoppers := add_mset SCas T\<rparr>)"
| stop_notify: "stoppers p = add_mset SNotify T \<Longrightarrow>
    pool_step p (p\<lparr>stoppers := add_mset SWait T, workers := wake_all (workers p)\<rparr>)"
| stop_waited: "stoppers p = add_mset SWait T \<Longrightarrow> numOfActiveThreads (ctl p) = 0 \<Longrightarrow>
    pool_step p (p\<lparr>stoppers := add_mset SDrain T\<rparr>)"
| stop_drain: "stoppers p = add_mset SDrain T \<Longrightarrow> \<not> queueLocked p \<Longrightarrow>
    tryPop True (taskQueue p) = Inr (Some t, q) \<Longrightarrow>
    pool_step p (p\<lparr>taskQueue := q, discarded := add_mset t (discarded p)\<rparr>)"
| stop_done: "stoppers p = add_mset SDrain T \<Longrightarrow> isEmpty (taskQueue p) \<Longrightarrow> pool_step p (p\<lparr>stoppers := T\<rparr>)"

inductive_cases pool_stepE: "pool_step p p'"

abbreviation pool_steps :: "pool \<Rightarrow> pool \<Rightarrow> bool" where
  "pool_steps \<equiv> pool_step\<^sup>*\<^sup>*"

section \<open>The count of active threads\<close>

fun is_commit :: "client \<Rightarrow> bool" where
  "is_commit (CCommit b t) = True" | "is_commit _ = False"

lemma num_empty [simp]: "num P {#} = 0"
  by (simp add: num_def)

lemma num_size [simp]: "num (\<lambda>x. True) M = size M"
  by (simp add: num_def)

lemma num_image: "num P (image_mset f M) = num (P \<circ> f) M"
  by (induction M) (auto simp: num_def)

text \<open>
  The control word holds a state and the number of workers plus the callers that have
  reserved a place but not yet created their worker, never more than the maximum; and a caller
  about to reserve a place has seen a free one.
\<close>

definition active :: "pool \<Rightarrow> nat" where
  "active p = size (workers p) + num is_commit (clients p)"

definition seen_free :: "pool \<Rightarrow> client multiset \<Rightarrow> bool" where
  "seen_free p M \<longleftrightarrow> (\<forall>b t c. CAddCas b t c \<in># M \<longrightarrow> addThreadTask_try p b c)"

definition sizes_ok :: "pool \<Rightarrow> bool" where
  "sizes_ok p \<longleftrightarrow> 0 < corePoolSize p \<and> corePoolSize p \<le> maximumPoolSize p \<and> maximumPoolSize p < 2 ^ 30"

definition count_inv :: "pool \<Rightarrow> bool" where
  "count_inv p \<longleftrightarrow> sizes_ok p \<and> (\<exists>r. ctl p = enc r (active p)) \<and> active p \<le> maximumPoolSize p \<and>
     seen_free p (clients p)"

lemma count_invD:
  assumes "count_inv p"
  obtains r where "ctl p = enc r (active p)" "active p < 2 ^ 30" "active p \<le> maximumPoolSize p"
    "isRunning (ctl p) = r" "isShutdown (ctl p) = (\<not> r)" "numOfActiveThreads (ctl p) = active p"
    "shutdownCtl (ctl p) = enc False (active p)"
proof -
  from assms obtain r where c: "ctl p = enc r (active p)" and n: "active p < 2 ^ 30" "active p \<le> maximumPoolSize p"
    by (auto simp: count_inv_def sizes_ok_def)
  from enc_facts[OF n(1), of r] that[OF c n] show thesis by (simp add: c)
qed

lemma seen_free_cong:
  "corePoolSize p' = corePoolSize p \<Longrightarrow> maximumPoolSize p' = maximumPoolSize p \<Longrightarrow>
   seen_free p' M = seen_free p M"
  by (simp add: seen_free_def addThreadTask_try_def)

lemma seen_free_sub:
  "seen_free p N \<Longrightarrow> (\<And>b t c. CAddCas b t c \<in># M \<Longrightarrow> CAddCas b t c \<in># N \<or> addThreadTask_try p b c) \<Longrightarrow>
   seen_free p M"
  unfolding seen_free_def by blast

lemma count_invI:
  assumes "sizes_ok p" and "corePoolSize p' = corePoolSize p" and "maximumPoolSize p' = maximumPoolSize p"
    and "ctl p' = enc r (active p')" and "active p' \<le> maximumPoolSize p" and "seen_free p (clients p')"
  shows "count_inv p'"
  using assms seen_free_cong[OF assms(2,3)] by (auto simp: count_inv_def sizes_ok_def)

lemma active_upd [simp]:
  "active (p\<lparr>ctl := c\<rparr>) = active p" "active (p\<lparr>stoppers := T\<rparr>) = active p"
  "active (p\<lparr>clients := M\<rparr>) = size (workers p) + num is_commit M"
  "active (p\<lparr>workers := W\<rparr>) = size W + num is_commit (clients p)"
  by (simp_all add: active_def)

lemma count_inv_parts:
  assumes "count_inv p"
  shows "sizes_ok p" and "active p \<le> maximumPoolSize p" and "seen_free p (clients p)"
  using assms unfolding count_inv_def by blast+

lemma count_inv_cong:
  assumes inv: "count_inv p" and c: "ctl p' = ctl p" and n: "active p' = active p"
    and sz: "corePoolSize p' = corePoolSize p" "maximumPoolSize p' = maximumPoolSize p"
    and "\<And>b t c. CAddCas b t c \<in># clients p' \<Longrightarrow> CAddCas b t c \<in># clients p \<or> addThreadTask_try p b c"
  shows "count_inv p'"
proof -
  from inv obtain r where r: "ctl p = enc r (active p)" unfolding count_inv_def by blast
  show ?thesis
  proof (rule count_invI[OF count_inv_parts(1)[OF inv] sz])
    show "ctl p' = enc r (active p')" unfolding c n by (rule r)
    show "active p' \<le> maximumPoolSize p" unfolding n by (rule count_inv_parts(2)[OF inv])
    show "seen_free p (clients p')" by (rule seen_free_sub[OF count_inv_parts(3)[OF inv] assms(6)])
  qed
qed

lemma count_inv_cas:
  assumes inv: "count_inv p" and cl: "clients p = add_mset (CAddCas b t (ctl p)) M"
  shows "count_inv (p\<lparr>clients := add_mset (CCommit b t) M, ctl := ctl p + 1\<rparr>)"
proof -
  note ok = count_inv_parts[OF inv]
  from inv obtain r where c: "ctl p = enc r (active p)" "numOfActiveThreads (ctl p) = active p" by (rule count_invD)
  have "addThreadTask_try p b (ctl p)" using ok(3) unfolding seen_free_def cl by simp
  then have free: "active p < maximumPoolSize p"
    using ok(1) unfolding addThreadTask_try_def c(2) sizes_ok_def by (auto split: if_splits)
  then have "Suc (active p) < 2 ^ 30" using ok(1) unfolding sizes_ok_def by linarith
  then have e: "ctl p + 1 = enc r (Suc (active p))" unfolding c(1) by (rule enc_inc)
  have n: "Suc (size (workers p) + num is_commit M) = Suc (active p)" by (simp add: active_def cl)
  have "seen_free p (add_mset (CCommit b t) M)" by (rule seen_free_sub[OF ok(3)]) (simp add: cl)
  then show ?thesis using free by (intro count_invI[OF ok(1)]) (simp_all add: n e)
qed

lemma count_inv_dec:
  assumes inv: "count_inv p" and one: "active p = Suc (size W + num is_commit M)"
    and sub: "\<And>b t c. CAddCas b t c \<in># M \<Longrightarrow> CAddCas b t c \<in># clients p"
  shows "count_inv (p\<lparr>workers := W, clients := M, ctl := ctl p - 1\<rparr>)"
proof -
  note ok = count_inv_parts[OF inv]
  from inv obtain r where c: "ctl p = enc r (active p)" "active p < 2 ^ 30" by (rule count_invD)
  have e: "ctl p - 1 = enc r (size W + num is_commit M)"
    using enc_dec[OF c(2)[unfolded one], of r] unfolding c(1) one .
  have "seen_free p M" by (rule seen_free_sub[OF ok(3)]) (use sub in blast)
  then show ?thesis using ok(2) unfolding one by (intro count_invI[OF ok(1)]) (simp_all add: e)
qed

lemma count_inv_stop:
  assumes inv: "count_inv p"
  shows "count_inv (p\<lparr>stoppers := T, ctl := shutdownCtl (ctl p)\<rparr>)"
proof -
  note ok = count_inv_parts[OF inv]
  from inv obtain r where c: "shutdownCtl (ctl p) = enc False (active p)" by (rule count_invD)
  with ok(2,3) show ?thesis by (intro count_invI[OF ok(1), where r=False]) simp_all
qed

lemma add_failed_simps [simp]:
  "ctl (add_failed b t M p) = ctl p" "workers (add_failed b t M p) = workers p"
  "corePoolSize (add_failed b t M p) = corePoolSize p"
  "maximumPoolSize (add_failed b t M p) = maximumPoolSize p"
  "clients (add_failed b t M p) = (if b then add_mset (CReload t) M else M)"
  "taskQueue (add_failed b t M p) = taskQueue p" "queueLocked (add_failed b t M p) = queueLocked p"
  "accepted (add_failed b t M p) = accepted p" "started (add_failed b t M p) = started p"
  "discarded (add_failed b t M p) = discarded p" "stoppers (add_failed b t M p) = stoppers p"
  by (simp_all add: add_failed_def)

lemma execute_first_cases:
  "execute_first p c t = Some x \<Longrightarrow> x = CAdd True t \<or> x = CPush t c \<and> corePoolSize p \<le> numOfActiveThreads c"
  by (auto simp: execute_first_def split: if_splits)

lemma pool_step_count:
  assumes "pool_step p p'" and inv: "count_inv p"
  shows "count_inv p'"
  using assms(1)
proof (cases rule: pool_step.cases)
  case (exec_first t M c)
  then show ?thesis using execute_first_cases[of p "ctl p" t c]
    by (intro count_inv_cong[OF inv]) (auto simp: active_def)
next
  case (add_cas b t c M)
  then show ?thesis using count_inv_cas[OF inv, of b t M] by simp
next
  case (add_undo b t M)
  have "count_inv (p\<lparr>workers := workers p, clients := M, ctl := ctl p - 1\<rparr>)"
    using add_undo by (intro count_inv_dec[OF inv]) (auto simp: active_def)
  then have c: "count_inv (p\<lparr>clients := M, ctl := ctl p - 1\<rparr>)" by simp
  show ?thesis unfolding add_undo(1) by (intro count_inv_cong[OF c]) (auto simp: active_def split: if_splits)
next
  case (work_release b W)
  have "count_inv (p\<lparr>workers := W, clients := clients p, ctl := ctl p - 1\<rparr>)"
    using work_release by (intro count_inv_dec[OF inv]) (auto simp: active_def)
  then show ?thesis using work_release(1) by simp
next
  case (stop_cas c T)
  then show ?thesis using count_inv_stop[OF inv, of "add_mset SNotify T"] by simp
qed (intro count_inv_cong[OF inv]; auto simp: active_def wake_all_def split: if_splits)+


section \<open>Where every task is\<close>

fun pending :: "client \<Rightarrow> nat multiset" where
  "pending (CExec t) = {#t#}" | "pending (CAdd b t) = {#t#}" | "pending (CAddCas b t c) = {#t#}"
| "pending (CCommit b t) = {#t#}" | "pending (CReload t) = {#t#}" | "pending (CPush t c) = {#t#}"
| "pending CNotify = {#}"

text \<open>
  Every submitted task is still in a call of \<^verbatim>\<open>execute\<close>, has been refused, or has been accepted;
  every accepted task has been started, waits in the queue, or was thrown away by \<^verbatim>\<open>shutdown\<close>.
\<close>

definition task_inv :: "pool \<Rightarrow> bool" where
  "task_inv p \<longleftrightarrow>
     submitted p = (\<Sum>c\<in>#clients p. pending c) + rejected p + accepted p \<and>
     accepted p = started p + mset (queue (taskQueue p)) + discarded p"

lemma worker_take_some:
  "worker_take b late p = Done (Inr (Some t, q)) \<Longrightarrow> queue (taskQueue p) = t # queue q"
  by (auto simp: worker_take_def take_pred_def take_for_pred_def pop_front_def split: if_splits list.splits)

lemma worker_take_none:
  "worker_take b late p = Done (Inr (None, q)) \<Longrightarrow>
   q = taskQueue p \<and> (isShutdown (ctl p) \<or> \<not> b \<and> queue q = [])"
  by (auto simp: worker_take_def take_pred_def take_for_pred_def pop_front_def split: if_splits list.splits)

lemma worker_take_blocked: "worker_take b late p = Blocked \<Longrightarrow> queue (taskQueue p) = []"
  by (auto simp: worker_take_def take_pred_def take_for_pred_def split: if_splits)

lemma tryPush_queue: "tryPush_copy owns t q = (True, q') \<Longrightarrow> queue q' = queue q @ [t]"
  by (auto simp: tryPush_copy_def push_back_def split: if_splits)

lemma tryPop_queue: "tryPop owns q = Inr (Some t, q') \<Longrightarrow> queue q = t # queue q'"
  by (auto simp: tryPop_def pop_front_def split: if_splits list.splits)

lemmas queue_moves = worker_take_some worker_take_none worker_take_blocked tryPush_queue tryPop_queue

lemma execute_first_pending: "execute_first p c t = Some x \<Longrightarrow> pending x = {#t#}"
  by (auto simp: execute_first_def split: if_splits)

lemma pool_step_task:
  assumes "pool_step p p'" and "task_inv p"
  shows "task_inv p'"
  using assms
  by (cases rule: pool_step.cases)
    (auto simp: task_inv_def add_failed_def execute_first_pending dest!: queue_moves)

section \<open>No task is stranded while the pool runs\<close>

fun is_core :: "worker \<Rightarrow> bool" where
  "is_core (WRunning b t) = b" | "is_core (WLoop b) = b" | "is_core (WTake b) = b"
| "is_core (WBlocking b) = b" | "is_core (WAsleep b) = b" | "is_core (WRelease b) = b"

fun core_commit :: "client \<Rightarrow> bool" where
  "core_commit (CCommit b t) = b" | "core_commit _ = False"

fun past_core :: "client \<Rightarrow> bool" where
  "past_core (CAdd b t) = (\<not> b)" | "past_core (CAddCas b t c) = (\<not> b)"
| "past_core (CCommit b t) = (\<not> b)" | "past_core (CReload t) = True" | "past_core (CPush t c) = True"
| "past_core CNotify = True" | "past_core (CExec t) = False"

text \<open>
  While the pool runs, its core places are filled first and core workers stay: any caller that
  went past the core stage, and any queued task, means that all core places are taken.
\<close>

definition core_inv :: "pool \<Rightarrow> bool" where
  "core_inv p \<longleftrightarrow> (isRunning (ctl p) \<longrightarrow>
     num is_core (workers p) + num core_commit (clients p) =
       (if active p \<le> corePoolSize p then active p else corePoolSize p) \<and>
     WRelease True \<notin># workers p \<and>
     (0 < num past_core (clients p) \<or> queue (taskQueue p) \<noteq> [] \<longrightarrow> corePoolSize p \<le> active p))"

fun is_awake :: "worker \<Rightarrow> bool" where
  "is_awake (WRunning b t) = True" | "is_awake (WLoop b) = True" | "is_awake (WTake b) = True"
| "is_awake _ = False"

fun is_blocking :: "worker \<Rightarrow> bool" where
  "is_blocking (WBlocking b) = True" | "is_blocking _ = False"

fun is_notify :: "client \<Rightarrow> bool" where
  "is_notify CNotify = True" | "is_notify _ = False"

text \<open>
  At most one worker is between testing and sleeping, it holds the lock, and the queue is empty;
  and while some worker sleeps there are notifications on their way or awake workers for all
  queued tasks.
\<close>

definition wake_inv :: "pool \<Rightarrow> bool" where
  "wake_inv p \<longleftrightarrow> (isRunning (ctl p) \<longrightarrow>
     num is_blocking (workers p) = (if queueLocked p then 1 else 0) \<and>
     (queueLocked p \<longrightarrow> queue (taskQueue p) = []) \<and>
     ((\<exists>b. WAsleep b \<in># workers p) \<longrightarrow>
        length (queue (taskQueue p)) \<le> num is_notify (clients p) + num is_awake (workers p)))"

lemma wake_all_simps [simp]:
  "size (wake_all W) = size W" "num is_blocking (wake_all W) = num is_blocking W"
  "num is_core (wake_all W) = num is_core W" "WAsleep b \<notin># wake_all W"
  "WRelease b \<in># wake_all W \<longleftrightarrow> WRelease b \<in># W"
  by (induction W) (auto simp: wake_all_def num_def split: worker.splits)

lemma reserve_facts:
  assumes inv: "count_inv p" and cl: "clients p = add_mset (CAddCas b t (ctl p)) M"
  shows "isRunning (ctl p + 1) = isRunning (ctl p)"
    and "active p < (if b then corePoolSize p else maximumPoolSize p)"
proof -
  note ok = count_inv_parts[OF inv]
  from inv obtain r where c: "ctl p = enc r (active p)" "numOfActiveThreads (ctl p) = active p" "isRunning (ctl p) = r"
    by (rule count_invD)
  have "addThreadTask_try p b (ctl p)" using ok(3) unfolding seen_free_def cl by simp
  then show free: "active p < (if b then corePoolSize p else maximumPoolSize p)"
    unfolding addThreadTask_try_def c(2) by simp
  then have n: "Suc (active p) < 2 ^ 30" using ok(1) unfolding sizes_ok_def by (auto split: if_splits)
  show "isRunning (ctl p + 1) = isRunning (ctl p)"
    unfolding c(3) by (unfold c(1) enc_inc[OF n]) (rule enc_facts(1)[OF n])
qed

lemma release_facts:
  assumes inv: "count_inv p" and n: "active p = Suc n"
  shows "isRunning (ctl p - 1) = isRunning (ctl p)"
proof -
  from inv obtain r where c: "ctl p = enc r (active p)" "active p < 2 ^ 30" "isRunning (ctl p) = r" by (rule count_invD)
  have n': "Suc n < 2 ^ 30" using c(2) n by simp
  show ?thesis unfolding c(3) by (unfold c(1) n enc_dec[OF n']) (rule enc_facts(1), use n' in simp)
qed

lemma stopped_facts: "count_inv p \<Longrightarrow> \<not> isRunning (shutdownCtl (ctl p))"
  using enc_facts(1)[of "active p" False] by (elim count_invD) simp

lemma running_iff: "count_inv p \<Longrightarrow> isShutdown (ctl p) = (\<not> isRunning (ctl p))"
  by (elim count_invD) simp

lemma pool_step_still_running:
  assumes "pool_step p p'" and inv: "count_inv p" and run: "isRunning (ctl p')"
  shows "isRunning (ctl p)"
  using assms(1)
proof (cases rule: pool_step.cases)
  case (add_cas b t c M) then show ?thesis using run reserve_facts(1)[OF inv] by simp
next
  case (work_release b W) then show ?thesis
    using run release_facts[OF inv, of "size W + num is_commit (clients p)"] by (simp add: active_def)
next
  case (add_undo b t M) then show ?thesis
    using run release_facts[OF inv, of "size (workers p) + num is_commit M"] by (simp add: active_def)
next
  case (stop_cas c T) then show ?thesis using run stopped_facts[OF inv] by simp
qed (use run in auto)

lemma pool_step_wake:
  assumes "pool_step p p'" and inv: "count_inv p" and w: "wake_inv p"
  shows "wake_inv p'"
proof (cases "isRunning (ctl p')")
  case True
  have run: "isRunning (ctl p)" by (rule pool_step_still_running[OF assms(1) inv True])
  have ns: "\<not> isShutdown (ctl p)" using running_iff[OF inv] run by simp
  from assms(1) w run ns show ?thesis unfolding wake_inv_def
    by (cases rule: pool_step.cases)
      (auto simp: add_failed_def dest!: queue_moves execute_first_cases split: if_splits)
qed (simp add: wake_inv_def)

lemma num_mono: "(\<And>x. P x \<Longrightarrow> Q x) \<Longrightarrow> num P M \<le> num Q M"
  by (induction M) (auto simp: num_def)

lemma core_commit_is_commit: "core_commit c \<Longrightarrow> is_commit c"
  by (cases c) auto

lemma pool_step_core:
  assumes "pool_step p p'" and inv: "count_inv p" and c: "core_inv p"
  shows "core_inv p'"
proof (cases "isRunning (ctl p')")
  case True
  have run: "isRunning (ctl p)" by (rule pool_step_still_running[OF assms(1) inv True])
  have ns: "\<not> isShutdown (ctl p)" using running_iff[OF inv] run by simp
  have n: "numOfActiveThreads (ctl p) = active p" using inv by (rule count_invD)
  have core: "num is_core (workers p) + num core_commit (clients p) =
       (if active p \<le> corePoolSize p then active p else corePoolSize p)"
     "WRelease True \<notin># workers p"
     "0 < num past_core (clients p) \<Longrightarrow> corePoolSize p \<le> active p"
     "queue (taskQueue p) \<noteq> [] \<Longrightarrow> corePoolSize p \<le> active p"
    using c run unfolding core_inv_def by blast+
  from assms(1) show ?thesis
  proof (cases rule: pool_step.cases)
    case (exec_first t M c)
    then show ?thesis using core n by (auto simp: core_inv_def active_def execute_first_def split: if_splits)
  next
    case (add_cas b t c M)
    then show ?thesis using core reserve_facts(2)[OF inv, of b t M]
      by (auto simp: core_inv_def active_def split: if_splits)
  next
    case (add_give_up b t M)
    then show ?thesis using core ns n
      by (auto simp: core_inv_def active_def add_failed_def addThreadTask_try_def split: if_splits)
  next
    case (work_release b W)
    have b: "\<not> b" using work_release(2) core(2) by (cases b) auto
    have "num is_core W \<le> size W" "num core_commit (clients p) \<le> num is_commit (clients p)"
      using num_mono[of is_core "\<lambda>x. True" W] num_mono[of core_commit is_commit] core_commit_is_commit by auto
    then show ?thesis using core b work_release by (auto simp: core_inv_def active_def split: if_splits)
  next
    case (work_take b W late t q)
    then show ?thesis using core
      by (auto simp: core_inv_def active_def dest!: queue_moves split: if_splits)
  next
    case (work_nothing b W late q)
    then show ?thesis using core ns
      by (auto simp: core_inv_def active_def dest!: queue_moves split: if_splits)
  qed (use core run in \<open>auto simp: core_inv_def active_def dest!: queue_moves split: if_splits\<close>)
qed (simp add: core_inv_def)

section \<open>Reachable pools\<close>

definition pool_inv :: "pool \<Rightarrow> bool" where
  "pool_inv p \<longleftrightarrow> count_inv p \<and> task_inv p \<and> core_inv p \<and> wake_inv p"

lemma enc_new: "kRunning = enc True 0"
  by (simp add: enc_def)

lemma pool_new_inv:
  assumes "pool_new core maxi queueSize = Inr p" and "maxi < 2 ^ 30"
  shows "pool_inv p"
proof -
  from assms have sz: "sizes_ok p" by (auto simp: pool_new_def sizes_ok_def split: if_splits)
  from assms(1) have p: "ctl p = kRunning" "workers p = {#}" "clients p = {#}" "queue (taskQueue p) = []"
    "\<not> queueLocked p" "submitted p = {#}" "rejected p = {#}" "accepted p = {#}" "started p = {#}" "discarded p = {#}"
    by (auto simp: pool_new_def bbq_new_def split: if_splits)
  have n: "active p = 0" by (simp add: active_def p num_def)
  have "count_inv p" using sz by (intro count_invI[of p p True]) (simp_all add: p n enc_new[symmetric] seen_free_def)
  then show ?thesis by (simp add: pool_inv_def task_inv_def core_inv_def wake_inv_def p n num_def)
qed

lemma pool_steps_inv:
  assumes "pool_steps p p'" and "pool_inv p"
  shows "pool_inv p'"
  using assms
proof induction
  case (step q r)
  then show ?case unfolding pool_inv_def
    using pool_step_count[of q r] pool_step_task[of q r] pool_step_core[of q r] pool_step_wake[of q r] by blast
qed

lemma pool_steps_sizes: "pool_steps p p' \<Longrightarrow> maximumPoolSize p' = maximumPoolSize p"
  by (induction rule: rtranclp_induct) (auto elim!: pool_stepE)

text \<open>
  C38. The packed control word always tells the truth, whatever the interleaving of callers of
  \<^verbatim>\<open>execute\<close>, workers and \<^verbatim>\<open>shutdown\<close>: the count in its low 30 bits is exactly the number of workers
  plus the callers that have reserved a place and not yet used it, the number of workers never
  exceeds the maximum pool size, and its state bits say running or shut down.
\<close>

theorem pool_thread_count_exact:
  assumes "pool_new core maxi queueSize = Inr p" and "maxi < 2 ^ 30" and "pool_steps p p'"
  shows "numOfActiveThreads (ctl p') = size (workers p') + num is_commit (clients p') \<and>
         int (size (workers p')) \<le> maxi \<and> isRunning (ctl p') \<noteq> isShutdown (ctl p')"
proof -
  have inv: "count_inv p'" using pool_steps_inv[OF assms(3) pool_new_inv[OF assms(1,2)]] by (simp add: pool_inv_def)
  have "numOfActiveThreads (ctl p') = active p'" using inv by (rule count_invD)
  moreover have "int (maximumPoolSize p') \<le> maxi"
    using pool_steps_sizes[OF assms(3)] assms(1) by (auto simp: pool_new_def split: if_splits)
  ultimately show ?thesis
    using count_inv_parts(2)[OF inv] running_iff[OF inv] by (auto simp: active_def)
qed

text \<open>
  C39. No task is lost or run twice: in every reachable state the tasks submitted are exactly
  those still inside a call of \<^verbatim>\<open>execute\<close>, those refused, those started by a worker, those waiting
  in the queue, and those discarded by \<^verbatim>\<open>shutdown\<close>, each counted once.
\<close>

theorem pool_tasks_conserved:
  assumes "pool_new core maxi queueSize = Inr p" and "maxi < 2 ^ 30" and "pool_steps p p'"
  shows "submitted p' = (\<Sum>c\<in>#clients p'. pending c) + rejected p' + started p' +
           mset (queue (taskQueue p')) + discarded p'"
  using pool_steps_inv[OF assms(3) pool_new_inv[OF assms(1,2)]] by (simp add: pool_inv_def task_inv_def)

text \<open>
  C40. While the pool is running, a queued task is never stranded: some worker is running a task
  or on its way to the queue, or a notification is on its way to a sleeping worker, or a caller
  is about to create a core worker. So the pool cannot come to rest with a task in its queue.
\<close>

theorem pool_task_never_stranded:
  assumes "pool_new core maxi queueSize = Inr p" and "maxi < 2 ^ 30" and "pool_steps p p'"
    and "isRunning (ctl p')" and "queue (taskQueue p') \<noteq> []"
  shows "(\<exists>w. w \<in># workers p' \<and> is_awake w) \<or> CNotify \<in># clients p' \<or>
         (\<exists>t. CCommit True t \<in># clients p')"
proof -
  have inv: "pool_inv p'" by (rule pool_steps_inv[OF assms(3) pool_new_inv[OF assms(1,2)]])
  have sz: "0 < corePoolSize p'" using inv count_inv_parts(1) unfolding pool_inv_def sizes_ok_def by blast
  have notl: "\<not> queueLocked p'" using inv assms(4,5) by (auto simp: pool_inv_def wake_inv_def)
  then have blk: "num is_blocking (workers p') = 0" using inv assms(4) by (auto simp: pool_inv_def wake_inv_def)
  have "0 < num is_core (workers p') + num core_commit (clients p')"
    using inv assms(4,5) sz by (auto simp: pool_inv_def core_inv_def split: if_splits)
  then consider w where "w \<in># workers p'" "is_core w" | c where "c \<in># clients p'" "core_commit c"
    by (metis add_is_0 neq0_conv num_pos)
  then show ?thesis
  proof cases
    case (1 w)
    show ?thesis
    proof (cases w)
      case (WAsleep b)
      then have "length (queue (taskQueue p')) \<le> num is_notify (clients p') + num is_awake (workers p')"
        using inv assms(4) 1(1) unfolding pool_inv_def wake_inv_def by blast
      moreover have "0 < length (queue (taskQueue p'))" using assms(5) by simp
      ultimately have "0 < num is_notify (clients p') + num is_awake (workers p')" by linarith
      then have "(\<exists>c \<in># clients p'. is_notify c) \<or> (\<exists>w \<in># workers p'. is_awake w)"
        by (metis add_is_0 neq0_conv num_pos)
      then show ?thesis by (auto elim: is_notify.elims)
    next
      case (WBlocking b)
      then show ?thesis using blk 1(1) num_pos[of is_blocking "workers p'"] by auto
    next
      case (WRelease b)
      then show ?thesis using inv assms(4) 1 by (auto simp: pool_inv_def core_inv_def)
    qed (use 1 in auto)
  next
    case (2 c) then show ?thesis by (cases c) auto
  qed
qed

section \<open>Concrete runs\<close>

text \<open>A pool with one core place, one place in all and a queue of one, in the middle of a run.\<close>

definition demo :: "32 word \<Rightarrow> worker multiset \<Rightarrow> client multiset \<Rightarrow> stopper multiset \<Rightarrow> nat list \<Rightarrow> bool \<Rightarrow>
    nat multiset \<Rightarrow> nat multiset \<Rightarrow> nat multiset \<Rightarrow> pool" where
  "demo c W C S q l sub acc sta =
     \<lparr>corePoolSize = 1, maximumPoolSize = 1, taskQueue = \<lparr>maxQueueSize = 1, queue = q\<rparr>, queueLocked = l,
      ctl = c, workers = W, clients = C, stoppers = S, submitted = sub, accepted = acc, rejected = {#},
      started = sta, discarded = {#}\<rparr>"

lemma enc_one:
  "isRunning (enc True 1)" "\<not> isShutdown (enc True 1)" "numOfActiveThreads (enc True 1) = 1"
  "isShutdown (enc False 1)" "\<not> isRunning (enc False 1)" "numOfActiveThreads (enc False 1) = 1"
  "shutdownCtl (enc True 1) = enc False 1"
  "isRunning (enc True 0)" "\<not> isShutdown (enc True 0)" "numOfActiveThreads (enc True 0) = 0"
  "enc True 0 + 1 = enc True 1"
  using enc_facts[of 1] enc_facts[of 0] enc_inc[of 0 True] by simp_all

lemmas enc_ones = enc_one enc_one[unfolded One_nat_def]

lemmas demo_simps = demo_def enc_ones execute_first_def addThreadTask_try_def worker_take_def take_pred_def
  tryPush_copy_def isFull_def push_back_def wake_all_def

lemmas steps_via = converse_rtranclp_into_rtranclp[of pool_step]

lemma demo_new: "pool_new 1 1 1 = Inr (demo (enc True 0) {#} {#} {#} [] False {#} {#} {#})"
  by (simp add: pool_new_def bbq_new_def demo_def enc_new)

lemma demo_first_task:
  "pool_steps (demo (enc True 0) {#} {#} {#} [] False {#} {#} {#})
              (demo (enc True 1) {#WRunning True 0#} {#} {#} [] False {#0#} {#0#} {#0#})"
proof -
  let ?d = "\<lambda>C. demo (enc True 0) {#} C {#} [] False {#0#} {#} {#}"
  have 1: "pool_step (demo (enc True 0) {#} {#} {#} [] False {#} {#} {#}) (?d {#CExec 0#})"
    using exec_call[of "demo (enc True 0) {#} {#} {#} [] False {#} {#} {#}" 0] by (simp add: demo_simps)
  have 2: "pool_step (?d {#CExec 0#}) (?d {#CAdd True 0#})"
    using exec_first[of "?d {#CExec 0#}" 0 "{#}"] by (simp add: demo_simps)
  have 3: "pool_step (?d {#CAdd True 0#}) (?d {#CAddCas True 0 (enc True 0)#})"
    using add_load[of "?d {#CAdd True 0#}" True 0 "{#}"] by (simp add: demo_simps)
  have 4: "pool_step (?d {#CAddCas True 0 (enc True 0)#})
      (demo (enc True 1) {#} {#CCommit True 0#} {#} [] False {#0#} {#} {#})"
    using add_cas[of "?d {#CAddCas True 0 (enc True 0)#}" True 0 "enc True 0" "{#}"] by (simp add: demo_simps)
  have 5: "pool_step (demo (enc True 1) {#} {#CCommit True 0#} {#} [] False {#0#} {#} {#})
      (demo (enc True 1) {#WRunning True 0#} {#} {#} [] False {#0#} {#0#} {#0#})"
    using add_commit[of "demo (enc True 1) {#} {#CCommit True 0#} {#} [] False {#0#} {#} {#}" True 0 "{#}"]
    by (simp add: demo_simps)
  show ?thesis
    by (rule steps_via[OF 1 steps_via[OF 2 steps_via[OF 3 steps_via[OF 4 steps_via[OF 5 rtranclp.rtrancl_refl]]]]])
qed

lemma demo_second_task:
  "pool_steps (demo (enc True 1) {#WRunning True 0#} {#} {#} [] False {#0#} {#0#} {#0#})
              (demo (enc True 1) {#WRunning True 0#} {#CNotify#} {#} [1] False {#0, 1#} {#0, 1#} {#0#})"
proof -
  let ?d = "\<lambda>C. demo (enc True 1) {#WRunning True 0#} C {#} [] False {#0, 1#} {#0#} {#0#}"
  have 1: "pool_step (demo (enc True 1) {#WRunning True 0#} {#} {#} [] False {#0#} {#0#} {#0#}) (?d {#CExec 1#})"
    using exec_call[of "demo (enc True 1) {#WRunning True 0#} {#} {#} [] False {#0#} {#0#} {#0#}" 1]
    by (simp add: demo_simps add_mset_commute)
  have 2: "pool_step (?d {#CExec 1#}) (?d {#CPush 1 (enc True 1)#})"
    using exec_first[of "?d {#CExec 1#}" 1 "{#}"] by (simp add: demo_simps)
  have 3: "pool_step (?d {#CPush 1 (enc True 1)#})
      (demo (enc True 1) {#WRunning True 0#} {#CNotify#} {#} [1] False {#0, 1#} {#0, 1#} {#0#})"
    using exec_push[of "?d {#CPush 1 (enc True 1)#}" 1 "enc True 1" "{#}"]
    by (simp add: demo_simps add_mset_commute)
  show ?thesis
    by (rule steps_via[OF 1 steps_via[OF 2 steps_via[OF 3 rtranclp.rtrancl_refl]]])
qed

lemma demo_steps:
  "pool_steps (demo (enc True 0) {#} {#} {#} [] False {#} {#} {#})
              (demo (enc True 1) {#WRunning True 0#} {#CNotify#} {#} [1] False {#0, 1#} {#0, 1#} {#0#})"
  by (rule rtranclp_trans[OF demo_first_task demo_second_task])

theorem pool_thread_count_exact_witness:
  "\<exists>p p'. pool_new 1 1 1 = Inr p \<and> pool_steps p p' \<and> queue (taskQueue p') = [1] \<and>
     numOfActiveThreads (ctl p') = 1 \<and> size (workers p') + num is_commit (clients p') = 1"
  using pool_thread_count_exact[OF demo_new _ demo_steps] demo_new demo_steps
  by (intro exI[of _ "demo (enc True 0) {#} {#} {#} [] False {#} {#} {#}"]
      exI[of _ "demo (enc True 1) {#WRunning True 0#} {#CNotify#} {#} [1] False {#0, 1#} {#0, 1#} {#0#}"])
    (simp add: demo_def enc_ones)

theorem pool_tasks_conserved_witness:
  "\<exists>p p'. pool_new 1 1 1 = Inr p \<and> pool_steps p p' \<and> submitted p' = {#0, 1#} \<and>
     submitted p' = (\<Sum>c\<in>#clients p'. pending c) + rejected p' + started p' +
       mset (queue (taskQueue p')) + discarded p'"
  using pool_tasks_conserved[OF demo_new _ demo_steps] demo_new demo_steps
  by (intro exI[of _ "demo (enc True 0) {#} {#} {#} [] False {#} {#} {#}"]
      exI[of _ "demo (enc True 1) {#WRunning True 0#} {#CNotify#} {#} [1] False {#0, 1#} {#0, 1#} {#0#}"])
    (simp add: demo_def)

theorem pool_task_never_stranded_witness:
  "\<exists>p p'. pool_new 1 1 1 = Inr p \<and> pool_steps p p' \<and> queue (taskQueue p') = [1] \<and>
     ((\<exists>w. w \<in># workers p' \<and> is_awake w) \<or> CNotify \<in># clients p' \<or> (\<exists>t. CCommit True t \<in># clients p'))"
  using pool_task_never_stranded[OF demo_new _ demo_steps] demo_new demo_steps
  by (intro exI[of _ "demo (enc True 0) {#} {#} {#} [] False {#} {#} {#}"]
      exI[of _ "demo (enc True 1) {#WRunning True 0#} {#CNotify#} {#} [1] False {#0, 1#} {#0, 1#} {#0#}"])
    (simp add: demo_def enc_ones)

section \<open>Shutdown can hang\<close>

abbreviation stuck_pool :: pool where
  "stuck_pool \<equiv> demo (enc False 1) {#WAsleep True#} {#} {#SWait#} [] False {#0#} {#0#} {#0#}"

lemma reach_stuck:
  "pool_steps (demo (enc True 1) {#WRunning True 0#} {#} {#} [] False {#0#} {#0#} {#0#}) stuck_pool"
proof -
  let ?w = "\<lambda>w l. demo (enc True 1) {#w#} {#} {#} [] l {#0#} {#0#} {#0#}"
  let ?s = "\<lambda>c s. demo c {#WBlocking True#} {#} {#s#} [] True {#0#} {#0#} {#0#}"
  have 1: "pool_step (?w (WRunning True 0) False) (?w (WLoop True) False)"
    using work_done[of "?w (WRunning True 0) False" True 0 "{#}"] by (simp add: demo_simps)
  have 2: "pool_step (?w (WLoop True) False) (?w (WTake True) False)"
    using work_loop[of "?w (WLoop True) False" True "{#}"] by (simp add: demo_simps)
  have 3: "pool_step (?w (WTake True) False) (?w (WBlocking True) True)"
    using work_block[of "?w (WTake True) False" True "{#}"] by (simp add: demo_simps)
  have 4: "pool_step (?w (WBlocking True) True) (?s (enc True 1) SStart)"
    using stop_call[of "?w (WBlocking True) True"] by (simp add: demo_simps)
  have 5: "pool_step (?s (enc True 1) SStart) (?s (enc True 1) SCas)"
    using stop_start[of "?s (enc True 1) SStart" "{#}"] by (simp add: demo_simps)
  have 6: "pool_step (?s (enc True 1) SCas) (?s (enc True 1) (SCasWith (enc True 1)))"
    using stop_load[of "?s (enc True 1) SCas" "{#}"] by (simp add: demo_simps)
  have 7: "pool_step (?s (enc True 1) (SCasWith (enc True 1))) (?s (enc False 1) SNotify)"
    using stop_cas[of "?s (enc True 1) (SCasWith (enc True 1))" "enc True 1" "{#}"] by (simp add: demo_simps)
  have 8: "pool_step (?s (enc False 1) SNotify) (?s (enc False 1) SWait)"
    using stop_notify[of "?s (enc False 1) SNotify" "{#}"] by (simp add: demo_simps)
  have 9: "pool_step (?s (enc False 1) SWait) stuck_pool"
    using work_sleep[of "?s (enc False 1) SWait" True "{#}"] by (simp add: demo_simps)
  show ?thesis
    by (rule steps_via[OF 1 steps_via[OF 2 steps_via[OF 3 steps_via[OF 4 steps_via[OF 5 steps_via[OF 6 steps_via[OF 7 steps_via[OF 8 steps_via[OF 9 rtranclp.rtrancl_refl]]]]]]]]])
qed

lemma stuck_pool_steps:
  assumes "pool_step stuck_pool q"
  shows "(\<exists>t. q = stuck_pool\<lparr>clients := {#CExec t#}, submitted := {#t, 0#}\<rparr>) \<or>
         q = stuck_pool\<lparr>stoppers := {#SStart, SWait#}\<rparr> \<or> q = stuck_pool\<lparr>workers := {#WTake True#}\<rparr>"
  using assms by (cases rule: pool_step.cases) (auto simp: demo_def enc_ones add_mset_eq_single)

text \<open>
  The pool's shutdown can hang: there is a run in which a worker has tested its wait condition
  and still holds the queue's mutex while \<^verbatim>\<open>shutdown\<close> stores the new state and notifies without
  taking that mutex, and the worker goes to sleep afterwards. In the state reached, \<^verbatim>\<open>shutdown\<close>
  waits for the count of threads to become 0, the worker sleeps, and nothing but a spurious
  wake-up of the worker or a new call from outside can happen.
\<close>

lemma pool_shutdown_can_hang:
  "\<exists>p p'. pool_new 1 1 1 = Inr p \<and> pool_steps p p' \<and> isShutdown (ctl p') \<and>
     numOfActiveThreads (ctl p') = 1 \<and> workers p' = {#WAsleep True#} \<and> stoppers p' = {#SWait#} \<and> clients p' = {#} \<and>
     (\<forall>q. pool_step p' q \<longleftrightarrow>
        (\<exists>t. q = p'\<lparr>clients := {#CExec t#}, submitted := add_mset t (submitted p')\<rparr>) \<or>
        q = p'\<lparr>stoppers := {#SStart, SWait#}\<rparr> \<or> q = p'\<lparr>workers := {#WTake True#}\<rparr>)"
proof -
  have "pool_step stuck_pool q" if "(\<exists>t. q = stuck_pool\<lparr>clients := {#CExec t#}, submitted := {#t, 0#}\<rparr>) \<or>
      q = stuck_pool\<lparr>stoppers := {#SStart, SWait#}\<rparr> \<or> q = stuck_pool\<lparr>workers := {#WTake True#}\<rparr>" for q
    using that exec_call[of stuck_pool] stop_call[of stuck_pool] work_wake[of stuck_pool True "{#}"]
    by (auto simp: demo_def)
  then have "pool_step stuck_pool q \<longleftrightarrow>
      (\<exists>t. q = stuck_pool\<lparr>clients := {#CExec t#}, submitted := add_mset t (submitted stuck_pool)\<rparr>) \<or>
      q = stuck_pool\<lparr>stoppers := {#SStart, SWait#}\<rparr> \<or> q = stuck_pool\<lparr>workers := {#WTake True#}\<rparr>" for q
    using stuck_pool_steps[of q] by (auto simp: demo_def)
  moreover have "isShutdown (ctl stuck_pool)" "numOfActiveThreads (ctl stuck_pool) = 1"
    "workers stuck_pool = {#WAsleep True#}" "stoppers stuck_pool = {#SWait#}" "clients stuck_pool = {#}"
    by (simp_all add: demo_def enc_ones)
  ultimately show ?thesis using demo_new rtranclp_trans[OF demo_first_task reach_stuck] by blast
qed

end
