(* ===== verification/Stack_Buffer.thy ===== *)
theory Stack_Buffer
  imports Nets_Prelude
begin

text \<open>
  \<^verbatim>\<open>nets/base/StackBuffer.h\<close> and \<^verbatim>\<open>nets/base/log/LogBuffer.{h,cpp}\<close>: the fixed array on the stack
  in which a log line is composed. The template parameter \<^verbatim>\<open>SIZE\<close> is the length of the array.
  A write that does not fit is dropped; text needs one byte of room more than its length, so the
  array stays terminated by a zero byte, and numbers need room for the longest number.
\<close>

section \<open>The buffer\<close>

abbreviation NUL :: char where "NUL \<equiv> CHR 0x00"

definition kDigits :: string where "kDigits = ''0123456789''"
definition kHexDigits :: string where "kHexDigits = ''0123456789abcdef''"
definition kMaximumNumberLimit :: nat where "kMaximumNumberLimit = 20"

record stack_buffer =
  sb_buffer :: string
  sb_writerIndex :: nat

definition sb_new :: "nat \<Rightarrow> stack_buffer" where
  "sb_new SIZE = \<lparr>sb_buffer = replicate SIZE NUL, sb_writerIndex = 0\<rparr>"

definition memzero :: "string \<Rightarrow> nat \<Rightarrow> string res" where
  "memzero buf n = mem_write buf 0 (replicate n NUL)"

definition sb_copy :: "stack_buffer \<Rightarrow> stack_buffer res" where
  "sb_copy other =
     ebind (mem_read (sb_buffer other) 0 (sb_writerIndex other)) (\<lambda>d.
     ebind (mem_write (replicate (length (sb_buffer other)) NUL) 0 d) (\<lambda>buf.
       Inr \<lparr>sb_buffer = buf, sb_writerIndex = sb_writerIndex other\<rparr>))"

text \<open>The new object and what is left of the old one.\<close>

definition sb_move :: "stack_buffer \<Rightarrow> (stack_buffer \<times> stack_buffer) res" where
  "sb_move other =
     ebind (sb_copy other) (\<lambda>b.
     ebind (memzero (sb_buffer other) (sb_writerIndex other)) (\<lambda>buf.
       Inr (b, \<lparr>sb_buffer = buf, sb_writerIndex = 0\<rparr>)))"

text \<open>
  The statements of the two assignment operators. Both are declared to return a reference and end
  without a return statement, on every path; reaching the end of such a function is undefined.
\<close>

definition sb_assign :: "stack_buffer \<Rightarrow> stack_buffer \<Rightarrow> stack_buffer res" where
  "sb_assign other b =
     ebind (memzero (sb_buffer b) (sb_writerIndex b)) (\<lambda>buf.
     ebind (mem_read (sb_buffer other) 0 (sb_writerIndex other)) (\<lambda>d.
     ebind (mem_write buf 0 d) (\<lambda>buf. Inr (b\<lparr>sb_buffer := buf, sb_writerIndex := sb_writerIndex other\<rparr>))))"

definition sb_assign_move :: "stack_buffer \<Rightarrow> stack_buffer \<Rightarrow> (stack_buffer \<times> stack_buffer) res" where
  "sb_assign_move other b =
     ebind (sb_assign other b) (\<lambda>b.
     ebind (memzero (sb_buffer other) (sb_writerIndex other)) (\<lambda>buf.
       Inr (b, other\<lparr>sb_buffer := buf, sb_writerIndex := 0\<rparr>)))"

definition no_return :: "'a res \<Rightarrow> 'a res" where
  "no_return m = ebind m (\<lambda>x. Inl Undefined)"

definition sb_copy_assign :: "bool \<Rightarrow> stack_buffer \<Rightarrow> stack_buffer \<Rightarrow> stack_buffer res" where
  "sb_copy_assign self other b = no_return (if \<not> self then sb_assign other b else Inr b)"

definition sb_move_assign :: "bool \<Rightarrow> stack_buffer \<Rightarrow> stack_buffer \<Rightarrow> (stack_buffer \<times> stack_buffer) res" where
  "sb_move_assign self other b = no_return (if \<not> self then sb_assign_move other b else Inr (b, b))"

definition sb_swap :: "stack_buffer \<Rightarrow> stack_buffer \<Rightarrow> (stack_buffer \<times> stack_buffer) res" where
  "sb_swap b other =
     (let n = (if sb_writerIndex b < sb_writerIndex other then sb_writerIndex other else sb_writerIndex b)
      in if n \<le> length (sb_buffer b) \<and> n \<le> length (sb_buffer other)
         then Inr (\<lparr>sb_buffer = take n (sb_buffer other) @ drop n (sb_buffer b), sb_writerIndex = sb_writerIndex other\<rparr>,
                   \<lparr>sb_buffer = take n (sb_buffer b) @ drop n (sb_buffer other), sb_writerIndex = sb_writerIndex b\<rparr>)
         else Inl Undefined)"

definition sb_writableBytes :: "stack_buffer \<Rightarrow> nat" where
  "sb_writableBytes b = sz_sub (length (sb_buffer b)) (sb_writerIndex b)"

definition sb_writeBytes :: "string \<Rightarrow> stack_buffer \<Rightarrow> stack_buffer res" where
  "sb_writeBytes data b =
     (if sb_writableBytes b > length data
      then ebind (mem_write (sb_buffer b) (sb_writerIndex b) data) (\<lambda>buf.
        Inr \<lparr>sb_buffer = buf, sb_writerIndex = sb_writerIndex b + length data\<rparr>)
      else Inr b)"

definition sb_writeString :: "string \<Rightarrow> stack_buffer \<Rightarrow> stack_buffer res" where
  "sb_writeString str b = sb_writeBytes str b"

text \<open>\<^verbatim>\<open>strlen\<close> stops at the first zero byte.\<close>

definition sb_writeCString :: "string \<Rightarrow> stack_buffer \<Rightarrow> stack_buffer res" where
  "sb_writeCString data b = sb_writeBytes (takeWhile (\<lambda>c. c \<noteq> NUL) data) b"

definition sb_writeBuffer :: "stack_buffer \<Rightarrow> stack_buffer \<Rightarrow> stack_buffer res" where
  "sb_writeBuffer buffer b =
     ebind (mem_read (sb_buffer buffer) 0 (sb_writerIndex buffer)) (\<lambda>d. sb_writeBytes d b)"

definition sb_writeByte :: "char \<Rightarrow> stack_buffer \<Rightarrow> stack_buffer res" where
  "sb_writeByte v b = sb_writeBytes [v] b"

text \<open>
  The digit loop of \<^verbatim>\<open>writeInteger\<close>: the characters in the order written (the last digit first) and
  the final value. \<^verbatim>\<open>value % 10\<close> is negative for a negative value, an index before the array.
\<close>

function digits_loop :: "int \<Rightarrow> (string \<times> int) res" where
  "digits_loop v =
     (let lastIndex = cmod v 10
      in if lastIndex < 0 then Inl Undefined
         else (let c = kDigits ! nat lastIndex; v' = cdiv v 10
               in if v' > 0 then ebind (digits_loop v') (\<lambda>(ds, r). Inr (c # ds, r)) else Inr ([c], v')))"
  by pat_completeness auto
termination
  by (relation "measure nat") (auto simp: cdiv_def split: if_splits)

declare digits_loop.simps [simp del]

definition writeInteger :: "int \<Rightarrow> stack_buffer \<Rightarrow> stack_buffer res" where
  "writeInteger v b =
     (if sb_writableBytes b > kMaximumNumberLimit
      then ebind (digits_loop v) (\<lambda>(ds, r).
        let tmp = (if r < 0 then ds @ ''-'' else ds)
        in ebind (mem_write (sb_buffer b) (sb_writerIndex b) (rev tmp)) (\<lambda>buf.
             Inr \<lparr>sb_buffer = buf, sb_writerIndex = sb_writerIndex b + length tmp\<rparr>))
      else Inr b)"

definition sb_writeInt32 :: "32 word \<Rightarrow> stack_buffer \<Rightarrow> stack_buffer res" where
  "sb_writeInt32 v b = writeInteger (sint v) b"

definition sb_writeUint32 :: "32 word \<Rightarrow> stack_buffer \<Rightarrow> stack_buffer res" where
  "sb_writeUint32 v b = writeInteger (uint v) b"

definition sb_writeInt64 :: "64 word \<Rightarrow> stack_buffer \<Rightarrow> stack_buffer res" where
  "sb_writeInt64 v b = writeInteger (sint v) b"

definition sb_writeUint64 :: "64 word \<Rightarrow> stack_buffer \<Rightarrow> stack_buffer res" where
  "sb_writeUint64 v b = writeInteger (uint v) b"

definition sb_writeInt8 :: "8 word \<Rightarrow> stack_buffer \<Rightarrow> stack_buffer res" where
  "sb_writeInt8 v b = sb_writeInt32 (scast v) b"

definition sb_writeUint8 :: "8 word \<Rightarrow> stack_buffer \<Rightarrow> stack_buffer res" where
  "sb_writeUint8 v b = sb_writeUint32 (ucast v) b"

definition sb_writeInt16 :: "16 word \<Rightarrow> stack_buffer \<Rightarrow> stack_buffer res" where
  "sb_writeInt16 v b = sb_writeInt32 (scast v) b"

definition sb_writeUint16 :: "16 word \<Rightarrow> stack_buffer \<Rightarrow> stack_buffer res" where
  "sb_writeUint16 v b = sb_writeUint32 (ucast v) b"

text \<open>\<open>to_string\<close> is \<^verbatim>\<open>std::to_string(double)\<close>, whose format is the standard library's.\<close>

definition sb_writeDouble :: "('d \<Rightarrow> string) \<Rightarrow> 'd \<Rightarrow> stack_buffer \<Rightarrow> stack_buffer res" where
  "sb_writeDouble to_string v b = sb_writeString (to_string v) b"

definition sb_writeFloat :: "('d \<Rightarrow> string) \<Rightarrow> ('f \<Rightarrow> 'd) \<Rightarrow> 'f \<Rightarrow> stack_buffer \<Rightarrow> stack_buffer res" where
  "sb_writeFloat to_string widen v b = sb_writeDouble to_string (widen v) b"

function hex_loop :: "nat \<Rightarrow> string" where
  "hex_loop v =
     (let c = kHexDigits ! (v mod 16); v' = v div 16 in if v' > 0 then c # hex_loop v' else [c])"
  by pat_completeness auto
termination
  by (relation "measure id") auto

declare hex_loop.simps [simp del]

definition writePointer :: "64 word \<Rightarrow> stack_buffer \<Rightarrow> stack_buffer res" where
  "writePointer ptr b =
     (if sb_writableBytes b > kMaximumNumberLimit
      then (let digits = hex_loop (unat ptr)
            in ebind (mem_write (sb_buffer b) (sb_writerIndex b) (''0x'' @ rev digits)) (\<lambda>buf.
                 Inr \<lparr>sb_buffer = buf, sb_writerIndex = sb_writerIndex b + 2 + length digits\<rparr>))
      else Inr b)"

section \<open>The log stream\<close>

definition kLogBufferSize :: nat where "kLogBufferSize = 4096"

datatype ('f, 'd) log_item =
    LChar char | LInt8 "8 word" | LUint8 "8 word" | LInt16 "16 word" | LUint16 "16 word"
  | LInt32 "32 word" | LUint32 "32 word" | LInt64 "64 word" | LUint64 "64 word" | LPointer "64 word"
  | LFloat 'f | LDouble 'd | LCString string | LString string | LView string | LStream stack_buffer

definition lbs_new :: stack_buffer where "lbs_new = sb_new kLogBufferSize"

definition lbs_put ::
    "('d \<Rightarrow> string) \<Rightarrow> ('f \<Rightarrow> 'd) \<Rightarrow> ('f, 'd) log_item \<Rightarrow> stack_buffer \<Rightarrow> stack_buffer res" where
  "lbs_put to_string widen item b =
     (case item of
        LChar v \<Rightarrow> sb_writeBytes [v] b
      | LInt8 v \<Rightarrow> sb_writeInt8 v b | LUint8 v \<Rightarrow> sb_writeUint8 v b
      | LInt16 v \<Rightarrow> sb_writeInt16 v b | LUint16 v \<Rightarrow> sb_writeUint16 v b
      | LInt32 v \<Rightarrow> sb_writeInt32 v b | LUint32 v \<Rightarrow> sb_writeUint32 v b
      | LInt64 v \<Rightarrow> sb_writeInt64 v b | LUint64 v \<Rightarrow> sb_writeUint64 v b
      | LPointer v \<Rightarrow> writePointer v b
      | LFloat v \<Rightarrow> sb_writeFloat to_string widen v b | LDouble v \<Rightarrow> sb_writeDouble to_string v b
      | LCString s \<Rightarrow> sb_writeCString s b | LString s \<Rightarrow> sb_writeBytes s b | LView s \<Rightarrow> sb_writeBytes s b
      | LStream st \<Rightarrow> sb_writeBuffer st b)"

section \<open>What a buffer holds\<close>

definition holds :: "nat \<Rightarrow> stack_buffer \<Rightarrow> string \<Rightarrow> bool" where
  "holds SIZE b s \<longleftrightarrow> sb_buffer b = s @ replicate (SIZE - length s) NUL \<and> sb_writerIndex b = length s \<and>
     length s < SIZE \<and> SIZE < size_mod"

lemma holds_new: "0 < SIZE \<Longrightarrow> SIZE < size_mod \<Longrightarrow> holds SIZE (sb_new SIZE) []"
  by (simp add: holds_def sb_new_def)

lemma holds_writable: "holds SIZE b s \<Longrightarrow> sb_writableBytes b = SIZE - length s"
  by (simp add: holds_def sb_writableBytes_def sz_sub_def)

text \<open>
  The assignments would do what they mean to: the target holds the text of the source, which a move
  leaves empty; but no use of them is defined.
\<close>

lemma sb_assign_holds:
  assumes "holds SIZE b s" and "holds SIZE other t"
  shows "\<exists>b' other'. sb_assign_move other b = Inr (b', other') \<and> holds SIZE b' t \<and> holds SIZE other' []"
  using assms
  by (auto simp: sb_assign_move_def sb_assign_def memzero_def mem_read_ok mem_write_ok holds_def replicate_add[symmetric]
      simp del: replicate_add)

lemma sb_assignments_undefined:
  assumes "holds SIZE b s" and "holds SIZE other t"
  shows "sb_copy_assign self other b = Inl Undefined" and "sb_move_assign self other b = Inl Undefined"
  using sb_assign_holds[OF assms]
  by (auto simp: sb_copy_assign_def sb_move_assign_def no_return_def sb_assign_move_def ebind_def split: sum.splits)

text \<open>Writing at the writer index appends.\<close>

lemma holds_append:
  assumes "holds SIZE b s" and "length w < SIZE - length s"
  shows "\<exists>buf. mem_write (sb_buffer b) (sb_writerIndex b) w = Inr buf \<and>
           holds SIZE \<lparr>sb_buffer = buf, sb_writerIndex = sb_writerIndex b + length w\<rparr> (s @ w)"
  using assms by (auto simp: holds_def mem_write_def)

lemma sb_writeBytes_holds:
  assumes "holds SIZE b s"
  shows "\<exists>b'. sb_writeBytes w b = Inr b' \<and> holds SIZE b' (if length w < SIZE - length s then s @ w else s)"
  using assms holds_append[OF assms, of w] by (auto simp: sb_writeBytes_def holds_writable)

subsection \<open>Numbers\<close>

lemma kDigits_map: "kDigits = map digit [0..<10]"
  by code_simp

lemma kDigits_nth: "n < 10 \<Longrightarrow> kDigits ! n = digit n"
  by (simp add: kDigits_map del: upt_Suc)

lemma digits_loop_dec: "digits_loop (int n) = Inr (rev (dec n), 0)"
proof (induction n rule: dec.induct)
  case (1 n)
  have q: "cdiv (int n) 10 = int (n div 10)" and r: "cmod (int n) 10 = int (n mod 10)"
    by (simp_all add: cmod_def cdiv_def of_nat_mod minus_mult_div_eq_mod)
  show ?case
  proof (cases "n < 10")
    case True
    then show ?thesis using q r by (simp add: digits_loop.simps[of "int n"] dec.simps[of n] kDigits_nth Let_def)
  next
    case False
    then have "0 < n div 10" by simp
    then show ?thesis using 1 False q r
      by (simp add: digits_loop.simps[of "int n"] dec.simps[of n] kDigits_nth Let_def)
  qed
qed

lemma writeInteger_holds:
  assumes h: "holds SIZE b s" and n: "n < 2 ^ 64"
  shows "\<exists>b'. writeInteger (int n) b = Inr b' \<and> holds SIZE b' (if 20 < SIZE - length s then s @ dec n else s)"
proof -
  have "length (dec n) \<le> 20" using n by (intro dec_length) auto
  then show ?thesis using h holds_append[OF h, of "dec n"]
    by (auto simp: writeInteger_def kMaximumNumberLimit_def holds_writable digits_loop_dec Let_def)
qed

text \<open>A negative number is either printed as -0 or reads before the digit table.\<close>

lemma writeInteger_negative:
  assumes h: "holds SIZE b s" and v: "v < 0" and room: "20 < SIZE - length s"
  shows "if 10 dvd v then \<exists>b'. writeInteger v b = Inr b' \<and> holds SIZE b' (s @ ''-0'')
         else writeInteger v b = Inl Undefined"
proof -
  show ?thesis
  proof (cases "10 dvd v")
    case True
    then obtain k where k: "v = 10 * k" by (auto elim: dvdE)
    then have q: "cdiv v 10 = k" "cmod v 10 = 0" "k < 0" using v by (auto simp: cdiv_def cmod_def)
    then have "digits_loop v = Inr (''0'', k)"
      by (subst digits_loop.simps) (simp add: Let_def kDigits_def)
    then show ?thesis using True h holds_append[OF h, of "''-0''"] room \<open>k < 0\<close>
      by (auto simp: writeInteger_def kMaximumNumberLimit_def holds_writable)
  next
    case False
    have "(- v) mod 10 \<noteq> 0" using False by (simp add: dvd_eq_mod_eq_0[symmetric])
    moreover have "cmod v 10 = - ((- v) mod 10)" using v by (simp add: cmod_def cdiv_def minus_mult_div_eq_mod[symmetric])
    moreover have "0 \<le> (- v) mod 10" by simp
    ultimately have "cmod v 10 < 0" by linarith
    then show ?thesis using False h room
      by (simp add: writeInteger_def kMaximumNumberLimit_def holds_writable digits_loop.simps[of v] Let_def)
  qed
qed

subsection \<open>Pointers\<close>

text \<open>The hexadecimal digits of a number, without leading zeros.\<close>

fun hex :: "nat \<Rightarrow> string" where
  "hex n = (if n < 16 then [kHexDigits ! n] else hex (n div 16) @ [kHexDigits ! (n mod 16)])"

declare hex.simps [simp del]

lemma hex_loop_hex: "hex_loop n = rev (hex n)"
proof (induction n rule: hex.induct)
  case (1 n)
  have "n div 16 = 0 \<longleftrightarrow> n < 16" by auto
  then show ?case using 1 by (cases "n < 16") (simp_all add: hex_loop.simps[of n] hex.simps[of n] Let_def)
qed

lemma hex_length: "n < 16 ^ k \<Longrightarrow> 0 < k \<Longrightarrow> length (hex n) \<le> k"
proof (induction k arbitrary: n)
  case (Suc k)
  show ?case
  proof (cases "n < 16")
    case True then show ?thesis by (simp add: hex.simps[of n])
  next
    case False
    then have "k \<noteq> 0" using Suc.prems(1) by (cases k) simp_all
    moreover have "n div 16 < 16 ^ k" using Suc.prems(1) by (simp add: less_mult_imp_div_less mult.commute)
    ultimately show ?thesis using Suc.IH[of "n div 16"] False by (simp add: hex.simps[of n])
  qed
qed simp

lemma writePointer_holds:
  assumes h: "holds SIZE b s"
  shows "\<exists>b'. writePointer p b = Inr b' \<and> holds SIZE b' (if 20 < SIZE - length s then s @ ''0x'' @ hex (unat p) else s)"
proof -
  have "unat p < 16 ^ 16" using unsigned_less[of p, where ?'a = nat] by simp
  then have "length (hex (unat p)) \<le> 16" by (intro hex_length) auto
  then show ?thesis using h holds_append[OF h, of "''0x'' @ hex (unat p)"]
    by (auto simp: writePointer_def kMaximumNumberLimit_def holds_writable hex_loop_hex Let_def)
qed

section \<open>A log line\<close>

text \<open>The text of an item, and how much room beyond the text so far it asks for.\<close>

definition num_text :: "int \<Rightarrow> string" where "num_text v = dec (nat v)"

fun item_text :: "('d \<Rightarrow> string) \<Rightarrow> ('f \<Rightarrow> 'd) \<Rightarrow> ('f, 'd) log_item \<Rightarrow> string" where
  "item_text ts w (LChar c) = [c]"
| "item_text ts w (LInt8 v) = num_text (sint v)" | "item_text ts w (LUint8 v) = num_text (uint v)"
| "item_text ts w (LInt16 v) = num_text (sint v)" | "item_text ts w (LUint16 v) = num_text (uint v)"
| "item_text ts w (LInt32 v) = num_text (sint v)" | "item_text ts w (LUint32 v) = num_text (uint v)"
| "item_text ts w (LInt64 v) = num_text (sint v)" | "item_text ts w (LUint64 v) = num_text (uint v)"
| "item_text ts w (LPointer p) = ''0x'' @ hex (unat p)"
| "item_text ts w (LFloat x) = ts (w x)" | "item_text ts w (LDouble x) = ts x"
| "item_text ts w (LCString s) = takeWhile (\<lambda>c. c \<noteq> NUL) s"
| "item_text ts w (LString s) = s" | "item_text ts w (LView s) = s"
| "item_text ts w (LStream b) = take (sb_writerIndex b) (sb_buffer b)"

fun item_room :: "('d \<Rightarrow> string) \<Rightarrow> ('f \<Rightarrow> 'd) \<Rightarrow> ('f, 'd) log_item \<Rightarrow> nat" where
  "item_room ts w (LInt8 v) = 20" | "item_room ts w (LUint8 v) = 20" | "item_room ts w (LInt16 v) = 20"
| "item_room ts w (LUint16 v) = 20" | "item_room ts w (LInt32 v) = 20" | "item_room ts w (LUint32 v) = 20"
| "item_room ts w (LInt64 v) = 20" | "item_room ts w (LUint64 v) = 20" | "item_room ts w (LPointer v) = 20"
| "item_room ts w i = length (item_text ts w i)"

text \<open>Signed numbers that are not negative, and streams that are well formed.\<close>

fun item_ok :: "('f, 'd) log_item \<Rightarrow> bool" where
  "item_ok (LInt8 v) \<longleftrightarrow> 0 \<le> sint v" | "item_ok (LInt16 v) \<longleftrightarrow> 0 \<le> sint v"
| "item_ok (LInt32 v) \<longleftrightarrow> 0 \<le> sint v" | "item_ok (LInt64 v) \<longleftrightarrow> 0 \<le> sint v"
| "item_ok (LStream b) \<longleftrightarrow> sb_writerIndex b \<le> length (sb_buffer b)"
| "item_ok _ \<longleftrightarrow> True"

definition line_add :: "('d \<Rightarrow> string) \<Rightarrow> ('f \<Rightarrow> 'd) \<Rightarrow> nat \<Rightarrow> ('f, 'd) log_item \<Rightarrow> string \<Rightarrow> string" where
  "line_add ts w SIZE i s = (if item_room ts w i < SIZE - length s then s @ item_text ts w i else s)"

text \<open>The outcome \<open>r\<close> is a buffer that holds \<open>s\<close>.\<close>

definition gives :: "stack_buffer res \<Rightarrow> nat \<Rightarrow> string \<Rightarrow> bool" where
  "gives r SIZE s \<longleftrightarrow> (\<exists>b. r = Inr b \<and> holds SIZE b s)"

lemma gives_writeBytes:
  "holds SIZE b s \<Longrightarrow> gives (sb_writeBytes w b) SIZE (if length w < SIZE - length s then s @ w else s)"
  unfolding gives_def by (rule sb_writeBytes_holds)

lemma gives_writePointer:
  "holds SIZE b s \<Longrightarrow>
   gives (writePointer p b) SIZE (if 20 < SIZE - length s then s @ CHR ''0'' # CHR ''x'' # hex (unat p) else s)"
  unfolding gives_def using writePointer_holds[of SIZE b s p] by (auto split: if_splits)

lemma gives_writeInteger:
  assumes "holds SIZE b s" and "0 \<le> v" and "v < 2 ^ 64"
  shows "gives (writeInteger v b) SIZE (if 20 < SIZE - length s then s @ num_text v else s)"
proof -
  have "int (nat v) = v" "nat v < 2 ^ 64" using assms(2,3) by (simp_all add: nat_less_iff)
  then show ?thesis using writeInteger_holds[OF assms(1), of "nat v"] unfolding gives_def num_text_def by simp
qed

lemma sint_scast_up: "LENGTH('a::len) \<le> LENGTH('b::len) \<Longrightarrow> sint (scast (v :: 'a word) :: 'b word) = sint v"
  by (simp add: sint_up_scast is_up_def source_size_def target_size_def)

lemma uint_ucast_up: "LENGTH('a::len) \<le> LENGTH('b::len) \<Longrightarrow> uint (ucast (v :: 'a word) :: 'b word) = uint v"
  by (simp add: uint_up_ucast is_up_def source_size_def target_size_def)

lemma word_num_bound:
  fixes v :: "'a::len word"
  assumes "LENGTH('a) \<le> 64"
  shows "uint v < 2 ^ 64" "sint v < 2 ^ 64"
proof -
  have "uint v < 2 ^ LENGTH('a)" by (rule uint_lt2p)
  also have "\<dots> \<le> (2 ^ 64 :: int)" using assms by (intro power_increasing) auto
  finally show "uint v < 2 ^ 64" .
  have "sint v < 2 ^ (LENGTH('a) - 1)" by (rule sint_lt)
  also have "\<dots> \<le> (2 ^ 64 :: int)" using assms by (intro power_increasing) auto
  finally show "sint v < 2 ^ 64" .
qed

lemma gives_uint:
  fixes v :: "'a::len word"
  shows "holds SIZE b s \<Longrightarrow> LENGTH('a) \<le> 64 \<Longrightarrow>
    gives (writeInteger (uint v) b) SIZE (if 20 < SIZE - length s then s @ num_text (uint v) else s)"
  by (rule gives_writeInteger) (simp_all only: word_num_bound uint_ge_0)

lemma gives_sint:
  fixes v :: "'a::len word"
  shows "holds SIZE b s \<Longrightarrow> 0 \<le> sint v \<Longrightarrow> LENGTH('a) \<le> 64 \<Longrightarrow>
    gives (writeInteger (sint v) b) SIZE (if 20 < SIZE - length s then s @ num_text (sint v) else s)"
  by (rule gives_writeInteger) (simp_all only: word_num_bound)

lemmas gives_intros = gives_writeBytes gives_writePointer gives_uint gives_sint

lemma lbs_put_gives:
  assumes h: "holds SIZE b s" and ok: "item_ok i"
  shows "gives (lbs_put ts w i b) SIZE (line_add ts w SIZE i s)"
  using ok gives_writeBytes[OF h, of "item_text ts w i"]
  by (cases i)
    (simp_all add: gives_intros[OF h] lbs_put_def line_add_def sb_writeInt8_def sb_writeUint8_def sb_writeInt16_def
      sb_writeUint16_def sb_writeInt32_def sb_writeUint32_def sb_writeInt64_def sb_writeUint64_def
      sb_writeFloat_def sb_writeDouble_def sb_writeCString_def sb_writeString_def sb_writeBuffer_def
      sint_scast_up uint_ucast_up mem_read_def cong: if_cong split del: if_split)

text \<open>The stream as an operation without result, for the simulation by \<open>line_add\<close>.\<close>

definition lbs_exec ::
    "('d \<Rightarrow> string) \<Rightarrow> ('f \<Rightarrow> 'd) \<Rightarrow> ('f, 'd) log_item \<Rightarrow> stack_buffer \<Rightarrow> (unit \<times> stack_buffer) res" where
  "lbs_exec ts w i b = ebind (lbs_put ts w i b) (\<lambda>b'. Inr ((), b'))"

interpretation lb: simulation "lbs_exec ts w" "\<lambda>i s. ((), line_add ts w kLogBufferSize i s)" "\<lambda>i s. item_ok i"
    "holds kLogBufferSize" for ts :: "'d \<Rightarrow> string" and w :: "'f \<Rightarrow> 'd"
proof unfold_locales
  fix b s and i :: "('f, 'd) log_item"
  assume "holds kLogBufferSize b s" and "item_ok i"
  from lbs_put_gives[OF this, of ts w] show "\<exists>b'. lbs_exec ts w i b = Inr (fst ((), line_add ts w kLogBufferSize i s), b') \<and>
      holds kLogBufferSize b' (snd ((), line_add ts w kLogBufferSize i s))"
    unfolding gives_def by (auto simp: lbs_exec_def)
qed

lemma line_add_all:
  "snd (spec_ops (\<lambda>i s. ((), line_add ts w n i s)) is s) = fold (line_add ts w n) is s"
  by (induction "is" arbitrary: s) (auto simp: case_prod_beta)

lemma items_ok_all:
  "ops_allowed (\<lambda>i s. ((), line_add ts w n i s)) (\<lambda>i s. item_ok i) is s \<longleftrightarrow> list_all item_ok is"
  by (induction "is" arbitrary: s) auto

text \<open>
  A log line is composed exactly: for any sequence of items streamed into a new log buffer,
  none of them a negative number, nothing is written outside the 4096 bytes, and the array holds
  the texts of the items one after the other (decimal numbers, hexadecimal pointers, text up to
  its zero byte), without those for which there was no room, followed by zero bytes only.
\<close>

lemma log_line_exact:
  assumes "list_all item_ok is"
  shows "\<exists>b. run_ops (lbs_exec ts w) is lbs_new = Inr (map (\<lambda>i. ()) is, b) \<and>
             (let s = fold (line_add ts w kLogBufferSize) is []
              in sb_buffer b = s @ replicate (kLogBufferSize - length s) NUL \<and> sb_writerIndex b = length s \<and>
                 length s < kLogBufferSize)"
proof -
  have h: "holds kLogBufferSize lbs_new []"
    unfolding lbs_new_def by (rule holds_new) (simp_all add: kLogBufferSize_def size_mod_def)
  have "fst (spec_ops (\<lambda>i s. ((), line_add ts w kLogBufferSize i s)) is s) = map (\<lambda>i. ()) is" for s
    by (induction "is" arbitrary: s) (auto simp: case_prod_beta)
  then show ?thesis
    using lb.run_ops_sim[OF h, where ops = "is" and ts = ts and w = w] assms
    by (auto simp: line_add_all items_ok_all holds_def Let_def)
qed

end
