(* ===== verification/Descriptors.thy ===== *)
theory Descriptors
  imports Kernel_Interface Inet_Address Socket_Options
begin

text \<open>
  The functions of \<^verbatim>\<open>nets/net/core/Socket.cpp\<close> that create, name, connect and close descriptors,
  used by the server, connector and datagram channels. An operation here is a function of the
  state that gives its outcome and the new state, also when it throws: a descriptor that was
  opened before the exception is open after it. The kernel is a parameter (\<open>net\<close>), and what is
  relied on about descriptors is the predicate \<open>fds_spec\<close>.
\<close>

section \<open>Operations that change the state and may fail\<close>

type_synonym ('s, 'a) action = "'s \<Rightarrow> 'a res \<times> 's"

definition return :: "'a \<Rightarrow> ('s, 'a) action" where
  "return x s = (Inr x, s)"

definition throw :: "exn \<Rightarrow> ('s, 'a) action" where
  "throw e s = (Inl (Throw e), s)"

definition bind :: "('s, 'a) action \<Rightarrow> ('a \<Rightarrow> ('s, 'b) action) \<Rightarrow> ('s, 'b) action" where
  "bind m f s = (case m s of (Inl e, s') \<Rightarrow> (Inl e, s') | (Inr x, s') \<Rightarrow> f x s')"

lemma action_simps [simp]:
  "return x s = (Inr x, s)" "throw e s = (Inl (Throw e), s)"
  "bind m f s = (case m s of (Inl e, s') \<Rightarrow> (Inl e, s') | (Inr x, s') \<Rightarrow> f x s')"
  by (simp_all add: return_def throw_def bind_def)

text \<open>
  Operations one after the other, up to the first that throws. A component whose single
  operations keep an invariant keeps it over all such runs; \<open>good\<close> tells which outcomes the
  invariant survives, and \<open>ok\<close> which inputs are allowed.
\<close>

fun run_actions :: "('i \<Rightarrow> ('s, unit) action) \<Rightarrow> 'i list \<Rightarrow> ('s, unit) action" where
  "run_actions act [] s = return () s"
| "run_actions act (i # is) s = bind (act i) (\<lambda>_. run_actions act is) s"

locale invariant_actions =
  fixes act :: "'i \<Rightarrow> ('s, unit) action" and inv :: "'s \<Rightarrow> bool" and ok :: "'i \<Rightarrow> bool" and good :: "unit res \<Rightarrow> bool"
  assumes good_return: "good (Inr ())"
    and keeps: "inv s \<Longrightarrow> ok i \<Longrightarrow> act i s = (r, s') \<Longrightarrow> good r \<Longrightarrow> inv s'"
begin

lemma run_keeps: "inv s \<Longrightarrow> list_all ok is \<Longrightarrow> run_actions act is s = (r, s') \<Longrightarrow> good r \<Longrightarrow> inv s'"
proof (induction "is" arbitrary: s)
  case (Cons i "is")
  obtain q t where q: "act i s = (q, t)" by force
  show ?case
  proof (cases q)
    case (Inl e)
    then have "act i s = (r, s')" using Cons.prems(3) q by simp
    then show ?thesis using keeps[OF Cons.prems(1), of i r s'] Cons.prems(2,4) by simp
  next
    case (Inr u)
    then have "inv t" using keeps[OF Cons.prems(1), of i q t] q good_return Cons.prems(2) by simp
    then show ?thesis using Cons.IH[of t] Cons.prems(2-4) q Inr by simp
  qed
qed simp

end

section \<open>The kernel\<close>

abbreviation EMFILE :: nat where "EMFILE \<equiv> 24"
abbreviation ECONNABORTED :: nat where "ECONNABORTED \<equiv> 103"
abbreviation EPROTO :: nat where "EPROTO \<equiv> 71"

text \<open>
  Errors are numbers; \<open>net_fcntl\<close> stands for the four uses of \<^verbatim>\<open>fcntl\<close> (false is -1), addresses are
  the bytes passed, and \<open>net_sockname\<close> answers with the bytes the kernel fills in.
\<close>

datatype sock_type = SOCK_STREAM | SOCK_DGRAM

record 'k net =
  net_socket :: "16 word \<Rightarrow> sock_type \<Rightarrow> 'k \<Rightarrow> (nat + FdType) \<times> 'k"
  net_fcntl :: "FdType \<Rightarrow> 'k \<Rightarrow> bool \<times> 'k"
  net_open_null :: "'k \<Rightarrow> (nat + FdType) \<times> 'k"
  net_close :: "FdType \<Rightarrow> 'k \<Rightarrow> 'k"
  net_bind :: "FdType \<Rightarrow> byte list \<Rightarrow> 'k \<Rightarrow> nat option \<times> 'k"
  net_listen :: "FdType \<Rightarrow> int \<Rightarrow> 'k \<Rightarrow> nat option \<times> 'k"
  net_accept :: "FdType \<Rightarrow> 'k \<Rightarrow> (nat + FdType \<times> byte list) \<times> 'k"
  net_connect :: "FdType \<Rightarrow> byte list \<Rightarrow> 'k \<Rightarrow> nat option \<times> 'k"
  net_sockname :: "FdType \<Rightarrow> 'k \<Rightarrow> (nat + byte list) \<times> 'k"
  net_sockerr :: "FdType \<Rightarrow> 'k \<Rightarrow> (nat + nat) \<times> 'k"
  net_setsockopt :: "FdType \<Rightarrow> sockopt \<Rightarrow> 'k \<Rightarrow> 'k"
  net_sendto :: "FdType \<Rightarrow> byte list \<Rightarrow> byte list \<Rightarrow> 'k \<Rightarrow> (nat + nat) \<times> 'k"
  net_recvfrom :: "FdType \<Rightarrow> nat \<Rightarrow> 'k \<Rightarrow> (nat + byte list \<times> byte list) \<times> 'k"

definition kInvalidFd :: FdType where "kInvalidFd = -1"

section \<open>Socket.cpp\<close>

definition setSockCloExec :: "'k net \<Rightarrow> FdType \<Rightarrow> ('k, unit) action" where
  "setSockCloExec N sockFd k =
     (case net_fcntl N sockFd k of
        (True, k) \<Rightarrow> return () k
      | (False, k) \<Rightarrow> throw (SocketOperationException ''socket set FD_CLOEXEC failed'') k)"

definition createTcpSocket :: "'k net \<Rightarrow> 16 word \<Rightarrow> ('k, FdType) action" where
  "createTcpSocket N family k =
     (case net_socket N family SOCK_STREAM k of
        (Inl e, k) \<Rightarrow> throw (SocketCreationException ''socket createTcpSocket failed'') k
      | (Inr sockFd, k) \<Rightarrow> bind (setSockCloExec N sockFd) (\<lambda>_. return sockFd) k)"

definition createUdpSocket :: "'k net \<Rightarrow> 16 word \<Rightarrow> ('k, FdType) action" where
  "createUdpSocket N family k =
     (case net_socket N family SOCK_DGRAM k of
        (Inl e, k) \<Rightarrow> throw (SocketCreationException ''socket createUdpSocket failed'') k
      | (Inr sockFd, k) \<Rightarrow> bind (setSockCloExec N sockFd) (\<lambda>_. return sockFd) k)"

text \<open>A failed \<^verbatim>\<open>fcntl\<close> in \<^verbatim>\<open>setSockNonBlock\<close> and a failed \<^verbatim>\<open>close\<close> are only logged.\<close>

definition setSockNonBlock :: "'k net \<Rightarrow> FdType \<Rightarrow> 'k \<Rightarrow> 'k" where
  "setSockNonBlock N sockFd k = snd (net_fcntl N sockFd k)"

definition closeFd :: "'k net \<Rightarrow> FdType \<Rightarrow> 'k \<Rightarrow> 'k" where
  "closeFd N f k = (if f \<ge> 0 then net_close N f k else k)"

definition createIdleFd :: "'k net \<Rightarrow> 'k \<Rightarrow> FdType \<times> 'k" where
  "createIdleFd N k = (case net_open_null N k of (Inl e, k) \<Rightarrow> (kInvalidFd, k) | (Inr f, k) \<Rightarrow> (f, k))"

text \<open>The answer of \<^verbatim>\<open>accept\<close> is -1 on failure; the new idle descriptor is returned.\<close>

definition dealwithEMFILE :: "'k net \<Rightarrow> FdType \<Rightarrow> FdType \<Rightarrow> 'k \<Rightarrow> FdType \<times> 'k" where
  "dealwithEMFILE N idleFd sockFd k =
     (let k = closeFd N idleFd k;
          (r, k) = net_accept N sockFd k;
          k = closeFd N (case r of Inl e \<Rightarrow> -1 | Inr (f, a) \<Rightarrow> f) k
      in createIdleFd N k)"

text \<open>The bytes of an address that are passed to the kernel depend on its family.\<close>

definition addr_bytes :: "inet_sock_address \<Rightarrow> byte list" where
  "addr_bytes a = take (if ipFamily a = AF_INET then 16 else 28) a"

definition sock_bind :: "'k net \<Rightarrow> FdType \<Rightarrow> inet_sock_address \<Rightarrow> ('k, unit) action" where
  "sock_bind N sockFd localAddr k =
     (case net_bind N sockFd (addr_bytes localAddr) k of
        (Some e, k) \<Rightarrow> throw (SocketOperationException ''socket bind failed'') k | (None, k) \<Rightarrow> return () k)"

definition sock_listen :: "'k net \<Rightarrow> FdType \<Rightarrow> int \<Rightarrow> ('k, unit) action" where
  "sock_listen N sockFd backlog k =
     (case net_listen N sockFd backlog k of
        (Some e, k) \<Rightarrow> throw (SocketOperationException ''socket listen failed'') k | (None, k) \<Rightarrow> return () k)"

definition sock_accept :: "'k net \<Rightarrow> FdType \<Rightarrow> 'k \<Rightarrow> (nat + FdType \<times> inet_sock_address) \<times> 'k" where
  "sock_accept N sockFd k =
     (case net_accept N sockFd k of
        (Inl e, k) \<Rightarrow> (Inl e, k)
      | (Inr (f, a), k) \<Rightarrow> (Inr (f, a @ drop (length a) isa_default), k))"

definition sock_connect :: "'k net \<Rightarrow> FdType \<Rightarrow> inet_sock_address \<Rightarrow> 'k \<Rightarrow> nat option \<times> 'k" where
  "sock_connect N sockFd peerAddr k = net_connect N sockFd (addr_bytes peerAddr) k"

definition sendTo :: "'k net \<Rightarrow> FdType \<Rightarrow> byte list \<Rightarrow> inet_sock_address \<Rightarrow> 'k \<Rightarrow> (nat + nat) \<times> 'k" where
  "sendTo N f buf destAddr k = net_sendto N f buf (addr_bytes destAddr) k"

definition recvFrom :: "'k net \<Rightarrow> FdType \<Rightarrow> nat \<Rightarrow> inet_sock_address \<Rightarrow> 'k \<Rightarrow> (nat + byte list \<times> inet_sock_address) \<times> 'k" where
  "recvFrom N f n srcAddr k =
     (case net_recvfrom N f n k of
        (Inl e, k) \<Rightarrow> (Inl e, k)
      | (Inr (bs, a), k) \<Rightarrow> (Inr (bs, a @ drop (length a) srcAddr), k))"

definition getLocalAddress :: "'k net \<Rightarrow> FdType \<Rightarrow> inet_sock_address \<Rightarrow> 'k \<Rightarrow> inet_sock_address \<times> 'k" where
  "getLocalAddress N f sockAddr k =
     (case net_sockname N f k of (Inl e, k) \<Rightarrow> (sockAddr, k) | (Inr a, k) \<Rightarrow> (a @ drop (length a) sockAddr, k))"

text \<open>The pending error of the socket, or the error of asking for it.\<close>

definition getSockError :: "'k net \<Rightarrow> FdType \<Rightarrow> 'k \<Rightarrow> nat \<times> 'k" where
  "getSockError N sockFd k = (case net_sockerr N sockFd k of (Inl e, k) \<Rightarrow> (e, k) | (Inr v, k) \<Rightarrow> (v, k))"

section \<open>Descriptors\<close>

text \<open>
  What the manual pages say about descriptors, with \<open>fds k\<close> the descriptors open in \<open>k\<close>:
  a new descriptor is not negative and was not open, \<^verbatim>\<open>close\<close> closes its argument, and the other
  calls neither open nor close any.
\<close>

definition opens :: "('k \<Rightarrow> FdType set) \<Rightarrow> FdType \<Rightarrow> 'k \<Rightarrow> 'k \<Rightarrow> bool" where
  "opens fds f k k' \<longleftrightarrow> 0 \<le> f \<and> f \<notin> fds k \<and> fds k' = insert f (fds k)"

definition fds_spec :: "'k net \<Rightarrow> 'k sys \<Rightarrow> ('k \<Rightarrow> FdType set) \<Rightarrow> bool" where
  "fds_spec N S fds \<longleftrightarrow>
     (\<forall>a t k r k'. net_socket N a t k = (r, k') \<longrightarrow> (case r of Inl e \<Rightarrow> fds k' = fds k | Inr f \<Rightarrow> opens fds f k k')) \<and>
     (\<forall>k r k'. net_open_null N k = (r, k') \<longrightarrow> (case r of Inl e \<Rightarrow> fds k' = fds k | Inr f \<Rightarrow> opens fds f k k')) \<and>
     (\<forall>s k r k'. net_accept N s k = (r, k') \<longrightarrow>
        (case r of Inl e \<Rightarrow> fds k' = fds k | Inr (f, a) \<Rightarrow> opens fds f k k')) \<and>
     (\<forall>f k. fds (net_close N f k) = fds k - {f}) \<and>
     (\<forall>f k. fds (snd (net_fcntl N f k)) = fds k) \<and>
     (\<forall>f a k. fds (snd (net_bind N f a k)) = fds k) \<and> (\<forall>f n k. fds (snd (net_listen N f n k)) = fds k) \<and>
     (\<forall>f a k. fds (snd (net_connect N f a k)) = fds k) \<and> (\<forall>f k. fds (snd (net_sockname N f k)) = fds k) \<and>
     (\<forall>f k. fds (snd (net_sockerr N f k)) = fds k) \<and> (\<forall>f o1 k. fds (net_setsockopt N f o1 k) = fds k) \<and>
     (\<forall>k op f ev. fds (snd (sys_epoll_ctl S k op f ev)) = fds k)"

text \<open>One law per call, for the clients.\<close>

lemma socket_fds:
  assumes "fds_spec N S fds"
  shows "net_socket N a t k = (Inl e, k') \<Longrightarrow> fds k' = fds k"
    and "net_socket N a t k = (Inr f, k') \<Longrightarrow> opens fds f k k'"
  using assms unfolding fds_spec_def by (fastforce, fastforce)

lemma open_null_fds:
  assumes "fds_spec N S fds"
  shows "net_open_null N k = (Inl e, k') \<Longrightarrow> fds k' = fds k"
    and "net_open_null N k = (Inr f, k') \<Longrightarrow> opens fds f k k'"
  using assms unfolding fds_spec_def by (fastforce, fastforce)

lemma accept_fds:
  assumes "fds_spec N S fds"
  shows "net_accept N s k = (Inl e, k') \<Longrightarrow> fds k' = fds k"
    and "net_accept N s k = (Inr (f, a), k') \<Longrightarrow> opens fds f k k'"
  using assms unfolding fds_spec_def by (fastforce, fastforce)

lemma keeps_fds:
  assumes "fds_spec N S fds"
  shows "net_fcntl N f k = (b, k') \<Longrightarrow> fds k' = fds k" "net_bind N f a k = (r, k') \<Longrightarrow> fds k' = fds k"
    "net_listen N f n k = (r, k') \<Longrightarrow> fds k' = fds k" "net_connect N f a k = (r, k') \<Longrightarrow> fds k' = fds k"
    "net_sockname N f k = (q, k') \<Longrightarrow> fds k' = fds k" "net_sockerr N f k = (p, k') \<Longrightarrow> fds k' = fds k"
    "sys_epoll_ctl S k op f ev = (b, k') \<Longrightarrow> fds k' = fds k" "fds (net_setsockopt N f o1 k) = fds k"
  using assms unfolding fds_spec_def by (metis snd_conv)+

lemma closeFd_fds: "fds_spec N S fds \<Longrightarrow> (\<And>g. g \<in> fds k \<Longrightarrow> 0 \<le> g) \<Longrightarrow> fds (closeFd N f k) = fds k - {f}"
  unfolding fds_spec_def closeFd_def by (auto split: if_splits)

lemma createIdleFd_fds:
  assumes "fds_spec N S fds" and "createIdleFd N k = (f, k')"
  shows "fds k' = fds k \<union> {g. g = f \<and> 0 \<le> f} \<and> (0 \<le> f \<longrightarrow> f \<notin> fds k)"
  using assms(2) open_null_fds[OF assms(1), of k]
  by (auto simp: createIdleFd_def opens_def kInvalidFd_def split: prod.splits sum.splits)

lemma setSockNonBlock_fds: "fds_spec N S fds \<Longrightarrow> fds (setSockNonBlock N f k) = fds k"
  using keeps_fds(1)[of N S fds f k] by (cases "net_fcntl N f k") (simp add: setSockNonBlock_def)

lemma getLocalAddress_fds: "fds_spec N S fds \<Longrightarrow> getLocalAddress N f a k = (b, k') \<Longrightarrow> fds k' = fds k"
  using keeps_fds(5)[of N S fds f k] by (auto simp: getLocalAddress_def split: prod.splits sum.splits)

lemma getSockError_fds: "fds_spec N S fds \<Longrightarrow> getSockError N f k = (b, k') \<Longrightarrow> fds k' = fds k"
  using keeps_fds(6)[of N S fds f k] by (auto simp: getSockError_def split: prod.splits sum.splits)

text \<open>Setting \<^verbatim>\<open>FD_CLOEXEC\<close> on a new descriptor does not fail on Linux; if it did, the descriptor would leak.\<close>

definition fcntl_works :: "'k net \<Rightarrow> bool" where
  "fcntl_works N \<longleftrightarrow> (\<forall>f k. fst (net_fcntl N f k))"

definition cloexec_leak :: "'k net \<Rightarrow> ('k \<Rightarrow> FdType set) \<Rightarrow> fault \<Rightarrow> 'k \<Rightarrow> 'k \<Rightarrow> bool" where
  "cloexec_leak N fds e k k' \<longleftrightarrow> \<not> fcntl_works N \<and>
     e = Throw (SocketOperationException ''socket set FD_CLOEXEC failed'') \<and> (\<exists>f. opens fds f k k')"

lemma createTcpSocket_cases:
  assumes spec: "fds_spec N S fds" and "createTcpSocket N a k = (r, k')"
  shows "case r of Inl e \<Rightarrow> fds k' = fds k \<or> cloexec_leak N fds e k k' | Inr f \<Rightarrow> opens fds f k k'"
proof -
  obtain r1 k1 where s: "net_socket N a SOCK_STREAM k = (r1, k1)" by force
  show ?thesis
  proof (cases r1)
    case (Inl e)
    then show ?thesis using assms(2) s socket_fds(1)[OF spec, of a SOCK_STREAM k] by (auto simp: createTcpSocket_def)
  next
    case (Inr f)
    obtain b k2 where c: "net_fcntl N f k1 = (b, k2)" by force
    then have "\<not> b \<Longrightarrow> \<not> fcntl_works N" by (metis fcntl_works_def fst_conv)
    moreover have "opens fds f k k2"
      using keeps_fds(1)[OF spec c] socket_fds(2)[OF spec, of a SOCK_STREAM k f k1] s Inr by (simp add: opens_def)
    ultimately show ?thesis using assms(2) s Inr c
      by (cases b) (auto simp: createTcpSocket_def setSockCloExec_def cloexec_leak_def)
  qed
qed

lemma createTcpSocket_fds:
  assumes "fds_spec N S fds" and "createTcpSocket N a k = (r, k')" and "fcntl_works N"
  shows "case r of Inl e \<Rightarrow> fds k' = fds k | Inr f \<Rightarrow> opens fds f k k'"
  using createTcpSocket_cases[OF assms(1,2)] assms(3) by (auto simp: cloexec_leak_def split: sum.splits)

text \<open>
  After \<^verbatim>\<open>EMFILE\<close>: the reserve is given up, one waiting connection is taken and closed, and the
  reserve is taken again if the kernel grants it; nothing else is opened or closed.
\<close>

lemma dealwithEMFILE_fds:
  assumes spec: "fds_spec N S fds" and "dealwithEMFILE N idle s k = (idle', k')" and pos: "\<And>g. g \<in> fds k \<Longrightarrow> 0 \<le> g"
  shows "fds k' = (fds k - {idle}) \<union> {g. g = idle' \<and> 0 \<le> idle'} \<and> (0 \<le> idle' \<longrightarrow> idle' \<notin> fds k - {idle})"
proof -
  define k1 where "k1 = closeFd N idle k"
  have f1: "fds k1 = fds k - {idle}" unfolding k1_def by (rule closeFd_fds[OF spec pos])
  obtain r k2 where a: "net_accept N s k1 = (r, k2)" by force
  define c where "c = (case r of Inl e \<Rightarrow> -1 | Inr (f, a) \<Rightarrow> f)"
  have f2: "fds (closeFd N c k2) = fds k1"
  proof (cases r)
    case (Inl e)
    then show ?thesis using accept_fds(1)[OF spec, of s k1 e k2] a by (simp add: c_def closeFd_def)
  next
    case (Inr fa)
    obtain f b where fb: "fa = (f, b)" by force
    have o: "opens fds f k1 k2" using accept_fds(2)[OF spec, of s k1 f b k2] a Inr fb by simp
    moreover have "\<And>g. g \<in> fds k2 \<Longrightarrow> 0 \<le> g" using o pos f1 by (auto simp: opens_def)
    ultimately show ?thesis using closeFd_fds[OF spec, of k2 c] Inr fb by (auto simp: c_def opens_def)
  qed
  have "createIdleFd N (closeFd N c k2) = (idle', k')"
    using assms(2) a by (simp add: dealwithEMFILE_def k1_def c_def Let_def)
  from createIdleFd_fds[OF spec this] show ?thesis using f1 f2 by auto
qed

section \<open>A concrete kernel\<close>

text \<open>
  A kernel that hands out descriptors upwards and otherwise answers from a script: the outcomes
  of successive \<^verbatim>\<open>accept\<close> and \<^verbatim>\<open>connect\<close> calls, and the pending socket errors.
\<close>

record demo_kernel =
  openFds :: "FdType list"
  nextFd :: FdType
  accepts :: "nat option list"
  connects :: "nat option list"
  sockErrors :: "nat list"
  demoEpoll :: "FdType \<rightharpoonup> 32 word"

definition demo_open :: "demo_kernel \<Rightarrow> FdType \<times> demo_kernel" where
  "demo_open k = (let f = (if 0 \<le> nextFd k \<and> nextFd k \<notin> set (openFds k) then nextFd k
                            else 1 + Max (insert 0 (set (openFds k))))
                  in (f, k\<lparr>openFds := f # openFds k, nextFd := f + 1\<rparr>))"

definition demo_net :: "demo_kernel net" where
  "demo_net = \<lparr>
     net_socket = (\<lambda>a t k. map_prod Inr id (demo_open k)),
     net_fcntl = (\<lambda>f k. (True, k)),
     net_open_null = (\<lambda>k. map_prod Inr id (demo_open k)),
     net_close = (\<lambda>f k. k\<lparr>openFds := removeAll f (openFds k)\<rparr>),
     net_bind = (\<lambda>f a k. (None, k)),
     net_listen = (\<lambda>f n k. (None, k)),
     net_accept = (\<lambda>s k. case accepts k of
         [] \<Rightarrow> (Inl EAGAIN, k)
       | Some e # rs \<Rightarrow> (Inl e, k\<lparr>accepts := rs\<rparr>)
       | None # rs \<Rightarrow> (case demo_open (k\<lparr>accepts := rs\<rparr>) of (f, k) \<Rightarrow> (Inr (f, []), k))),
     net_connect = (\<lambda>f a k. case connects k of [] \<Rightarrow> (None, k) | r # rs \<Rightarrow> (r, k\<lparr>connects := rs\<rparr>)),
     net_sockname = (\<lambda>f k. (Inr [], k)),
     net_sockerr = (\<lambda>f k. case sockErrors k of [] \<Rightarrow> (Inr 0, k) | e # es \<Rightarrow> (Inr e, k\<lparr>sockErrors := es\<rparr>)),
     net_setsockopt = (\<lambda>f o1 k. k),
     net_sendto = (\<lambda>f bs a k. (Inr (length bs), k)),
     net_recvfrom = (\<lambda>f n k. (Inl EAGAIN, k))\<rparr>"

definition demo_sys :: "demo_kernel sys" where
  "demo_sys = \<lparr>
     sys_read = (\<lambda>k f n. (Inl EAGAIN, k)), sys_write = (\<lambda>k f bs. (Inr (length bs), k)),
     sys_writev = (\<lambda>k f bss. (Inr (length (concat bss)), k)), sys_shutdown = (\<lambda>k f how. k),
     sys_epoll_ctl = (\<lambda>k op f ev. case op of EPOLL_CTL_DEL \<Rightarrow> (True, k\<lparr>demoEpoll := (demoEpoll k)(f := None)\<rparr>)
        | _ \<Rightarrow> (True, k\<lparr>demoEpoll := (demoEpoll k)(f \<mapsto> ev)\<rparr>))\<rparr>"

lemma demo_open_opens: "demo_open k = (f, k') \<Longrightarrow> opens (\<lambda>k. set (openFds k)) f k k'"
proof -
  assume d: "demo_open k = (f, k')"
  let ?m = "1 + Max (insert 0 (set (openFds k)))"
  have le: "x \<le> Max (insert 0 (set (openFds k)))" if "x \<in> insert 0 (set (openFds k))" for x
    using that by (intro Max_ge) auto
  have "?m \<notin> set (openFds k)" "0 \<le> ?m" using le[of ?m] le[of 0] by auto
  then show ?thesis using d by (auto simp: demo_open_def opens_def Let_def split: if_splits)
qed

lemma demo_fds_spec: "fds_spec demo_net demo_sys (\<lambda>k. set (openFds k))"
  unfolding fds_spec_def
  by (auto simp: demo_net_def demo_sys_def map_prod_def dest: demo_open_opens
      split: list.splits option.splits prod.splits epoll_op.splits)
    (auto simp: opens_def dest!: demo_open_opens)

lemma demo_fcntl: "fcntl_works demo_net"
  by (simp add: fcntl_works_def demo_net_def)

end
