(* ===== verification/Server_Channel.thy ===== *)
theory Server_Channel
  imports Descriptors Socket_Channel Handler_Pipeline
begin

text \<open>
  \<^verbatim>\<open>nets/net/channel/ServerSocketChannel\<close>: the listening channel, which accepts connections, builds a
  \<^verbatim>\<open>SocketChannel\<close> for each with the child options and the child handlers, and activates it. The
  model composes the descriptor functions, the option switch, the handler store and the
  activation of a socket channel. A channel object lives as long as its event loop holds it.
\<close>

section \<open>State\<close>

text \<open>\<^verbatim>\<open>SOMAXCONN\<close> of Linux.\<close>

definition kDefaultMaximumOfBackLog :: int where "kDefaultMaximumOfBackLog = 4096"

text \<open>An option list is an unordered map; the list order stands for its iteration order.\<close>

type_synonym option_map = "(SockOption \<times> OptionValue) list"

fun insert_or_assign :: "'a \<Rightarrow> 'b \<Rightarrow> ('a \<times> 'b) list \<Rightarrow> ('a \<times> 'b) list" where
  "insert_or_assign k v [] = [(k, v)]"
| "insert_or_assign k v ((k', v') # xs) = (if k' = k then (k, v) # xs else (k', v') # insert_or_assign k v xs)"

record server = channel +
  idleFd :: FdType
  backlog :: int
  channelOptions :: option_map
  childOptions :: option_map
  childHandlers :: "nat list"
  childInitializationCallback :: "(pipeline \<Rightarrow> pipeline) option"

text \<open>
  A connection: its channel, the head of its pipeline (the handlers are in the common store) and
  the event loop chosen for it. \<open>conns\<close> are those held by their loops.
\<close>

record conn =
  conn_chan :: socket_channel
  conn_local :: inet_sock_address
  conn_peer :: inet_sock_address
  conn_head :: "nat option"
  conn_loop :: nat

record 'k srv_world =
  srv :: server
  skern :: 'k
  hstore :: store
  conns :: "conn list"
  srvRegistered :: bool

record 'k srv_env =
  env_sys :: "'k sys"
  env_net :: "'k net"
  env_names :: names
  env_app :: "'k app"
  env_next :: "nat \<Rightarrow> nat"

text \<open>The constructor, given the reserve descriptor.\<close>

definition server_new :: "'k srv_env \<Rightarrow> store \<Rightarrow> ('k, 'k srv_world) action" where
  "server_new E H k =
     (case createIdleFd (env_net E) k of (f, k) \<Rightarrow>
        if f < 0 then throw (RuntimeError ''ServerSocketChannel createIdleFd failed'') k
        else return \<lparr>srv = \<lparr>fd = kInvalidFd, events = kNoneEvent, readyEvents = kNoneEvent, isRegistered = False,
                    idleFd = f, backlog = 0,
                    channelOptions = [(REUSE_ADDR, VBool True), (REUSE_PORT, VBool True),
                      (BACKLOG, VInt32 (word_of_int kDefaultMaximumOfBackLog))],
                    childOptions = [(REUSE_ADDR, VBool True), (REUSE_PORT, VBool True)],
                    childHandlers = [], childInitializationCallback = None\<rparr>,
                  skern = k, hstore = H, conns = [], srvRegistered = False\<rparr> k)"

definition server_setChannelOptions :: "option_map \<Rightarrow> server \<Rightarrow> server" where
  "server_setChannelOptions opts s = s\<lparr>channelOptions := fold (\<lambda>(k, v). insert_or_assign k v) opts (channelOptions s)\<rparr>"

definition setChildOptions :: "option_map \<Rightarrow> server \<Rightarrow> server" where
  "setChildOptions opts s = s\<lparr>childOptions := fold (\<lambda>(k, v). insert_or_assign k v) opts (childOptions s)\<rparr>"

definition setChildHandlers :: "nat list \<Rightarrow> server \<Rightarrow> server" where
  "setChildHandlers hs s = s\<lparr>childHandlers := hs\<rparr>"

definition setChildInitializationCallback :: "(pipeline \<Rightarrow> pipeline) option \<Rightarrow> server \<Rightarrow> server" where
  "setChildInitializationCallback cb s = s\<lparr>childInitializationCallback := cb\<rparr>"

section \<open>Binding\<close>

definition apply_calls :: "'k net \<Rightarrow> FdType \<Rightarrow> option_call list \<Rightarrow> 'k \<Rightarrow> 'k" where
  "apply_calls N f cs k = fold (\<lambda>c k. case c of SetSockOpt so \<Rightarrow> net_setsockopt N f so k | SetBacklog n \<Rightarrow> k) cs k"

text \<open>\<^verbatim>\<open>ServerSocketChannel::setBacklog\<close>, called for the option of that name.\<close>

definition server_setBacklog :: "option_call list \<Rightarrow> int \<Rightarrow> int" where
  "server_setBacklog cs b = fold (\<lambda>c b. case c of SetBacklog n \<Rightarrow> sint n | SetSockOpt so \<Rightarrow> b) cs b"

definition on_kern :: "('k, 'a) action \<Rightarrow> ('k srv_world, 'a) action" where
  "on_kern m w = (case m (skern w) of (r, k) \<Rightarrow> (r, w\<lparr>skern := k\<rparr>))"

definition server_registerTo :: "'k srv_env \<Rightarrow> 'k srv_world \<Rightarrow> bool \<times> 'k srv_world" where
  "server_registerTo E w =
     (case poller_registerChannel (env_sys E) (srv w) (skern w) of
        (ok, s, k) \<Rightarrow> (ok, w\<lparr>srv := s, skern := k, srvRegistered := ok \<or> srvRegistered w\<rparr>))"

definition clamp_backlog :: "int \<Rightarrow> int" where
  "clamp_backlog b = (if b > kDefaultMaximumOfBackLog \<or> b \<le> 0 then kDefaultMaximumOfBackLog else b)"

text \<open>The part of \<^verbatim>\<open>bind\<close> after the options are set.\<close>

definition server_listen :: "'k srv_env \<Rightarrow> inet_sock_address \<Rightarrow> ('k srv_world, unit) action" where
  "server_listen E localAddress w =
     bind (on_kern (sock_bind (env_net E) (fd (srv w)) localAddress)) (\<lambda>_ w.
       let w = w\<lparr>srv := (srv w)\<lparr>backlog := clamp_backlog (backlog (srv w))\<rparr>\<rparr>
       in bind (on_kern (sock_listen (env_net E) (fd (srv w)) (backlog (srv w)))) (\<lambda>_ w.
            case server_registerTo E (w\<lparr>srv := addEvent kReadEvent (srv w)\<rparr>) of
              (True, w) \<Rightarrow> return () w
            | (False, w) \<Rightarrow> throw (ChannelRegisterException ''ServerSocketChannel register failed'') w) w) w"

definition server_bind :: "'k srv_env \<Rightarrow> inet_sock_address \<Rightarrow> ('k srv_world, unit) action" where
  "server_bind E localAddress w =
     bind (on_kern (createTcpSocket (env_net E) (ipFamily localAddress))) (\<lambda>f w.
       let w = w\<lparr>srv := (srv w)\<lparr>fd := f\<rparr>, skern := setSockNonBlock (env_net E) f (skern w)\<rparr>;
           (cs, r) = setChannelOptions (env_names E) True (channelOptions (srv w));
           w = w\<lparr>srv := (srv w)\<lparr>backlog := server_setBacklog cs (backlog (srv w))\<rparr>,
                 skern := apply_calls (env_net E) f cs (skern w)\<rparr>
       in case r of
            Inl e \<Rightarrow> (Inl e, w)
          | Inr _ \<Rightarrow> server_listen E localAddress (w\<lparr>srv := (srv w)\<lparr>channelOptions := []\<rparr>\<rparr>)) w"

section \<open>Accepting\<close>

fun addHandlers :: "nat list \<Rightarrow> pipeline \<Rightarrow> pipeline res" where
  "addHandlers [] p = Inr p"
| "addHandlers (h # hs) p = ebind (addLast (Some h) p) (addHandlers hs)"

text \<open>The result is the head of the new channel's pipeline.\<close>

definition server_initSocketChannel :: "'k srv_env \<Rightarrow> FdType \<Rightarrow> ('k srv_world, nat option) action" where
  "server_initSocketChannel E f w =
     (let (cs, r) = setChannelOptions (env_names E) False (childOptions (srv w));
          w = w\<lparr>skern := apply_calls (env_net E) f cs (skern w)\<rparr>
      in case r of
           Inl e \<Rightarrow> (Inl e, w)
         | Inr _ \<Rightarrow>
             (case addHandlers (childHandlers (srv w)) \<lparr>handlers = hstore w, headChannelHandler = None\<rparr> of
                Inl e \<Rightarrow> (Inl e, w)
              | Inr p \<Rightarrow>
                  (let p = (case childInitializationCallback (srv w) of None \<Rightarrow> p | Some g \<Rightarrow> g p)
                   in (Inr (headChannelHandler p), w\<lparr>hstore := handlers p\<rparr>))))"

definition handleAcceptError :: "'k srv_env \<Rightarrow> nat \<Rightarrow> ('k srv_world, unit) action" where
  "handleAcceptError E errNum w =
     (if errNum = EAGAIN \<or> errNum = EINTR \<or> errNum = EPROTO \<or> errNum = ECONNABORTED then return () w
      else if errNum = EMFILE
      then (case dealwithEMFILE (env_net E) (idleFd (srv w)) (fd (srv w)) (skern w) of
              (f, k) \<Rightarrow> return () (w\<lparr>srv := (srv w)\<lparr>idleFd := f\<rparr>, skern := k\<rparr>))
      else throw (ServerSocketChannelException ''ServerSocketChannel occurred unexpected exception while accepting'') w)"

text \<open>
  A new channel that throws while it is set up, or is not held by its loop afterwards, is
  destroyed, which closes its descriptor.
\<close>

definition activate_new ::
    "'k srv_env \<Rightarrow> FdType \<Rightarrow> inet_sock_address \<Rightarrow> inet_sock_address \<Rightarrow> nat option \<Rightarrow> nat \<Rightarrow> 'k \<Rightarrow> 'k \<times> conn list" where
  "activate_new E f localAddr peerAddr hp l k =
     (let sw = channelActive (env_sys E) (env_app E)
            \<lparr>chan = sc_new f, kern = k, inChannels = False, tasks = [], fired = []\<rparr>
      in if inChannels sw
         then (kern sw, [\<lparr>conn_chan = chan sw, conn_local = localAddr, conn_peer = peerAddr, conn_head = hp, conn_loop = l\<rparr>])
         else (closeFd (env_net E) f (kern sw), []))"

definition server_activate ::
    "'k srv_env \<Rightarrow> FdType \<Rightarrow> inet_sock_address \<Rightarrow> inet_sock_address \<Rightarrow> nat option \<Rightarrow> 'k srv_world \<Rightarrow> 'k srv_world" where
  "server_activate E f localAddr peerAddr hp w =
     (case activate_new E f localAddr peerAddr hp (env_next E (length (conns w))) (skern w) of
        (k, cs) \<Rightarrow> w\<lparr>skern := k, conns := conns w @ cs\<rparr>)"

definition server_handleReadEvent :: "'k srv_env \<Rightarrow> ('k srv_world, unit) action" where
  "server_handleReadEvent E w =
     (case sock_accept (env_net E) (fd (srv w)) (skern w) of
        (Inl e, k) \<Rightarrow> handleAcceptError E e (w\<lparr>skern := k\<rparr>)
      | (Inr (f, peerAddr), k) \<Rightarrow>
          (case getLocalAddress (env_net E) f isa_default k of (localAddr, k) \<Rightarrow>
             (case server_initSocketChannel E f (w\<lparr>skern := k\<rparr>) of
                (Inl e, w) \<Rightarrow> (Inl e, w\<lparr>skern := closeFd (env_net E) f (skern w)\<rparr>)
              | (Inr hp, w) \<Rightarrow> return () (server_activate E f localAddr peerAddr hp w))))"

definition server_handleErrorEvent :: "'k srv_env \<Rightarrow> ('k srv_world, unit) action" where
  "server_handleErrorEvent E w =
     (case getSockError (env_net E) (fd (srv w)) (skern w) of (e, k) \<Rightarrow>
        throw (ServerSocketChannelException ''ServerSocketChannel occurred unexpected exception'') (w\<lparr>skern := k\<rparr>))"

definition server_destroy :: "'k srv_env \<Rightarrow> 'k srv_world \<Rightarrow> 'k" where
  "server_destroy E w = closeFd (env_net E) (idleFd (srv w)) (closeFd (env_net E) (fd (srv w)) (skern w))"

text \<open>Read events one after the other, up to the first that throws.\<close>

definition server_reads :: "'k srv_env \<Rightarrow> nat \<Rightarrow> ('k srv_world, unit) action" where
  "server_reads E n = run_actions (\<lambda>u. server_handleReadEvent E) (replicate n ())"

section \<open>Descriptors\<close>

definition conn_fds :: "'k srv_world \<Rightarrow> FdType set" where
  "conn_fds w = (\<lambda>c. fd (conn_chan c)) ` set (conns w)"

definition idle_set :: "'k srv_world \<Rightarrow> FdType set" where
  "idle_set w = (if 0 \<le> idleFd (srv w) then {idleFd (srv w)} else {})"

text \<open>
  With \<open>L\<close> the descriptors of the rest of the process, the open descriptors are those, one per
  connection, and the reserve, all different.
\<close>

definition ledger :: "('k \<Rightarrow> FdType set) \<Rightarrow> FdType set \<Rightarrow> 'k srv_world \<Rightarrow> bool" where
  "ledger fds L w \<longleftrightarrow>
     fds (skern w) = L \<union> conn_fds w \<union> idle_set w \<and> (\<forall>g \<in> L \<union> conn_fds w. 0 \<le> g) \<and>
     idle_set w \<inter> (L \<union> conn_fds w) = {} \<and> L \<inter> conn_fds w = {} \<and> distinct (map (\<lambda>c. fd (conn_chan c)) (conns w))"

text \<open>User code neither opens or closes descriptors of its own nor exchanges the channel's.\<close>

definition app_keeps :: "('k \<Rightarrow> FdType set) \<Rightarrow> 'k app \<Rightarrow> bool" where
  "app_keeps fds app \<longleftrightarrow> (\<forall>e w. fds (kern (app e w)) = fds (kern w) \<and> fd (chan (app e w)) = fd (chan w))"

lemma apply_calls_fds: "fds_spec N S fds \<Longrightarrow> fds (apply_calls N f cs k) = fds k"
  unfolding apply_calls_def
  by (induction cs arbitrary: k) (auto simp: keeps_fds(8) split: option_call.splits)

lemma epollCtl_fds: "fds_spec N S fds \<Longrightarrow> epollCtl S op c k = (ok, k') \<Longrightarrow> fds k' = fds k"
  using keeps_fds(7)[of N S fds k op "fd c" "epoll_mask (events c)" ok k'] by (simp add: epollCtl_def)

lemma poller_call_fds:
  assumes "fds_spec N S fds" and "poller_call S f" and "f c k = (ok, c', k')"
  shows "fds k' = fds k"
  using poller_call_cases[OF assms(2,3)] assms(3)
  by (auto simp: poller_add_def poller_deregisterChannel_def Let_def simp del: set_eq_iff
      dest: epollCtl_fds[OF assms(1)] split: prod.splits if_splits)

lemma channelActive_fds:
  assumes spec: "fds_spec N S fds" and app: "app_keeps fds app"
  shows "fds (kern (channelActive S app w)) = fds (kern w) \<and> fd (chan (channelActive S app w)) = fd (chan w)"
proof -
  let ?w = "w\<lparr>chan := addEvent kReadEvent (chan w)\<rparr>"
  obtain ok c k where r: "poller_registerChannel S (chan ?w) (kern ?w) = (ok, c, k)" by (metis prod_cases3)
  have call: "poller_call S (poller_registerChannel S)" "poller_call S (poller_deregisterChannel S)"
    by (simp_all add: poller_call_def)
  have k: "fds k = fds (kern w)" "fd c = fd (chan w)"
    using poller_call_fds[OF spec call(1) r] poller_call_fields(1)[OF call(1) r] by simp_all
  obtain ok' c' k' where d: "poller_deregisterChannel S c k = (ok', c', k')" by (metis prod_cases3)
  have "fds k' = fds k" "fd c' = fd c"
    using poller_call_fds[OF spec call(2) d] poller_call_fields(1)[OF call(2) d] by simp_all
  then show ?thesis using r d k app
    by (auto simp: channelActive_def sc_registerTo_def sc_deregister_def fire_def app_keeps_def Let_def)
qed

lemma ledger_cong:
  "fds (skern w') = fds (skern w) \<Longrightarrow> idleFd (srv w') = idleFd (srv w) \<Longrightarrow> conns w' = conns w \<Longrightarrow>
   ledger fds L w' = ledger fds L w"
  by (simp add: ledger_def conn_fds_def idle_set_def)

lemma ledger_pos: "ledger fds L w \<Longrightarrow> g \<in> fds (skern w) \<Longrightarrow> 0 \<le> g"
  by (auto simp: ledger_def idle_set_def split: if_splits)

lemma init_fds:
  assumes "fds_spec (env_net E) (env_sys E) fds" and "server_initSocketChannel E f w = (r, w')"
  shows "fds (skern w') = fds (skern w) \<and> srv w' = srv w \<and> conns w' = conns w"
  using assms(2) apply_calls_fds[OF assms(1)]
  by (auto simp: server_initSocketChannel_def Let_def split: prod.splits sum.splits option.splits)

lemma accept_error_ledger:
  assumes spec: "fds_spec (env_net E) (env_sys E) fds" and inv: "ledger fds L w"
    and h: "handleAcceptError E e w = (r, w')"
  shows "ledger fds L w'"
proof (cases "e = EMFILE")
  case True
  obtain f k where d: "dealwithEMFILE (env_net E) (idleFd (srv w)) (fd (srv w)) (skern w) = (f, k)" by force
  have w': "w' = w\<lparr>srv := (srv w)\<lparr>idleFd := f\<rparr>, skern := k\<rparr>" using h d True by (simp add: handleAcceptError_def)
  have minus: "fds (skern w) - {idleFd (srv w)} = L \<union> conn_fds w"
    using inv by (auto simp: ledger_def idle_set_def split: if_splits)
  have new: "fds k = L \<union> conn_fds w \<union> {g. g = f \<and> 0 \<le> f}" "0 \<le> f \<longrightarrow> f \<notin> L \<union> conn_fds w"
    using dealwithEMFILE_fds[OF spec d ledger_pos[OF inv]] unfolding minus by blast+
  have sets: "conn_fds w' = conn_fds w" "idle_set w' = {g. g = f \<and> 0 \<le> f}" "skern w' = k" "conns w' = conns w"
    unfolding w' by (auto simp: conn_fds_def idle_set_def)
  have rest: "\<forall>g \<in> L \<union> conn_fds w. 0 \<le> g" "L \<inter> conn_fds w = {}" "distinct (map (\<lambda>c. fd (conn_chan c)) (conns w))"
    using inv unfolding ledger_def by blast+
  show ?thesis unfolding ledger_def sets using new rest by blast
next
  case False
  then have "w' = w" using h by (auto simp: handleAcceptError_def split: if_splits)
  then show ?thesis using inv by simp
qed

lemma activate_new_fds:
  assumes spec: "fds_spec (env_net E) (env_sys E) fds" and app: "app_keeps fds (env_app E)"
    and k: "fds k = insert f F" and f: "0 \<le> f" "f \<notin> F" and pos: "\<And>g. g \<in> F \<Longrightarrow> 0 \<le> g"
    and n: "activate_new E f la pa hp l k = (k', cs)"
  shows "(cs = [] \<and> fds k' = F) \<or> (\<exists>c. cs = [c] \<and> fd (conn_chan c) = f \<and> fds k' = insert f F)"
proof -
  let ?w0 = "\<lparr>chan = sc_new f, kern = k, inChannels = False, tasks = [], fired = []\<rparr>"
  let ?sw = "channelActive (env_sys E) (env_app E) ?w0"
  have sw: "fds (kern ?sw) = insert f F" "fd (chan ?sw) = f"
    using channelActive_fds[OF spec app, of ?w0] k by (simp_all add: sc_new_def)
  then have "fds (closeFd (env_net E) f (kern ?sw)) = F"
    using closeFd_fds[OF spec, of "kern ?sw" f] f pos by auto
  then show ?thesis using n sw by (auto simp: activate_new_def Let_def split: if_splits)
qed

lemma activate_ledger:
  assumes spec: "fds_spec (env_net E) (env_sys E) fds" and app: "app_keeps fds (env_app E)"
    and inv: "ledger fds L (w\<lparr>skern := k0\<rparr>)" and op: "opens fds f k0 k1" and k: "fds (skern w) = fds k1"
  shows "ledger fds L (server_activate E f la pa hp w)"
proof -
  obtain k' cs where n: "activate_new E f la pa hp (env_next E (length (conns w))) (skern w) = (k', cs)" by force
  have "(cs = [] \<and> fds k' = fds k0) \<or> (\<exists>c. cs = [c] \<and> fd (conn_chan c) = f \<and> fds k' = insert f (fds k0))"
    by (rule activate_new_fds[OF spec app _ _ _ _ n])
      (use op k ledger_pos[OF inv] in \<open>auto simp: opens_def\<close>)
  then show ?thesis using inv op n
    by (auto simp: server_activate_def ledger_def conn_fds_def idle_set_def opens_def image_iff; metis)
qed

lemma read_event_ledger:
  assumes spec: "fds_spec (env_net E) (env_sys E) fds" and app: "app_keeps fds (env_app E)"
    and inv: "ledger fds L w" and h: "server_handleReadEvent E w = (r, w')"
  shows "ledger fds L w'"
proof -
  obtain a k where acc: "net_accept (env_net E) (fd (srv w)) (skern w) = (a, k)" by force
  show ?thesis
  proof (cases a)
    case (Inl e)
    have k: "fds k = fds (skern w)" by (rule accept_fds(1)[OF spec acc[unfolded Inl]])
    have "ledger fds L (w\<lparr>skern := k\<rparr>)" by (rule iffD2[OF ledger_cong inv]) (simp_all add: k)
    from accept_error_ledger[OF spec this] show ?thesis
      using h acc Inl by (simp add: server_handleReadEvent_def sock_accept_def)
  next
    case (Inr fa)
    obtain f b where fb: "fa = (f, b)" by force
    have op: "opens fds f (skern w) k" by (rule accept_fds(2)[OF spec acc[unfolded Inr fb]])
    obtain la k2 where la: "getLocalAddress (env_net E) f isa_default k = (la, k2)" by force
    have k2: "fds k2 = fds k" by (rule getLocalAddress_fds[OF spec la])
    obtain q w2 where i: "server_initSocketChannel E f (w\<lparr>skern := k2\<rparr>) = (q, w2)" by force
    have w2: "fds (skern w2) = fds k" "srv w2 = srv w" "conns w2 = conns w" using init_fds[OF spec i] k2 by auto
    have inv2: "ledger fds L (w2\<lparr>skern := skern w\<rparr>)"
      by (rule iffD2[OF ledger_cong inv]) (simp_all add: w2)
    show ?thesis
    proof (cases q)
      case (Inl e)
      have "\<And>g. g \<in> fds (skern w2) \<Longrightarrow> 0 \<le> g"
        using ledger_pos[OF inv] op w2(1) by (auto simp: opens_def)
      then have "fds (closeFd (env_net E) f (skern w2)) = fds (skern w)"
        using closeFd_fds[OF spec, of "skern w2" f] w2(1) op by (auto simp: opens_def)
      then have "ledger fds L (w2\<lparr>skern := closeFd (env_net E) f (skern w2)\<rparr>)"
        by (intro iffD2[OF ledger_cong inv]) (simp_all add: w2)
      then show ?thesis using h acc Inr fb la i Inl by (simp add: server_handleReadEvent_def sock_accept_def)
    next
      case (Inr hp)
      then show ?thesis
        using activate_ledger[OF spec app inv2 op w2(1)] h acc \<open>a = Inr fa\<close> fb la i
        by (auto simp: server_handleReadEvent_def sock_accept_def)
    qed
  qed
qed

text \<open>The invariant with what it rests on, and runs of read events.\<close>

definition srv_accounted :: "'k srv_env \<Rightarrow> ('k \<Rightarrow> FdType set) \<Rightarrow> FdType set \<Rightarrow> 'k srv_world \<Rightarrow> bool" where
  "srv_accounted E fds L w \<longleftrightarrow> fds_spec (env_net E) (env_sys E) fds \<and> app_keeps fds (env_app E) \<and> ledger fds L w"

interpretation reads: invariant_actions "\<lambda>u :: unit. server_handleReadEvent E" "srv_accounted E fds L" "\<lambda>u. True" "\<lambda>r. True"
  for E :: "'k srv_env" and fds :: "'k \<Rightarrow> FdType set" and L :: "FdType set"
  by unfold_locales (auto simp: srv_accounted_def dest: read_event_ledger)

lemma reads_ledger:
  assumes "fds_spec (env_net E) (env_sys E) fds" and "app_keeps fds (env_app E)"
    and "ledger fds L w" and "server_reads E n w = (r, w')"
  shows "ledger fds L w'"
  using reads.run_keeps[of E fds L w "replicate n ()" r w'] assms by (simp add: srv_accounted_def server_reads_def list_all_iff)

text \<open>Three read events: a connection, \<^verbatim>\<open>EMFILE\<close> and another connection.\<close>

definition demo_env :: "demo_kernel srv_env" where
  "demo_env = \<lparr>env_sys = demo_sys, env_net = demo_net,
     env_names = \<lparr>pton4 = (\<lambda>s. None), pton6 = (\<lambda>s. None), nametoindex = (\<lambda>s. 0)\<rparr>,
     env_app = (\<lambda>e w. w), env_next = (\<lambda>n. n mod 2)\<rparr>"

definition demo_server :: "demo_kernel srv_world" where
  "demo_server = \<lparr>srv = \<lparr>fd = 3, events = kReadEvent, readyEvents = kNoneEvent, isRegistered = True,
       idleFd = 4, backlog = 4096, channelOptions = [], childOptions = [(REUSE_ADDR, VBool True)],
       childHandlers = [0], childInitializationCallback = None\<rparr>,
     skern = \<lparr>openFds = [4, 3], nextFd = 5, accepts = [None, Some EMFILE, None], connects = [], sockErrors = [],
       demoEpoll = [3 \<mapsto> 1]\<rparr>,
     hstore = (\<lambda>h. \<lparr>name = [], kind = SocketHandler, next = None\<rparr>), conns = [], srvRegistered = True\<rparr>"

lemma demo_ledger: "ledger (\<lambda>k. set (openFds k)) {3} demo_server"
  by (auto simp: ledger_def demo_server_def conn_fds_def idle_set_def)

text \<open>
  C10. The acceptor does not leak descriptors, on any path: whatever the kernel answers to the
  accepts of any number of read events (connections, temporary errors, running out of
  descriptors, errors that throw) and however setting up a channel ends, the descriptors open
  afterwards are those of the rest of the process, exactly one for each channel held by a loop,
  and the reserve for the case of \<^verbatim>\<open>EMFILE\<close>, all different.
\<close>

theorem server_no_descriptor_leak:
  assumes "fds_spec (env_net E) (env_sys E) fds" and "app_keeps fds (env_app E)"
    and "ledger fds L w" and "server_reads E n w = (r, w')"
  shows "fds (skern w') = L \<union> conn_fds w' \<union> idle_set w' \<and> L \<inter> conn_fds w' = {} \<and>
         idle_set w' \<inter> (L \<union> conn_fds w') = {} \<and> distinct (map (\<lambda>c. fd (conn_chan c)) (conns w'))"
  using reads_ledger[OF assms] by (simp add: ledger_def)

theorem server_no_descriptor_leak_witness:
  "let (r, w') = server_reads demo_env 3 demo_server
   in set (openFds (skern w')) = {3} \<union> conn_fds w' \<union> idle_set w' \<and> {3} \<inter> conn_fds w' = {} \<and>
      idle_set w' \<inter> ({3} \<union> conn_fds w') = {} \<and> distinct (map (\<lambda>c. fd (conn_chan c)) (conns w'))"
  using server_no_descriptor_leak[of demo_env "\<lambda>k. set (openFds k)" "{3}" demo_server 3] demo_fds_spec demo_ledger
  by (cases "server_reads demo_env 3 demo_server") (simp add: demo_env_def app_keeps_def)

text \<open>
  The handlers given to \<^verbatim>\<open>ServerBootstrap::childHandler\<close> are shared by all connections, and so are
  their \<^verbatim>\<open>next_\<close> links. With two of them the second connection links the last handler to itself,
  and the third connection loops in \<^verbatim>\<open>addLast\<close> for ever.
\<close>

lemma shared_child_handlers_hang:
  assumes "a \<noteq> b" and "next (H a) = None" and "next (H b) = None"
  shows "\<exists>p1 p2. addHandlers [a, b] \<lparr>handlers = H, headChannelHandler = None\<rparr> = Inr p1 \<and>
    addHandlers [a, b] \<lparr>handlers = handlers p1, headChannelHandler = None\<rparr> = Inr p2 \<and>
    next (handlers p2 b) = Some b \<and>
    addHandlers [a, b] \<lparr>handlers = handlers p2, headChannelHandler = None\<rparr> = Inl Hang"
proof -
  let ?H1 = "setNext a (Some b) H" and ?H2 = "setNext b (Some b) (setNext a (Some b) H)"
  have loop: "findLast_loop ?H2 b = None"
    by (rule findLast_loop_cycle) (use assms in auto)
  have one: "findLast_loop ?H1 b = Some b" using assms by (subst findLast_loop.simps) simp
  show ?thesis using assms loop one
    by (intro exI[of _ "\<lparr>handlers = ?H1, headChannelHandler = Some a\<rparr>"]
        exI[of _ "\<lparr>handlers = ?H2, headChannelHandler = Some a\<rparr>"])
      (simp add: addLast_def findLast_def hang_def)
qed

end
