(* ===== verification/Connector_Channel.thy ===== *)
theory Connector_Channel
  imports Server_Channel
begin

text \<open>
  \<^verbatim>\<open>nets/net/channel/ConnectorChannel\<close>: the client side of a connection attempt, with its waiting
  for the socket to become writable and its retries. The object is kept alive by the loop's
  channel table, by its pending task and by its pending timer; when the last of these is gone the
  destructor runs, which is \<open>release\<close>. A turn of the event loop runs the timers that are due, then
  the pending tasks, then the events epoll reports.
\<close>

section \<open>State\<close>

datatype ConnectionState = CONNECTED | CONNECTING | DISCONNECTED

record connector = channel +
  localAddress :: inet_sock_address
  peerAddress :: inet_sock_address
  cstate :: ConnectionState
  retry :: bool
  retryInterval :: int
  connectorOptions :: option_map
  channelHandlers :: "nat list"
  channelInitializationCallback :: "(pipeline \<Rightarrow> pipeline) option"

text \<open>The two closures passed to \<^verbatim>\<open>addTask\<close>; a pending timer is the delay it was scheduled with.\<close>

datatype con_task = DeregisterReconnect | DeregisterOnly

record 'k con_world =
  con :: connector
  ckern :: 'k
  cstore :: store
  inTable :: bool
  conTasks :: "con_task list"
  conTimers :: "int list"
  made :: "conn list"
  alive :: bool

abbreviation EINPROGRESS :: nat where "EINPROGRESS \<equiv> 115"
abbreviation EISCONN :: nat where "EISCONN \<equiv> 106"
abbreviation ETIMEDOUT :: nat where "ETIMEDOUT \<equiv> 110"
abbreviation EADDRINUSE :: nat where "EADDRINUSE \<equiv> 98"
abbreviation EADDRNOTAVAIL :: nat where "EADDRNOTAVAIL \<equiv> 99"
abbreviation ECONNREFUSED :: nat where "ECONNREFUSED \<equiv> 111"
abbreviation ENETUNREACH :: nat where "ENETUNREACH \<equiv> 101"

definition connector_new :: connector where
  "connector_new = \<lparr>fd = kInvalidFd, events = kNoneEvent, readyEvents = kNoneEvent, isRegistered = False,
     localAddress = isa_default, peerAddress = isa_default, cstate = DISCONNECTED, retry = False, retryInterval = 0,
     connectorOptions = [], channelHandlers = [], channelInitializationCallback = None\<rparr>"

definition setRetry :: "bool \<Rightarrow> connector \<Rightarrow> connector" where
  "setRetry b c = c\<lparr>retry := b\<rparr>"

definition setRetryInterval :: "int \<Rightarrow> connector \<Rightarrow> connector" where
  "setRetryInterval i c = c\<lparr>retryInterval := i\<rparr>"

definition setConnectorOptions :: "option_map \<Rightarrow> connector \<Rightarrow> connector" where
  "setConnectorOptions os c = c\<lparr>connectorOptions := os\<rparr>"

definition setChannelHandlers :: "nat list \<Rightarrow> connector \<Rightarrow> connector" where
  "setChannelHandlers hs c = c\<lparr>channelHandlers := hs\<rparr>"

definition setChannelInitializationCallback :: "(pipeline \<Rightarrow> pipeline) option \<Rightarrow> connector \<Rightarrow> connector" where
  "setChannelInitializationCallback cb c = c\<lparr>channelInitializationCallback := cb\<rparr>"

section \<open>Registration and destruction\<close>

definition con_registerTo :: "'k srv_env \<Rightarrow> 'k con_world \<Rightarrow> bool \<times> 'k con_world" where
  "con_registerTo E w =
     (case poller_registerChannel (env_sys E) (con w) (ckern w) of
        (ok, c, k) \<Rightarrow> (ok, w\<lparr>con := c, ckern := k, inTable := ok \<or> inTable w\<rparr>))"

definition con_deregister :: "'k srv_env \<Rightarrow> 'k con_world \<Rightarrow> 'k con_world" where
  "con_deregister E w =
     (case poller_deregisterChannel (env_sys E) (con w) (ckern w) of
        (ok, c, k) \<Rightarrow> w\<lparr>con := c, ckern := k, inTable := False\<rparr>)"

definition con_destroy :: "'k srv_env \<Rightarrow> 'k con_world \<Rightarrow> 'k con_world" where
  "con_destroy E w =
     w\<lparr>ckern := (if cstate (con w) \<noteq> CONNECTED then closeFd (env_net E) (fd (con w)) (ckern w) else ckern w),
       alive := False\<rparr>"

definition release :: "'k srv_env \<Rightarrow> 'k con_world \<Rightarrow> 'k con_world" where
  "release E w =
     (if alive w \<and> \<not> inTable w \<and> conTasks w = [] \<and> conTimers w = [] then con_destroy E w else w)"

section \<open>Connecting\<close>

text \<open>The closure scheduled here calls \<open>connect\<close> again; see \<open>con_timer\<close>.\<close>

definition reconnect :: "'k srv_env \<Rightarrow> 'k con_world \<Rightarrow> 'k con_world" where
  "reconnect E w =
     (let w = w\<lparr>con := (con w)\<lparr>cstate := DISCONNECTED\<rparr>\<rparr>;
          w = w\<lparr>ckern := closeFd (env_net E) (fd (con w)) (ckern w)\<rparr>;
          w = w\<lparr>con := (con w)\<lparr>fd := kInvalidFd\<rparr>\<rparr>
      in w\<lparr>conTimers := conTimers w @ [retryInterval (con w)]\<rparr>)"

text \<open>The exception thrown when the registration fails is caught in the same function.\<close>

definition waitConnect :: "'k srv_env \<Rightarrow> 'k con_world \<Rightarrow> 'k con_world" where
  "waitConnect E w =
     (case con_registerTo E (w\<lparr>con := addEvent kWriteEvent (con w)\<rparr>) of
        (True, w) \<Rightarrow> w\<lparr>con := (con w)\<lparr>cstate := CONNECTING\<rparr>\<rparr>
      | (False, w) \<Rightarrow>
          (let w = (if isRegistered (con w) then con_deregister E w else w)
           in if retry (con w) then reconnect E w else w))"

definition handleConnectError :: "'k srv_env \<Rightarrow> nat \<Rightarrow> 'k con_world \<Rightarrow> 'k con_world" where
  "handleConnectError E errNum w =
     (if errNum = EINTR \<or> errNum = EISCONN \<or> errNum = EINPROGRESS then waitConnect E w
      else if errNum = EAGAIN \<or> errNum = ETIMEDOUT \<or> errNum = EADDRINUSE \<or> errNum = EADDRNOTAVAIL \<or>
              errNum = ECONNREFUSED \<or> errNum = ENETUNREACH then reconnect E w
      else w)"

definition con_initSocketChannel :: "'k srv_env \<Rightarrow> FdType \<Rightarrow> ('k con_world, nat option) action" where
  "con_initSocketChannel E f w =
     (let (cs, r) = setChannelOptions (env_names E) False (connectorOptions (con w));
          w = w\<lparr>ckern := apply_calls (env_net E) f cs (ckern w)\<rparr>
      in case r of
           Inl e \<Rightarrow> (Inl e, w)
         | Inr _ \<Rightarrow>
             (let w = w\<lparr>con := (con w)\<lparr>connectorOptions := []\<rparr>\<rparr>
              in case addHandlers (channelHandlers (con w)) \<lparr>handlers = cstore w, headChannelHandler = None\<rparr> of
                   Inl e \<Rightarrow> (Inl e, w)
                 | Inr p \<Rightarrow>
                     (let p = (case channelInitializationCallback (con w) of None \<Rightarrow> p | Some g \<Rightarrow> g p)
                      in (Inr (headChannelHandler p), w\<lparr>cstore := handlers p,
                            con := (con w)\<lparr>channelHandlers := [], channelInitializationCallback := None\<rparr>\<rparr>))))"

text \<open>If the set-up throws, the new \<^verbatim>\<open>SocketChannel\<close> is destroyed, which closes the descriptor.\<close>

definition newSocketChannel :: "'k srv_env \<Rightarrow> ('k con_world, unit) action" where
  "newSocketChannel E w =
     (let f = fd (con w);
          (la, k) = getLocalAddress (env_net E) f (localAddress (con w)) (ckern w);
          w = w\<lparr>con := (con w)\<lparr>localAddress := la\<rparr>, ckern := k\<rparr>
      in case con_initSocketChannel E f w of
           (Inl e, w) \<Rightarrow> (Inl e, w\<lparr>ckern := closeFd (env_net E) f (ckern w)\<rparr>)
         | (Inr hp, w) \<Rightarrow>
             (let w = (if cstate (con w) = CONNECTING
                       then con_deregister E (w\<lparr>con := (con w)\<lparr>cstate := CONNECTED\<rparr>\<rparr>)
                       else w\<lparr>con := (con w)\<lparr>cstate := CONNECTED\<rparr>\<rparr>)
              in case activate_new E f la (peerAddress (con w)) hp 0 (ckern w) of
                   (k, cs) \<Rightarrow> return () (w\<lparr>ckern := k, made := made w @ cs\<rparr>)))"

definition con_connect :: "'k srv_env \<Rightarrow> inet_sock_address \<Rightarrow> ('k con_world, unit) action" where
  "con_connect E serverAddress w =
     (case createTcpSocket (env_net E) (ipFamily serverAddress) (ckern w) of
        (Inl e, k) \<Rightarrow> (Inl e, w\<lparr>ckern := k\<rparr>)
      | (Inr f, k) \<Rightarrow>
          (case sock_connect (env_net E) f serverAddress (setSockNonBlock (env_net E) f k) of
             (r, k) \<Rightarrow>
               (let w = w\<lparr>con := (con w)\<lparr>fd := f, peerAddress := serverAddress\<rparr>, ckern := k\<rparr>
                in case r of
                     None \<Rightarrow> newSocketChannel E w
                   | Some errNum \<Rightarrow> return () (handleConnectError E errNum w))))"

section \<open>Events\<close>

definition con_handleErrorEvent :: "'k con_world \<Rightarrow> 'k con_world" where
  "con_handleErrorEvent w =
     w\<lparr>conTasks := conTasks w @ [if retry (con w) then DeregisterReconnect else DeregisterOnly]\<rparr>"

definition con_handleWriteEvent :: "'k srv_env \<Rightarrow> ('k con_world, unit) action" where
  "con_handleWriteEvent E w =
     (if cstate (con w) \<noteq> CONNECTING then return () w
      else case getSockError (env_net E) (fd (con w)) (ckern w) of
             (errNum, k) \<Rightarrow>
               (let w = w\<lparr>ckern := k\<rparr>
                in if errNum \<noteq> 0 then return () (con_handleErrorEvent w) else newSocketChannel E w))"

text \<open>The channel has no read handler of its own; that of the base class does nothing.\<close>

definition con_handleEvent :: "'k srv_env \<Rightarrow> ('k con_world, unit) action" where
  "con_handleEvent E w =
     (let w = (if readyEvents (con w) AND kErrorEvent \<noteq> 0 then con_handleErrorEvent w else w)
      in if readyEvents (con w) AND kWriteEvent \<noteq> 0 then con_handleWriteEvent E w else return () w)"

definition con_runTask :: "'k srv_env \<Rightarrow> con_task \<Rightarrow> 'k con_world \<Rightarrow> 'k con_world" where
  "con_runTask E t w =
     (let w = con_deregister E w in case t of DeregisterReconnect \<Rightarrow> reconnect E w | DeregisterOnly \<Rightarrow> w)"

definition con_timer :: "'k srv_env \<Rightarrow> ('k con_world, unit) action" where
  "con_timer E w =
     (case conTimers w of
        [] \<Rightarrow> return () w
      | i # ts \<Rightarrow> con_connect E (peerAddress (con w)) (w\<lparr>conTimers := ts\<rparr>))"

definition con_runTasks :: "'k srv_env \<Rightarrow> 'k con_world \<Rightarrow> 'k con_world" where
  "con_runTasks E w = fold (con_runTask E) (conTasks w) (w\<lparr>conTasks := []\<rparr>)"

definition con_dispatch :: "'k srv_env \<Rightarrow> 32 word option \<Rightarrow> ('k con_world, unit) action" where
  "con_dispatch E reported w =
     (case reported of
        None \<Rightarrow> return () w
      | Some revents \<Rightarrow>
          if inTable w then con_handleEvent E (w\<lparr>con := prepareReady revents (con w)\<rparr>) else return () w)"

definition released :: "'k srv_env \<Rightarrow> ('k con_world, unit) action \<Rightarrow> ('k con_world, unit) action" where
  "released E m w = (case m w of (r, w) \<Rightarrow> (r, release E w))"

text \<open>One turn: \<open>due\<close> is the number of times the timer of the connector comes due in it.\<close>

definition con_timers :: "'k srv_env \<Rightarrow> nat \<Rightarrow> ('k con_world, unit) action" where
  "con_timers E due = run_actions (\<lambda>u. released E (con_timer E)) (replicate due ())"

definition con_turn :: "'k srv_env \<Rightarrow> nat \<times> 32 word option \<Rightarrow> ('k con_world, unit) action" where
  "con_turn E = (\<lambda>(due, reported).
     bind (con_timers E due) (\<lambda>_ w. released E (con_dispatch E reported) (release E (con_runTasks E w))))"

definition con_turns :: "'k srv_env \<Rightarrow> (nat \<times> 32 word option) list \<Rightarrow> ('k con_world, unit) action" where
  "con_turns E = run_actions (con_turn E)"

text \<open>\<^verbatim>\<open>Bootstrap::doConnect\<close> with a connector that has been set up, followed by turns of the loop.\<close>

definition con_run :: "'k srv_env \<Rightarrow> inet_sock_address \<Rightarrow> (nat \<times> 32 word option) list \<Rightarrow> ('k con_world, unit) action" where
  "con_run E serverAddress ts = bind (released E (con_connect E serverAddress)) (\<lambda>_. con_turns E ts)"

section \<open>Phases of an attempt\<close>

definition made_fds :: "'k con_world \<Rightarrow> FdType set" where
  "made_fds w = (\<lambda>c. fd (conn_chan c)) ` set (made w)"

text \<open>The descriptor the connector itself has to close.\<close>

definition own :: "'k con_world \<Rightarrow> FdType set" where
  "own w = (if alive w \<and> cstate (con w) \<noteq> CONNECTED \<and> 0 \<le> fd (con w) then {fd (con w)} else {})"

definition con_ledger :: "('k \<Rightarrow> FdType set) \<Rightarrow> FdType set \<Rightarrow> 'k con_world \<Rightarrow> bool" where
  "con_ledger fds L w \<longleftrightarrow>
     fds (ckern w) = L \<union> made_fds w \<union> own w \<and> (\<forall>g \<in> L \<union> made_fds w. 0 \<le> g) \<and>
     own w \<inter> (L \<union> made_fds w) = {} \<and> L \<inter> made_fds w = {}"

definition idle :: "'k con_world \<Rightarrow> bool" where
  "idle w \<longleftrightarrow> \<not> inTable w \<and> \<not> isRegistered (con w) \<and> conTasks w = [] \<and> conTimers w = []"

text \<open>
  About to connect; waiting for the socket, perhaps with the task of a failed attempt queued;
  waiting for the timer; finished, one way or the other.
\<close>

definition write_only :: "'k con_world \<Rightarrow> bool" where
  "write_only w \<longleftrightarrow> events (con w) = kNoneEvent \<or> events (con w) = kWriteEvent"

definition starting :: "'k con_world \<Rightarrow> bool" where
  "starting w \<longleftrightarrow> alive w \<and> idle w \<and> cstate (con w) = DISCONNECTED \<and> fd (con w) = kInvalidFd \<and> made w = [] \<and> write_only w"

definition waiting :: "'k con_world \<Rightarrow> bool" where
  "waiting w \<longleftrightarrow> alive w \<and> cstate (con w) = CONNECTING \<and> 0 \<le> fd (con w) \<and> inTable w \<and> isRegistered (con w) \<and>
     events (con w) = kWriteEvent \<and> length (conTasks w) \<le> 1 \<and> conTimers w = [] \<and> made w = []"

definition backing_off :: "'k con_world \<Rightarrow> bool" where
  "backing_off w \<longleftrightarrow> alive w \<and> cstate (con w) = DISCONNECTED \<and> fd (con w) = kInvalidFd \<and> \<not> inTable w \<and>
     \<not> isRegistered (con w) \<and> write_only w \<and> conTasks w = [] \<and> conTimers w = [retryInterval (con w)] \<and> made w = []"

definition over :: "'k con_world \<Rightarrow> bool" where
  "over w \<longleftrightarrow> idle w \<and> length (made w) \<le> 1 \<and> (made w \<noteq> [] \<longrightarrow> cstate (con w) = CONNECTED)"

definition phase :: "'k con_world \<Rightarrow> bool" where
  "phase w \<longleftrightarrow> waiting w \<or> backing_off w \<or> over w \<and> \<not> alive w"

definition mid :: "'k con_world \<Rightarrow> bool" where
  "mid w \<longleftrightarrow> waiting w \<or> backing_off w \<or> over w"

lemmas phase_defs = waiting_def backing_off_def over_def idle_def write_only_def

lemma con_ledger_cong:
  "fds (ckern w') = fds (ckern w) \<Longrightarrow> made w' = made w \<Longrightarrow> own w' = own w \<Longrightarrow> con_ledger fds L w' = con_ledger fds L w"
  by (simp add: con_ledger_def made_fds_def)

lemma con_ledger_pos: "con_ledger fds L w \<Longrightarrow> g \<in> fds (ckern w) \<Longrightarrow> 0 \<le> g"
  by (auto simp: con_ledger_def own_def split: if_splits)

lemma close_own:
  assumes "fds_spec (env_net E) (env_sys E) fds" and "con_ledger fds L w" and "alive w" and "cstate (con w) \<noteq> CONNECTED"
  shows "fds (closeFd (env_net E) (fd (con w)) (ckern w)) = L \<union> made_fds w"
  using closeFd_fds[OF assms(1) con_ledger_pos[OF assms(2)], where f = "fd (con w)"] assms(2-)
  by (auto simp: con_ledger_def own_def split: if_splits)

lemma release_ok:
  assumes "fds_spec (env_net E) (env_sys E) fds" and "con_ledger fds L w" and "mid w"
  shows "con_ledger fds L (release E w) \<and> phase (release E w)"
proof (cases "alive w \<and> over w")
  case True
  then have r: "release E w = con_destroy E w" by (auto simp: release_def over_def idle_def)
  have "con_ledger fds L (con_destroy E w)"
    using close_own[OF assms(1,2)] True assms(2)
    by (auto simp: con_ledger_def con_destroy_def own_def made_fds_def)
  moreover have "phase (con_destroy E w)" using True by (auto simp: phase_def phase_defs con_destroy_def)
  ultimately show ?thesis using r by simp
next
  case False
  then have "phase w" and "release E w = w"
    using assms(3) by (auto simp: mid_def phase_def release_def phase_defs)
  then show ?thesis using assms(2) by simp
qed

lemma reconnect_ok:
  assumes "fds_spec (env_net E) (env_sys E) fds" and "con_ledger fds L w"
    and "alive w" and "cstate (con w) \<noteq> CONNECTED" and "idle w" and "write_only w" and "made w = []"
  shows "con_ledger fds L (reconnect E w) \<and> backing_off (reconnect E w)"
  using close_own[OF assms(1-4)] assms(2-)
  by (auto simp: reconnect_def con_ledger_def own_def made_fds_def phase_defs kInvalidFd_def Let_def)

lemma con_registerTo_fresh:
  assumes "fds_spec (env_net E) (env_sys E) fds" and "con_registerTo E w = (ok, w')" and "\<not> isRegistered (con w)"
  obtains k where "fds k = fds (ckern w)"
    and "w' = w\<lparr>con := (if ok then setRegistered True (con w) else con w), ckern := k, inTable := ok \<or> inTable w\<rparr>"
  using assms(2,3) epollCtl_fds[OF assms(1), of EPOLL_CTL_ADD "con w" "ckern w"]
  by (auto simp: con_registerTo_def poller_registerChannel_def poller_add_def split: prod.splits if_splits)

lemma con_deregister_eq:
  assumes "fds_spec (env_net E) (env_sys E) fds"
  shows "\<exists>k. con_deregister E w = w\<lparr>con := setRegistered False (con w), ckern := k, inTable := False\<rparr> \<and>
    fds k = fds (ckern w)"
  using epollCtl_fds[OF assms, of EPOLL_CTL_DEL "setRegistered False (con w)" "ckern w"]
  by (auto simp: con_deregister_def poller_deregisterChannel_def Let_def split: prod.splits)

lemma cstate_ops [simp]:
  "cstate (setRegistered b c) = cstate c" "cstate (addEvent ev c) = cstate c"
  "retry (setRegistered b c) = retry c" "retry (addEvent ev c) = retry c"
  "cstate (setReadyEvents ev c) = cstate c" "cstate (addReadyEvent ev c) = cstate c"
  by (simp_all add: setRegistered_def addEvent_def setReadyEvents_def addReadyEvent_def)

lemma write_event_mask [simp]: "kNoneEvent OR kWriteEvent = kWriteEvent" "kWriteEvent OR kWriteEvent = kWriteEvent"
  by (simp_all add: kEvent_defs)

text \<open>After \<^verbatim>\<open>connect\<close> failed: the descriptor is there, nothing is registered.\<close>

definition attempted :: "'k con_world \<Rightarrow> bool" where
  "attempted w \<longleftrightarrow> alive w \<and> idle w \<and> cstate (con w) = DISCONNECTED \<and> 0 \<le> fd (con w) \<and> made w = [] \<and> write_only w"

lemma waitConnect_ok:
  assumes spec: "fds_spec (env_net E) (env_sys E) fds" and led: "con_ledger fds L w" and at: "attempted w"
  shows "con_ledger fds L (waitConnect E w) \<and> mid (waitConnect E w)"
proof -
  let ?w = "w\<lparr>con := addEvent kWriteEvent (con w)\<rparr>"
  obtain ok w1 where r: "con_registerTo E ?w = (ok, w1)" by force
  have nr: "\<not> isRegistered (con ?w)" using at by (simp add: attempted_def idle_def)
  obtain k where f: "fds k = fds (ckern w)"
    "w1 = ?w\<lparr>con := (if ok then setRegistered True (con ?w) else con ?w), ckern := k, inTable := ok \<or> inTable w\<rparr>"
    using con_registerTo_fresh[OF spec r nr] by auto
  have led1: "con_ledger fds L w1" by (rule iffD2[OF con_ledger_cong led]) (use f in \<open>auto simp: own_def\<close>)
  show ?thesis
  proof (cases ok)
    case True
    let ?v = "w1\<lparr>con := (con w1)\<lparr>cstate := CONNECTING\<rparr>\<rparr>"
    have "con_ledger fds L ?v"
      by (rule iffD2[OF con_ledger_cong led1]) (use f at True in \<open>auto simp: own_def attempted_def\<close>)
    moreover have "waiting ?v" using f at True by (auto simp: attempted_def phase_defs)
    ultimately show ?thesis using r True by (simp add: waitConnect_def mid_def)
  next
    case False
    have w1: "alive w1" "idle w1" "cstate (con w1) = DISCONNECTED" "made w1 = []" "write_only w1" "\<not> isRegistered (con w1)"
      using f at False by (auto simp: attempted_def phase_defs)
    then show ?thesis
      using reconnect_ok[OF spec led1] led1 r False by (auto simp: waitConnect_def mid_def over_def Let_def)
  qed
qed

lemma handleConnectError_ok:
  assumes "fds_spec (env_net E) (env_sys E) fds" and "con_ledger fds L w" and "attempted w"
  shows "con_ledger fds L (handleConnectError E e w) \<and> mid (handleConnectError E e w)"
  using waitConnect_ok[OF assms] reconnect_ok[OF assms(1,2)] assms(2,3)
  by (auto simp: handleConnectError_def attempted_def mid_def over_def)

lemma con_init_frame:
  assumes "fds_spec (env_net E) (env_sys E) fds" and "con_initSocketChannel E f w = (r, w')"
  shows "fds (ckern w') = fds (ckern w) \<and> fd (con w') = fd (con w) \<and> cstate (con w') = cstate (con w) \<and>
    isRegistered (con w') = isRegistered (con w) \<and> inTable w' = inTable w \<and> conTasks w' = conTasks w \<and>
    conTimers w' = conTimers w \<and> made w' = made w \<and> alive w' = alive w"
  using assms(2) apply_calls_fds[OF assms(1)]
  by (auto simp: con_initSocketChannel_def Let_def split: prod.splits sum.splits option.splits)

lemma newSocketChannel_ok:
  assumes spec: "fds_spec (env_net E) (env_sys E) fds" and app: "app_keeps fds (env_app E)"
    and led: "con_ledger fds L w" and at: "attempted w \<or> waiting w \<and> conTasks w = []"
    and n: "newSocketChannel E w = (Inr (), w')"
  shows "con_ledger fds L w' \<and> mid w'"
proof -
  let ?f = "fd (con w)"
  have w: "alive w" "cstate (con w) \<noteq> CONNECTED" "0 \<le> ?f" "made w = []" "conTasks w = []" "conTimers w = []"
    using at by (auto simp: attempted_def phase_defs)
  have k0: "fds (ckern w) = insert ?f L" "?f \<notin> L" "\<And>g. g \<in> L \<Longrightarrow> 0 \<le> g"
    using led w by (auto simp: con_ledger_def own_def made_fds_def)
  obtain la k1 where g: "getLocalAddress (env_net E) ?f (localAddress (con w)) (ckern w) = (la, k1)" by force
  let ?w1 = "w\<lparr>con := (con w)\<lparr>localAddress := la\<rparr>, ckern := k1\<rparr>"
  obtain q w2 where ini: "con_initSocketChannel E ?f ?w1 = (q, w2)" by force
  note fr = con_init_frame[OF spec ini] getLocalAddress_fds[OF spec g]
  obtain hp where q: "q = Inr hp" using n g ini by (cases q) (auto simp: newSocketChannel_def)
  define w3 where "w3 = (if cstate (con w2) = CONNECTING then con_deregister E (w2\<lparr>con := (con w2)\<lparr>cstate := CONNECTED\<rparr>\<rparr>)
                         else w2\<lparr>con := (con w2)\<lparr>cstate := CONNECTED\<rparr>\<rparr>)"
  obtain k2 where "con_deregister E (w2\<lparr>con := (con w2)\<lparr>cstate := CONNECTED\<rparr>\<rparr>) =
      w2\<lparr>con := setRegistered False ((con w2)\<lparr>cstate := CONNECTED\<rparr>), ckern := k2, inTable := False\<rparr>" "fds k2 = fds (ckern w2)"
    using con_deregister_eq[OF spec, of "w2\<lparr>con := (con w2)\<lparr>cstate := CONNECTED\<rparr>\<rparr>"] by auto
  then have w3: "fds (ckern w3) = insert ?f L" "cstate (con w3) = CONNECTED" "idle w3" "made w3 = []"
    using at fr k0 w by (auto simp: w3_def attempted_def phase_defs)
  obtain k' cs where act: "activate_new E ?f la (peerAddress (con w3)) hp 0 (ckern w3) = (k', cs)" by force
  have w': "w' = w3\<lparr>ckern := k', made := made w3 @ cs\<rparr>"
    using n g ini q act unfolding newSocketChannel_def w3_def by (simp add: Let_def)
  have "(cs = [] \<and> fds k' = L) \<or> (\<exists>c. cs = [c] \<and> fd (conn_chan c) = ?f \<and> fds k' = insert ?f L)"
    by (rule activate_new_fds[OF spec app w3(1) w(3) k0(2) k0(3) act])
  then show ?thesis using w3 k0 w(3) unfolding w'
    by (auto simp: con_ledger_def own_def made_fds_def mid_def over_def idle_def)
qed

lemma con_connect_ok:
  assumes spec: "fds_spec (env_net E) (env_sys E) fds"
    and app: "app_keeps fds (env_app E)" and led: "con_ledger fds L w" and st: "starting w"
    and c: "con_connect E a w = (Inr (), w')"
  shows "con_ledger fds L w' \<and> mid w'"
proof -
  obtain q k1 where s: "createTcpSocket (env_net E) (ipFamily a) (ckern w) = (q, k1)" by force
  obtain f where q: "q = Inr f" using c s by (cases q) (auto simp: con_connect_def)
  have op: "opens fds f (ckern w) k1" using createTcpSocket_cases[OF spec s] q by simp
  obtain r k2 where r: "sock_connect (env_net E) f a (setSockNonBlock (env_net E) f k1) = (r, k2)" by force
  have k2: "fds k2 = fds k1"
    using keeps_fds(4)[OF spec r[unfolded sock_connect_def]] setSockNonBlock_fds[OF spec] by simp
  let ?w = "w\<lparr>con := (con w)\<lparr>fd := f, peerAddress := a\<rparr>, ckern := k2\<rparr>"
  have led': "con_ledger fds L ?w"
    using led op k2 st by (auto simp: con_ledger_def own_def made_fds_def opens_def starting_def kInvalidFd_def)
  have at: "attempted ?w" using st op by (auto simp: starting_def attempted_def phase_defs opens_def)
  show ?thesis
  proof (cases r)
    case None
    then have "newSocketChannel E ?w = (Inr (), w')" using c s q r by (simp add: con_connect_def)
    from newSocketChannel_ok[OF spec app led' _ this] at show ?thesis by blast
  next
    case (Some e)
    then have "w' = handleConnectError E e ?w" using c s q r by (simp add: con_connect_def)
    then show ?thesis using handleConnectError_ok[OF spec led' at] by simp
  qed
qed

lemma phase_mid: "phase w \<Longrightarrow> mid w"
  by (auto simp: phase_def mid_def)

lemma con_timer_ok:
  assumes "fds_spec (env_net E) (env_sys E) fds" and "app_keeps fds (env_app E)"
    and led: "con_ledger fds L w" and ph: "phase w" and t: "con_timer E w = (Inr (), w')"
  shows "con_ledger fds L w' \<and> mid w'"
proof (cases "conTimers w")
  case Nil
  then show ?thesis using t led phase_mid[OF ph] by (simp add: con_timer_def)
next
  case (Cons i ts)
  let ?w = "w\<lparr>conTimers := ts\<rparr>"
  have "starting ?w" using ph Cons by (auto simp: phase_def starting_def phase_defs)
  moreover have "con_ledger fds L ?w" by (rule iffD2[OF con_ledger_cong led]) (simp_all add: own_def)
  moreover have "con_connect E (peerAddress (con w)) ?w = (Inr (), w')" using t Cons by (simp add: con_timer_def)
  ultimately show ?thesis using con_connect_ok[OF assms(1,2)] by blast
qed

text \<open>The invariant between the operations of the loop, with what it rests on.\<close>

definition con_accounted :: "'k srv_env \<Rightarrow> ('k \<Rightarrow> FdType set) \<Rightarrow> FdType set \<Rightarrow> 'k con_world \<Rightarrow> bool" where
  "con_accounted E fds L w \<longleftrightarrow> fds_spec (env_net E) (env_sys E) fds \<and>
     app_keeps fds (env_app E) \<and> con_ledger fds L w \<and> phase w"

interpretation timers: invariant_actions "\<lambda>u :: unit. released E (con_timer E)" "con_accounted E fds L" "\<lambda>u. True"
    "\<lambda>r. r = Inr ()"
  for E :: "'k srv_env" and fds :: "'k \<Rightarrow> FdType set" and L :: "FdType set"
proof unfold_locales
  fix w w' :: "'k con_world" and i :: unit and r
  assume inv: "con_accounted E fds L w" and s: "released E (con_timer E) w = (r, w')" "r = Inr ()"
  obtain q v where t: "con_timer E w = (q, v)" by force
  have "q = Inr ()" "w' = release E v" using s t by (auto simp: released_def)
  then show "con_accounted E fds L w'" using inv con_timer_ok[of E fds L w v] release_ok[of E fds L v] t
    by (simp add: con_accounted_def)
qed simp

lemma con_timers_ok:
  "con_accounted E fds L w \<Longrightarrow> con_timers E due w = (Inr (), w') \<Longrightarrow> con_accounted E fds L w'"
  using timers.run_keeps[of E fds L w "replicate due ()"] by (simp add: con_timers_def list_all_iff)

lemma con_runTasks_ok:
  assumes spec: "fds_spec (env_net E) (env_sys E) fds" and led: "con_ledger fds L w" and ph: "phase w"
  shows "con_ledger fds L (con_runTasks E w) \<and> mid (con_runTasks E w) \<and> conTasks (con_runTasks E w) = []"
proof (cases "conTasks w")
  case Nil
  then have "con_runTasks E w = w" by (simp add: con_runTasks_def)
  then show ?thesis using led phase_mid[OF ph] Nil by simp
next
  case (Cons t ts)
  then have wt: "waiting w" and ts: "ts = []" using ph by (auto simp: phase_def phase_defs)
  let ?w = "w\<lparr>conTasks := []\<rparr>"
  obtain k where d: "con_deregister E ?w = ?w\<lparr>con := setRegistered False (con w), ckern := k, inTable := False\<rparr>"
    and k: "fds k = fds (ckern w)" using con_deregister_eq[OF spec, of ?w] by auto
  define v where "v = con_deregister E ?w"
  have led': "con_ledger fds L v"
    by (rule iffD2[OF con_ledger_cong led]) (simp_all add: v_def d k own_def)
  have v: "alive v" "cstate (con v) \<noteq> CONNECTED" "idle v" "write_only v" "made v = []"
    using wt by (auto simp: v_def d phase_defs)
  have "con_runTasks E w = (case t of DeregisterReconnect \<Rightarrow> reconnect E v | DeregisterOnly \<Rightarrow> v)"
    using Cons ts by (cases t) (simp_all add: con_runTasks_def con_runTask_def v_def)
  then show ?thesis using reconnect_ok[OF spec led' v] led' v
    by (cases t) (auto simp: mid_def over_def backing_off_def idle_def)
qed

text \<open>
  With \<^verbatim>\<open>EPOLLOUT\<close> as the only interest, epoll reports that and the error flags, none of the flags for
  reading.
\<close>

definition write_report :: "32 word option \<Rightarrow> bool" where
  "write_report reported \<longleftrightarrow> (case reported of None \<Rightarrow> True
     | Some revents \<Rightarrow> revents AND (EPOLLIN OR EPOLLPRI OR EPOLLRDHUP) = 0)"

lemma write_report_bits:
  "write_report (Some revents) \<Longrightarrow> \<not> bit revents 0 \<and> \<not> bit revents 1 \<and> \<not> bit revents 13"
  using and_or_nonzero[of revents EPOLLIN "EPOLLPRI OR EPOLLRDHUP"] and_or_nonzero[of revents EPOLLPRI EPOLLRDHUP]
  by (auto simp: write_report_def)

lemma prepareReady_frame [simp]:
  "fd (prepareReady r c) = fd c" "events (prepareReady r c) = events c" "isRegistered (prepareReady r c) = isRegistered c"
  "cstate (prepareReady r c) = cstate c" "retry (prepareReady r c) = retry c"
  by (simp_all add: prepareReady_def setReadyEvents_def addReadyEvent_def Let_def)

lemma prepareReady_no_error:
  "\<not> bit revents 0 \<Longrightarrow> \<not> bit (readyEvents (prepareReady revents c)) 2"
  by (auto simp: prepareReady_def setReadyEvents_def addReadyEvent_def Let_def bit_or_iff)

lemma con_handleWriteEvent_ok:
  assumes spec: "fds_spec (env_net E) (env_sys E) fds" and app: "app_keeps fds (env_app E)"
    and led: "con_ledger fds L w" and wt: "waiting w" "conTasks w = []" and h: "con_handleWriteEvent E w = (Inr (), w')"
  shows "con_ledger fds L w' \<and> mid w'"
proof -
  obtain e k where g: "getSockError (env_net E) (fd (con w)) (ckern w) = (e, k)" by force
  have led': "con_ledger fds L (w\<lparr>ckern := k\<rparr>)"
    by (rule iffD2[OF con_ledger_cong led]) (simp_all add: getSockError_fds[OF spec g] own_def)
  have wt': "waiting (w\<lparr>ckern := k\<rparr>)" "conTasks (w\<lparr>ckern := k\<rparr>) = []" using wt by (auto simp: phase_defs)
  show ?thesis
  proof (cases "e = 0")
    case True
    then have "newSocketChannel E (w\<lparr>ckern := k\<rparr>) = (Inr (), w')"
      using h g wt by (simp add: con_handleWriteEvent_def waiting_def)
    then show ?thesis using newSocketChannel_ok[OF spec app led'] wt' by blast
  next
    case False
    then have w': "w' = con_handleErrorEvent (w\<lparr>ckern := k\<rparr>)"
      using h g wt by (simp add: con_handleWriteEvent_def waiting_def)
    have "con_ledger fds L w'"
      unfolding w' by (rule iffD2[OF con_ledger_cong led']) (simp_all add: con_handleErrorEvent_def own_def)
    moreover have "waiting w'" using wt unfolding w' by (auto simp: con_handleErrorEvent_def phase_defs)
    ultimately show ?thesis by (simp add: mid_def)
  qed
qed

lemma con_dispatch_ok:
  assumes spec: "fds_spec (env_net E) (env_sys E) fds" and app: "app_keeps fds (env_app E)"
    and led: "con_ledger fds L w" and ph: "phase w" "conTasks w = []" and rep: "write_report reported"
    and d: "con_dispatch E reported w = (Inr (), w')"
  shows "con_ledger fds L w' \<and> mid w'"
proof (cases "reported = None \<or> \<not> inTable w")
  case True
  then show ?thesis using d led phase_mid[OF ph(1)] by (auto simp: con_dispatch_def split: option.splits)
next
  case False
  then obtain revents where r: "reported = Some revents" and t: "inTable w" by auto
  let ?w = "w\<lparr>con := prepareReady revents (con w)\<rparr>"
  have wt: "waiting ?w" "conTasks ?w = []" using ph t by (auto simp: phase_def phase_defs)
  have led': "con_ledger fds L ?w" by (rule iffD2[OF con_ledger_cong led]) (simp_all add: own_def)
  have "con_handleEvent E ?w = (Inr (), w')" using d r t by (simp add: con_dispatch_def)
  then have "w' = ?w \<or> con_handleWriteEvent E ?w = (Inr (), w')"
    using prepareReady_no_error[of revents "con w"] write_report_bits[of revents] rep r
    by (auto simp: con_handleEvent_def Let_def split: if_splits)
  then show ?thesis using con_handleWriteEvent_ok[OF spec app led' wt] led' wt(1) by (auto simp: mid_def)
qed

lemma con_turn_ok:
  assumes inv: "con_accounted E fds L w" and rep: "write_report reported" and t: "con_turn E (due, reported) w = (Inr (), w')"
  shows "con_accounted E fds L w'"
proof -
  have spec: "fds_spec (env_net E) (env_sys E) fds" "app_keeps fds (env_app E)" using inv by (simp_all add: con_accounted_def)
  obtain r v where tm: "con_timers E due w = (r, v)" by force
  have r: "r = Inr ()" using t tm by (cases r) (auto simp: con_turn_def)
  have v: "con_accounted E fds L v" by (rule con_timers_ok[OF inv tm[unfolded r]])
  let ?u = "release E (con_runTasks E v)"
  have run: "con_ledger fds L (con_runTasks E v)" "mid (con_runTasks E v)" "conTasks (con_runTasks E v) = []"
    using con_runTasks_ok[OF spec(1)] v unfolding con_accounted_def by blast+
  have u: "con_ledger fds L ?u" "phase ?u" "conTasks ?u = []"
    using release_ok[OF spec(1) run(1,2)] run(3) by (auto simp: release_def con_destroy_def)
  obtain q x where d: "con_dispatch E reported ?u = (q, x)" by force
  have "q = Inr ()" "w' = release E x" using t tm r d by (auto simp: con_turn_def released_def)
  then show ?thesis using con_dispatch_ok[OF spec u rep] release_ok[OF spec(1)] d inv unfolding con_accounted_def by blast
qed

interpretation turns: invariant_actions "con_turn E" "con_accounted E fds L" "\<lambda>t. write_report (snd t)" "\<lambda>r. r = Inr ()"
  for E :: "'k srv_env" and fds :: "'k \<Rightarrow> FdType set" and L :: "FdType set"
  by unfold_locales (auto intro: con_turn_ok)

lemma con_run_ok:
  assumes spec: "fds_spec (env_net E) (env_sys E) fds" "app_keeps fds (env_app E)"
    and w: "con_ledger fds L w" "starting w" and ts: "list_all (\<lambda>t. write_report (snd t)) ts"
    and run: "con_run E a ts w = (Inr (), w')"
  shows "con_ledger fds L w' \<and> phase w'"
proof -
  obtain r v where c: "con_connect E a w = (r, v)" by force
  have r: "r = Inr ()" using run c by (cases r) (auto simp: con_run_def released_def)
  have "con_ledger fds L v \<and> mid v" by (rule con_connect_ok[OF spec w c[unfolded r]])
  then have "con_accounted E fds L (release E v)" using spec release_ok[OF spec(1)] unfolding con_accounted_def by blast
  moreover have "run_actions (con_turn E) ts (release E v) = (Inr (), w')"
    using run c r by (simp add: con_run_def con_turns_def released_def)
  ultimately have "con_accounted E fds L w'" using turns.run_keeps ts by blast
  then show ?thesis by (simp add: con_accounted_def)
qed

definition demo_con :: "demo_kernel con_world" where
  "demo_con = \<lparr>con = setRetry True (setRetryInterval 2000 connector_new),
     ckern = \<lparr>openFds = [3], nextFd = 4, accepts = [], connects = [Some ECONNREFUSED, Some EINPROGRESS, Some EINPROGRESS],
       sockErrors = [ECONNREFUSED, 0], demoEpoll = (\<lambda>f. None)\<rparr>,
     cstore = (\<lambda>h. \<lparr>name = [], kind = SocketHandler, next = None\<rparr>),
     inTable = False, conTasks = [], conTimers = [], made = [], alive = True\<rparr>"

text \<open>
  Refused at once; a timer later refused while waiting; the task of that; a timer later connected.
\<close>

definition demo_turns :: "(nat \<times> 32 word option) list" where
  "demo_turns = [(1, Some (EPOLLOUT OR EPOLLERR)), (0, None), (1, Some EPOLLOUT)]"

lemma demo_con_starts: "con_ledger (\<lambda>k. set (openFds k)) {3} demo_con" "starting demo_con"
  by (auto simp: con_ledger_def own_def made_fds_def demo_con_def setRetry_def setRetryInterval_def connector_new_def
      kInvalidFd_def starting_def idle_def write_only_def)

lemma demo_con_run:
  "fst (con_run demo_env isa_default demo_turns demo_con) = Inr ()"
  "map (\<lambda>c. fd (conn_chan c)) (made (snd (con_run demo_env isa_default demo_turns demo_con))) = [6]"
  by code_simp+

lemma demo_con_gone: "\<not> alive (snd (con_run demo_env isa_default demo_turns demo_con))"
  by code_simp

text \<open>
  C6. A connector has at most one attempt in progress and makes at most one connection, over any
  number of refusals, failed registrations, retries and turns of the loop that end without an exception: while it is alive it
  either waits in epoll for the socket to become writable (with at most one task queued), or has
  closed its socket and waits for exactly one timer; otherwise it has been destroyed and nothing
  refers to it any more, and a connection was made only if it is in state CONNECTED.
\<close>

theorem connector_one_attempt:
  assumes "fds_spec (env_net E) (env_sys E) fds" and "app_keeps fds (env_app E)"
    and "con_ledger fds L w" and "starting w" and "list_all (\<lambda>t. write_report (snd t)) ts"
    and "con_run E a ts w = (Inr (), w')"
  shows "length (made w') \<le> 1 \<and> (made w' \<noteq> [] \<longrightarrow> cstate (con w') = CONNECTED) \<and>
    (if alive w'
     then cstate (con w') = CONNECTING \<and> inTable w' \<and> 0 \<le> fd (con w') \<and> events (con w') = kWriteEvent \<and>
            length (conTasks w') \<le> 1 \<and> conTimers w' = [] \<or>
          cstate (con w') = DISCONNECTED \<and> \<not> inTable w' \<and> fd (con w') = kInvalidFd \<and>
            conTasks w' = [] \<and> conTimers w' = [retryInterval (con w')]
     else \<not> inTable w' \<and> conTasks w' = [] \<and> conTimers w' = [])"
proof -
  have "phase w'" using con_run_ok[OF assms] by simp
  then show ?thesis by (auto simp: phase_def waiting_def backing_off_def over_def idle_def)
qed

theorem connector_one_attempt_witness:
  "let (r, w') = con_run demo_env isa_default demo_turns demo_con
   in r = Inr () \<and> map (\<lambda>c. fd (conn_chan c)) (made w') = [6] \<and> length (made w') \<le> 1 \<and> cstate (con w') = CONNECTED"
proof -
  obtain r w' where run: "con_run demo_env isa_default demo_turns demo_con = (r, w')" by force
  have r: "r = Inr ()" "map (\<lambda>c. fd (conn_chan c)) (made w') = [6]" using demo_con_run run by simp_all
  have ok: "list_all (\<lambda>t. write_report (snd t)) demo_turns"
    by (simp add: demo_turns_def write_report_def EPOLL_defs)
  have "length (made w') \<le> 1 \<and> (made w' \<noteq> [] \<longrightarrow> cstate (con w') = CONNECTED)"
    using connector_one_attempt[of demo_env, OF _ _ demo_con_starts ok run[unfolded r]] demo_fds_spec
    by (auto simp: demo_env_def app_keeps_def)
  then show ?thesis using run r by auto
qed

text \<open>
  C12. Nor does a connector leak a descriptor: after any run that ends without an exception, with
  handlers that open and close none, the descriptors open are those of the rest of the process, that of
  the connection if one was made, and that of the attempt in progress if there is one. Sockets
  of failed attempts have been closed. (What a throwing set-up leaves is the lemma after this one.)
\<close>

theorem connector_no_descriptor_leak:
  assumes "fds_spec (env_net E) (env_sys E) fds" and "app_keeps fds (env_app E)"
    and "con_ledger fds L w" and "starting w" and "list_all (\<lambda>t. write_report (snd t)) ts"
    and "con_run E a ts w = (Inr (), w')"
  shows "fds (ckern w') = L \<union> (\<lambda>c. fd (conn_chan c)) ` set (made w') \<union>
           (if alive w' \<and> cstate (con w') = CONNECTING then {fd (con w')} else {})"
proof -
  have "con_ledger fds L w'" "phase w'" using con_run_ok[OF assms] by simp_all
  then show ?thesis by (auto simp: con_ledger_def own_def made_fds_def phase_def phase_defs kInvalidFd_def)
qed

theorem connector_no_descriptor_leak_witness:
  "set (openFds (ckern (snd (con_run demo_env isa_default demo_turns demo_con)))) = {3, 6}"
proof -
  obtain r w' where run: "con_run demo_env isa_default demo_turns demo_con = (r, w')" by force
  have r: "r = Inr ()" "map (\<lambda>c. fd (conn_chan c)) (made w') = [6]" using demo_con_run run by simp_all
  have ok: "list_all (\<lambda>t. write_report (snd t)) demo_turns"
    by (simp add: demo_turns_def write_report_def EPOLL_defs)
  have a: "\<not> alive w'" using demo_con_gone run by simp
  have "set (openFds (ckern w')) = {3} \<union> set (map (\<lambda>c. fd (conn_chan c)) (made w'))"
    using connector_no_descriptor_leak[of demo_env, OF _ _ demo_con_starts ok run[unfolded r]] demo_fds_spec a
    by (simp add: demo_env_def app_keeps_def)
  then show ?thesis using run r(2) by auto
qed

text \<open>
  If the set-up of the new channel throws, the descriptor is closed by the \<^verbatim>\<open>SocketChannel\<close> and the
  connector, not yet CONNECTED, still holds its number: its destructor closes it a second time.
\<close>

lemma failed_setup_closes_twice:
  assumes "fds_spec (env_net E) (env_sys E) fds" and "con_ledger fds L w" and "attempted w"
    and "newSocketChannel E w = (Inl e, w')"
  shows "fd (con w') = fd (con w) \<and> cstate (con w') \<noteq> CONNECTED \<and> fd (con w') \<notin> fds (ckern w') \<and>
    ckern (con_destroy E w') = net_close (env_net E) (fd (con w)) (ckern w')"
proof -
  obtain la k where g: "getLocalAddress (env_net E) (fd (con w)) (localAddress (con w)) (ckern w) = (la, k)" by force
  let ?w = "w\<lparr>con := (con w)\<lparr>localAddress := la\<rparr>, ckern := k\<rparr>"
  obtain q v where i: "con_initSocketChannel E (fd (con w)) ?w = (q, v)" by force
  have w': "w' = v\<lparr>ckern := closeFd (env_net E) (fd (con w)) (ckern v)\<rparr>"
    using assms(4) g i by (cases q) (auto simp: newSocketChannel_def Let_def split: prod.splits)
  note fr = con_init_frame[OF assms(1) i] getLocalAddress_fds[OF assms(1) g]
  have "\<And>g. g \<in> fds (ckern v) \<Longrightarrow> 0 \<le> g" using fr con_ledger_pos[OF assms(2)] by auto
  then have "fds (ckern w') = fds (ckern v) - {fd (con w)}" using closeFd_fds[OF assms(1)] by (auto simp: w')
  then show ?thesis using fr assms(3) by (auto simp: w' con_destroy_def attempted_def closeFd_def)
qed

end
