(* ===== verification/Datagram_Channel.thy ===== *)
theory Datagram_Channel
  imports Server_Channel
begin

text \<open>
  \<^verbatim>\<open>nets/net/channel/DatagramChannel\<close> and \<^verbatim>\<open>nets/net/core/DatagramPacket\<close>: a UDP socket that is
  bound (or left unbound), receives one datagram per read event into a fresh buffer, and sends
  datagrams. \<open>dg_app\<close> stands for the handlers of the pipeline.
\<close>

section \<open>Packets\<close>

record datagram_packet =
  pkt_data :: byte_buffer
  pkt_recipient :: inet_sock_address

definition packet_copy :: "byte_buffer \<Rightarrow> inet_sock_address \<Rightarrow> datagram_packet res" where
  "packet_copy data recipient =
     ebind (bb_copy data) (\<lambda>b. Inr \<lparr>pkt_data = b, pkt_recipient = isa_copy recipient\<rparr>)"

definition packet_move :: "byte_buffer \<Rightarrow> inet_sock_address \<Rightarrow> datagram_packet" where
  "packet_move data recipient = \<lparr>pkt_data = fst (bb_move data), pkt_recipient = fst (isa_move recipient)\<rparr>"

definition packet_length :: "datagram_packet \<Rightarrow> nat" where
  "packet_length p = readableBytes (pkt_data p)"

section \<open>The channel\<close>

definition kRecvPacketSize :: nat where "kRecvPacketSize = 16384"

record dgram = channel +
  dgOptions :: option_map

datatype dg_event = DgActive | DgRead datagram_packet

record 'k dg_world =
  dg :: dgram
  dkern :: 'k
  dgInTable :: bool

record 'k dg_env =
  dg_sys :: "'k sys"
  dg_net :: "'k net"
  dg_names :: names
  dg_app :: "dg_event \<Rightarrow> 'k dg_world \<Rightarrow> 'k dg_world"

definition dg_new :: dgram where
  "dg_new = \<lparr>fd = kInvalidFd, events = kNoneEvent, readyEvents = kNoneEvent, isRegistered = False,
     dgOptions = [(REUSE_ADDR, VBool True), (REUSE_PORT, VBool True)]\<rparr>"

definition dg_setChannelOptions :: "option_map \<Rightarrow> dgram \<Rightarrow> dgram" where
  "dg_setChannelOptions opts d = d\<lparr>dgOptions := fold (\<lambda>(k, v). insert_or_assign k v) opts (dgOptions d)\<rparr>"

definition dg_on_kern :: "('k, 'a) action \<Rightarrow> ('k dg_world, 'a) action" where
  "dg_on_kern m w = (case m (dkern w) of (r, k) \<Rightarrow> (r, w\<lparr>dkern := k\<rparr>))"

definition dg_registerTo :: "'k dg_env \<Rightarrow> 'k dg_world \<Rightarrow> bool \<times> 'k dg_world" where
  "dg_registerTo E w =
     (case poller_registerChannel (dg_sys E) (dg w) (dkern w) of
        (ok, d, k) \<Rightarrow> (ok, w\<lparr>dg := d, dkern := k, dgInTable := ok \<or> dgInTable w\<rparr>))"

text \<open>The part of \<^verbatim>\<open>bind\<close> after the options are set.\<close>

definition dg_activate :: "'k dg_env \<Rightarrow> bool \<Rightarrow> inet_sock_address \<Rightarrow> ('k dg_world, unit) action" where
  "dg_activate E needBind localAddress =
     bind (\<lambda>w. if needBind then dg_on_kern (sock_bind (dg_net E) (fd (dg w)) localAddress) w else return () w) (\<lambda>_ w.
       case dg_registerTo E (w\<lparr>dg := addEvent kReadEvent (dg w)\<rparr>) of
         (True, w) \<Rightarrow> return () (dg_app E DgActive w)
       | (False, w) \<Rightarrow> throw (ChannelRegisterException ''DatagramChannel register failed'') w)"

definition dg_bind :: "'k dg_env \<Rightarrow> inet_sock_address \<Rightarrow> ('k dg_world, unit) action" where
  "dg_bind E localAddress =
     bind (dg_on_kern (createUdpSocket (dg_net E)
             (if isInValid localAddress then AF_INET else ipFamily localAddress))) (\<lambda>f w.
       let w = w\<lparr>dg := (dg w)\<lparr>fd := f\<rparr>, dkern := setSockNonBlock (dg_net E) f (dkern w)\<rparr>;
           (cs, r) = setChannelOptions (dg_names E) False (dgOptions (dg w));
           w = w\<lparr>dkern := apply_calls (dg_net E) f cs (dkern w)\<rparr>
       in case r of
            Inl e \<Rightarrow> (Inl e, w)
          | Inr _ \<Rightarrow> dg_activate E (\<not> isInValid localAddress) localAddress (w\<lparr>dg := (dg w)\<lparr>dgOptions := []\<rparr>\<rparr>))"

definition dg_destroy :: "'k dg_env \<Rightarrow> 'k dg_world \<Rightarrow> 'k" where
  "dg_destroy E w = closeFd (dg_net E) (fd (dg w)) (dkern w)"

text \<open>The result is that of \<^verbatim>\<open>sendto\<close>, or 0 without a call.\<close>

definition dg_doWrite :: "'k dg_env \<Rightarrow> byte list \<Rightarrow> inet_sock_address \<Rightarrow> 'k dg_world \<Rightarrow> int \<times> 'k dg_world" where
  "dg_doWrite E data recipient w =
     (if length data = 0 \<or> isInValid recipient then (0, w)
      else case sendTo (dg_net E) (fd (dg w)) data recipient (dkern w) of
             (r, k) \<Rightarrow> (case r of Inl e \<Rightarrow> -1 | Inr n \<Rightarrow> int n, w\<lparr>dkern := k\<rparr>))"

definition dg_write_raw ::
    "'k dg_env \<Rightarrow> byte list \<Rightarrow> nat \<Rightarrow> inet_sock_address \<Rightarrow> 'k dg_world \<Rightarrow> (int \<times> 'k dg_world) res" where
  "dg_write_raw E message len recipient w =
     ebind (mem_read message 0 len) (\<lambda>bs. Inr (dg_doWrite E bs recipient w))"

definition dg_write_string :: "'k dg_env \<Rightarrow> byte list \<Rightarrow> inet_sock_address \<Rightarrow> 'k dg_world \<Rightarrow> int \<times> 'k dg_world" where
  "dg_write_string E message recipient w = dg_doWrite E message recipient w"

definition dg_write_buffer ::
    "'k dg_env \<Rightarrow> byte_buffer \<Rightarrow> inet_sock_address \<Rightarrow> 'k dg_world \<Rightarrow> (int \<times> 'k dg_world) res" where
  "dg_write_buffer E message recipient w =
     ebind (mem_read (buffer message) (readerIndex message) (readableBytes message))
       (\<lambda>bs. Inr (dg_doWrite E bs recipient w))"

definition dg_write_packet :: "'k dg_env \<Rightarrow> datagram_packet \<Rightarrow> 'k dg_world \<Rightarrow> (int \<times> 'k dg_world) res" where
  "dg_write_packet E message w =
     ebind (mem_read (buffer (pkt_data message)) (readerIndex (pkt_data message)) (packet_length message))
       (\<lambda>bs. Inr (dg_doWrite E bs (pkt_recipient message) w))"

text \<open>
  \<^verbatim>\<open>ByteBuffer::writeBytes\<close> for a datagram channel: as for a stream, with one \<^verbatim>\<open>recvfrom\<close>, which also
  stores the source address.
\<close>

definition writeBytesFromDatagram ::
    "nat \<Rightarrow> nat + byte list \<times> inet_sock_address \<Rightarrow> inet_sock_address \<Rightarrow> byte_buffer \<Rightarrow> (int \<times> byte_buffer \<times> inet_sock_address) res" where
  "writeBytesFromDatagram len reply srcAddr b =
     ebind (writeBytesFrom len (map_sum id fst reply) b) (\<lambda>(bytes, b).
       Inr (bytes, b, case reply of Inl e \<Rightarrow> srcAddr | Inr (bs, a) \<Rightarrow> a))"

text \<open>Every branch of the switch over the error number at most logs.\<close>

definition dg_handleReadError :: "nat \<Rightarrow> 'k dg_world \<Rightarrow> 'k dg_world" where
  "dg_handleReadError errNum w = w"

definition dg_handleReadEvent :: "'k dg_env \<Rightarrow> 'k dg_world \<Rightarrow> 'k dg_world res" where
  "dg_handleReadEvent E w =
     ebind (bb_new kRecvPacketSize) (\<lambda>byteBuffer.
       case recvFrom (dg_net E) (fd (dg w)) (writableBytes byteBuffer) isa_default (dkern w) of
         (r, k) \<Rightarrow>
           (let w = w\<lparr>dkern := k\<rparr>
            in ebind (writeBytesFromDatagram (writableBytes byteBuffer) r isa_default byteBuffer) (\<lambda>(bytes, byteBuffer, srcAddr).
                 if bytes > 0 then Inr (dg_app E (DgRead (packet_move byteBuffer srcAddr)) w)
                 else if bytes < 0 then Inr (dg_handleReadError (case r of Inl e \<Rightarrow> e | Inr _ \<Rightarrow> 0) w)
                 else Inr w)))"

definition dg_handleErrorEvent :: "'k dg_env \<Rightarrow> 'k dg_world \<Rightarrow> 'k dg_world" where
  "dg_handleErrorEvent E w =
     (case getSockError (dg_net E) (fd (dg w)) (dkern w) of (e, k) \<Rightarrow> w\<lparr>dkern := k\<rparr>)"

text \<open>Multicast groups; \<open>answer\<close> tells whether \<^verbatim>\<open>setsockopt\<close> succeeds.\<close>

definition joinIpv4MulticastGroupByIfAddr ::
    "'k dg_env \<Rightarrow> (FdType \<Rightarrow> sockopt \<Rightarrow> bool) \<Rightarrow> string \<Rightarrow> string \<Rightarrow> 'k dg_world \<Rightarrow> bool" where
  "joinIpv4MulticastGroupByIfAddr E answer multicastAddr ifAddr w =
     addIpMemberShipByIfAddr (dg_names E) (answer (fd (dg w))) multicastAddr ifAddr"

definition joinIpv4MulticastGroupByIfIndex ::
    "'k dg_env \<Rightarrow> (FdType \<Rightarrow> sockopt \<Rightarrow> bool) \<Rightarrow> string \<Rightarrow> string \<Rightarrow> 'k dg_world \<Rightarrow> bool" where
  "joinIpv4MulticastGroupByIfIndex E answer multicastAddr ifName w =
     addIpMemberShipByIfIndex (dg_names E) (answer (fd (dg w))) multicastAddr ifName"

definition joinIpv6MulticastGroup ::
    "'k dg_env \<Rightarrow> (FdType \<Rightarrow> sockopt \<Rightarrow> bool) \<Rightarrow> string \<Rightarrow> string \<Rightarrow> 'k dg_world \<Rightarrow> bool" where
  "joinIpv6MulticastGroup E answer multicastAddr ifName w =
     addIpv6MemberShip (dg_names E) (answer (fd (dg w))) multicastAddr ifName"

definition leaveIpv4MulticastGroupByIfAddr ::
    "'k dg_env \<Rightarrow> (FdType \<Rightarrow> sockopt \<Rightarrow> bool) \<Rightarrow> string \<Rightarrow> string \<Rightarrow> 'k dg_world \<Rightarrow> bool" where
  "leaveIpv4MulticastGroupByIfAddr E answer multicastAddr ifAddr w =
     dropIpMemberShipByIfAddr (dg_names E) (answer (fd (dg w))) multicastAddr ifAddr"

definition leaveIpv4MulticastGroupByIfIndex ::
    "'k dg_env \<Rightarrow> (FdType \<Rightarrow> sockopt \<Rightarrow> bool) \<Rightarrow> string \<Rightarrow> string \<Rightarrow> 'k dg_world \<Rightarrow> bool" where
  "leaveIpv4MulticastGroupByIfIndex E answer multicastAddr ifName w =
     dropIpMemberShipByIfIndex (dg_names E) (answer (fd (dg w))) multicastAddr ifName"

definition leaveIpv6MulticastGroup ::
    "'k dg_env \<Rightarrow> (FdType \<Rightarrow> sockopt \<Rightarrow> bool) \<Rightarrow> string \<Rightarrow> string \<Rightarrow> 'k dg_world \<Rightarrow> bool" where
  "leaveIpv6MulticastGroup E answer multicastAddr ifName w =
     dropIpv6MemberShip (dg_names E) (answer (fd (dg w))) multicastAddr ifName"

section \<open>DatagramChannelContext\<close>

text \<open>The face of a datagram channel towards the handlers; every function forwards.\<close>

definition dctx_write_raw ::
    "'k dg_env \<Rightarrow> byte list \<Rightarrow> nat \<Rightarrow> inet_sock_address \<Rightarrow> 'k dg_world \<Rightarrow> (int \<times> 'k dg_world) res" where
  "dctx_write_raw E message len recipient w = dg_write_raw E message len recipient w"

definition dctx_write_string ::
    "'k dg_env \<Rightarrow> byte list \<Rightarrow> inet_sock_address \<Rightarrow> 'k dg_world \<Rightarrow> int \<times> 'k dg_world" where
  "dctx_write_string E message recipient w = dg_write_string E message recipient w"

definition dctx_write_buffer ::
    "'k dg_env \<Rightarrow> byte_buffer \<Rightarrow> inet_sock_address \<Rightarrow> 'k dg_world \<Rightarrow> (int \<times> 'k dg_world) res" where
  "dctx_write_buffer E message recipient w = dg_write_buffer E message recipient w"

definition dctx_write_packet ::
    "'k dg_env \<Rightarrow> datagram_packet \<Rightarrow> 'k dg_world \<Rightarrow> (int \<times> 'k dg_world) res" where
  "dctx_write_packet E message w = dg_write_packet E message w"

definition dctx_joinIpv4MulticastGroupByIfAddr ::
    "'k dg_env \<Rightarrow> (FdType \<Rightarrow> sockopt \<Rightarrow> bool) \<Rightarrow> string \<Rightarrow> string \<Rightarrow> 'k dg_world \<Rightarrow> bool" where
  "dctx_joinIpv4MulticastGroupByIfAddr E answer multicastAddr ifName w = joinIpv4MulticastGroupByIfAddr E answer multicastAddr ifName w"

definition dctx_joinIpv4MulticastGroupByIfIndex ::
    "'k dg_env \<Rightarrow> (FdType \<Rightarrow> sockopt \<Rightarrow> bool) \<Rightarrow> string \<Rightarrow> string \<Rightarrow> 'k dg_world \<Rightarrow> bool" where
  "dctx_joinIpv4MulticastGroupByIfIndex E answer multicastAddr ifName w = joinIpv4MulticastGroupByIfIndex E answer multicastAddr ifName w"

definition dctx_joinIpv6MulticastGroup ::
    "'k dg_env \<Rightarrow> (FdType \<Rightarrow> sockopt \<Rightarrow> bool) \<Rightarrow> string \<Rightarrow> string \<Rightarrow> 'k dg_world \<Rightarrow> bool" where
  "dctx_joinIpv6MulticastGroup E answer multicastAddr ifName w = joinIpv6MulticastGroup E answer multicastAddr ifName w"

definition dctx_leaveIpv4MulticastGroupByIfAddr ::
    "'k dg_env \<Rightarrow> (FdType \<Rightarrow> sockopt \<Rightarrow> bool) \<Rightarrow> string \<Rightarrow> string \<Rightarrow> 'k dg_world \<Rightarrow> bool" where
  "dctx_leaveIpv4MulticastGroupByIfAddr E answer multicastAddr ifName w = leaveIpv4MulticastGroupByIfAddr E answer multicastAddr ifName w"

definition dctx_leaveIpv4MulticastGroupByIfIndex ::
    "'k dg_env \<Rightarrow> (FdType \<Rightarrow> sockopt \<Rightarrow> bool) \<Rightarrow> string \<Rightarrow> string \<Rightarrow> 'k dg_world \<Rightarrow> bool" where
  "dctx_leaveIpv4MulticastGroupByIfIndex E answer multicastAddr ifName w = leaveIpv4MulticastGroupByIfIndex E answer multicastAddr ifName w"

definition dctx_leaveIpv6MulticastGroup ::
    "'k dg_env \<Rightarrow> (FdType \<Rightarrow> sockopt \<Rightarrow> bool) \<Rightarrow> string \<Rightarrow> string \<Rightarrow> 'k dg_world \<Rightarrow> bool" where
  "dctx_leaveIpv6MulticastGroup E answer multicastAddr ifName w = leaveIpv6MulticastGroup E answer multicastAddr ifName w"

section \<open>Receiving and sending\<close>

text \<open>What the kernel stores as the source of a datagram.\<close>

definition source_address :: "byte list \<Rightarrow> bool" where
  "source_address a \<longleftrightarrow> length a = 16 \<and> ipFamily a = AF_INET \<or> length a = 28 \<and> ipFamily a = AF_INET6"

lemma ipFamily_append: "2 \<le> length a \<Longrightarrow> ipFamily (a @ b) = ipFamily a"
  by (simp add: ipFamily_def)

lemma moved_source:
  assumes "source_address a"
  shows "fst (isa_move (a @ drop (length a) isa_default)) = a @ drop (length a) isa_default"
    and "addr_bytes (a @ drop (length a) isa_default) = a" and "\<not> isInValid (a @ drop (length a) isa_default)"
  using assms ipFamily_append[of a "drop (length a) isa_default"]
  by (auto simp: source_address_def isa_move_def addr_bytes_def isInValid_def AF_defs isa_default_def)

lemma recv_buffer:
  obtains b where "bb_new kRecvPacketSize = Inr b" "bb_ok b" "content b = []" "writableBytes b = kRecvPacketSize"
    "\<not> growth_refused kRecvPacketSize b"
proof -
  have "kRecvPacketSize \<le> ptrdiff_max" by (simp add: kRecvPacketSize_def ptrdiff_max_def)
  then show thesis
    by (intro that[of "\<lparr>buffer = replicate kRecvPacketSize 0, readerIndex = 0, writerIndex = 0, capacity = kRecvPacketSize\<rparr>"])
      (simp_all add: bb_new_def new_array_ok bb_ok_def bb_inv_def content_def writableBytes_def sz_sub_def growth_refused_def,
       simp_all add: kRecvPacketSize_def)
qed

lemma write_packet_content:
  assumes "bb_inv (pkt_data p)"
  shows "dg_write_packet E p w = Inr (dg_doWrite E (content (pkt_data p)) (pkt_recipient p) w)"
proof -
  have "packet_length p = writerIndex (pkt_data p) - readerIndex (pkt_data p)"
    using assms readableBytes_content content_length by (simp add: packet_length_def)
  then have "mem_read (buffer (pkt_data p)) (readerIndex (pkt_data p)) (packet_length p) = Inr (content (pkt_data p))"
    using assms by (auto simp: mem_read_def bb_inv_def content_def)
  then show ?thesis by (simp add: dg_write_packet_def)
qed

text \<open>What one read event does for every answer of the kernel.\<close>

lemma read_event_cases:
  assumes "net_recvfrom (dg_net E) (fd (dg w)) kRecvPacketSize (dkern w) = (r, k)"
    and "\<And>bs a. r = Inr (bs, a) \<Longrightarrow> length bs \<le> kRecvPacketSize"
  shows "case r of
      Inl e \<Rightarrow> dg_handleReadEvent E w = Inr (w\<lparr>dkern := k\<rparr>)
    | Inr (bs, a) \<Rightarrow>
        if bs = [] then dg_handleReadEvent E w = Inr (w\<lparr>dkern := k\<rparr>)
        else \<exists>b. bb_inv b \<and> content b = bs \<and>
          dg_handleReadEvent E w = Inr (dg_app E (DgRead (packet_move b (a @ drop (length a) isa_default))) (w\<lparr>dkern := k\<rparr>))"
proof -
  obtain b where b: "bb_new kRecvPacketSize = Inr b" "bb_ok b" "content b = []" "writableBytes b = kRecvPacketSize"
    "\<not> growth_refused kRecvPacketSize b" by (rule recv_buffer)
  have n: "kRecvPacketSize \<le> 2 ^ 62" by (simp add: kRecvPacketSize_def)
  show ?thesis
  proof (cases r)
    case (Inl e)
    obtain b' where "writeBytesFrom kRecvPacketSize (Inl e) b = Inr (- 1, b')"
      using writeBytesFrom_error[OF b(2) n b(5)] by blast
    then show ?thesis using assms(1) b Inl by (simp add: dg_handleReadEvent_def writeBytesFromDatagram_def recvFrom_def dg_handleReadError_def Let_def)
  next
    case (Inr ba)
    obtain bs a where ba: "ba = (bs, a)" by force
    have l: "length bs \<le> kRecvPacketSize" using assms(2) Inr ba by simp
    obtain b' where b': "writeBytesFrom kRecvPacketSize (Inr bs) b = Inr (int (length bs), b')" "bb_ok b'"
      "content b' = content b @ bs" using writeBytesFrom_ok[OF b(2) n b(5) l] by metis
    then have "bb_inv b'" "content b' = bs" using b(3) bb_okD(1) by auto
    then show ?thesis using assms(1) b b'(1) Inr ba
      by (auto simp: dg_handleReadEvent_def writeBytesFromDatagram_def recvFrom_def Let_def)
  qed
qed

text \<open>
  C23. A datagram of up to 16 kB reaches the handlers whole, as one packet with its sender's
  address, and sending that packet passes the same bytes to the address it came from: a handler
  that answers with the packet it got echoes it to the sender.
\<close>

theorem datagram_echo:
  assumes "net_recvfrom (dg_net E) (fd (dg w)) kRecvPacketSize (dkern w) = (Inr (bs, a), k)"
    and "bs \<noteq> []" and "length bs \<le> kRecvPacketSize" and "source_address a"
  shows "\<exists>pkt. dg_handleReadEvent E w = Inr (dg_app E (DgRead pkt) (w\<lparr>dkern := k\<rparr>)) \<and>
    content (pkt_data pkt) = bs \<and>
    (case net_sendto (dg_net E) (fd (dg v)) bs a (dkern v) of
       (r, k') \<Rightarrow> dg_write_packet E pkt v = Inr (case r of Inl e \<Rightarrow> -1 | Inr n \<Rightarrow> int n, v\<lparr>dkern := k'\<rparr>))"
proof -
  obtain b where b: "bb_inv b" "content b = bs"
    "dg_handleReadEvent E w = Inr (dg_app E (DgRead (packet_move b (a @ drop (length a) isa_default))) (w\<lparr>dkern := k\<rparr>))"
    using read_event_cases[OF assms(1)] assms(2,3) by auto
  let ?p = "packet_move b (a @ drop (length a) isa_default)"
  have p: "bb_inv (pkt_data ?p)" "content (pkt_data ?p) = bs" "pkt_recipient ?p = a @ drop (length a) isa_default"
    using b moved_source(1)[OF assms(4)] by (simp_all add: packet_move_def bb_move_def bb_inv_def content_def)
  have "dg_write_packet E ?p v = Inr (dg_doWrite E bs (a @ drop (length a) isa_default) v)"
    using write_packet_content[OF p(1)] p(2,3) by simp
  then show ?thesis using b(3) p(2) assms(2) moved_source(2,3)[OF assms(4)]
    by (intro exI[of _ ?p]) (auto simp: dg_doWrite_def sendTo_def)
qed

definition demo_dg_env :: "demo_kernel dg_env" where
  "demo_dg_env = \<lparr>dg_sys = demo_sys,
     dg_net = demo_net\<lparr>net_recvfrom := (\<lambda>f n k. (Inr ([104, 105], sockaddr_in 7000 [127, 0, 0, 1]), k))\<rparr>,
     dg_names = env_names demo_env, dg_app = (\<lambda>e w. w)\<rparr>"

definition demo_dg :: "demo_kernel dg_world" where
  "demo_dg = \<lparr>dg = dg_new\<lparr>fd := 3\<rparr>, dkern = skern demo_server, dgInTable = True\<rparr>"

theorem datagram_echo_witness:
  "\<exists>pkt. dg_handleReadEvent demo_dg_env demo_dg = Inr demo_dg \<and> content (pkt_data pkt) = [104, 105] \<and>
     dg_write_packet demo_dg_env pkt demo_dg = Inr (2, demo_dg)"
proof -
  have a: "source_address (sockaddr_in 7000 [127, 0, 0, 1])"
    unfolding source_address_def by code_simp
  have r: "net_recvfrom (dg_net demo_dg_env) (fd (dg demo_dg)) kRecvPacketSize (dkern demo_dg) =
      (Inr ([104, 105], sockaddr_in 7000 [127, 0, 0, 1]), dkern demo_dg)" by (simp add: demo_dg_env_def)
  from datagram_echo[OF r _ _ a, of demo_dg] show ?thesis
    by (auto simp: demo_dg_env_def kRecvPacketSize_def demo_net_def)
qed

end
