(* ===== verification/Bootstraps.thy ===== *)
theory Bootstraps
  imports Connector_Channel Datagram_Channel Event_Loop
begin

text \<open>
  \<^verbatim>\<open>nets/net/bootstrap\<close>: the builders that collect options, handlers and callbacks, create a server,
  connector or datagram channel from them and bind or connect it. The creating closures
  (\<^verbatim>\<open>doBind\<close>, \<^verbatim>\<open>doConnect\<close>) run in the main event loop; a channel that nothing holds when they end is
  destroyed.
\<close>

section \<open>ServerBootstrap\<close>

record server_bootstrap =
  sbOptions :: option_map
  sbChildOptions :: option_map
  sbChildHandlers :: "nat list"
  sbChildCallback :: "(pipeline \<Rightarrow> pipeline) option"

definition sboot_new :: server_bootstrap where
  "sboot_new = \<lparr>sbOptions = [], sbChildOptions = [], sbChildHandlers = [], sbChildCallback = None\<rparr>"

definition numOfChildLoops :: "int \<Rightarrow> int \<Rightarrow> int" where
  "numOfChildLoops kDefaultNumbOfChildEventLoops n = (if n = 0 then kDefaultNumbOfChildEventLoops else n)"

definition sboot_option :: "SockOption \<Rightarrow> OptionValue \<Rightarrow> server_bootstrap \<Rightarrow> server_bootstrap" where
  "sboot_option sockOption val b = b\<lparr>sbOptions := insert_or_assign sockOption val (sbOptions b)\<rparr>"

definition sboot_childOption :: "SockOption \<Rightarrow> OptionValue \<Rightarrow> server_bootstrap \<Rightarrow> server_bootstrap" where
  "sboot_childOption sockOption val b = b\<lparr>sbChildOptions := insert_or_assign sockOption val (sbChildOptions b)\<rparr>"

definition sboot_childHandler :: "nat option \<Rightarrow> server_bootstrap \<Rightarrow> server_bootstrap res" where
  "sboot_childHandler childHandler b =
     (case childHandler of
        None \<Rightarrow> Inl (Throw (InvalidArgument ''ServerBootstrap sets childHandler with nullptr''))
      | Some h \<Rightarrow> Inr (b\<lparr>sbChildHandlers := sbChildHandlers b @ [h]\<rparr>))"

definition sboot_childCallback :: "(pipeline \<Rightarrow> pipeline) option \<Rightarrow> server_bootstrap \<Rightarrow> server_bootstrap res" where
  "sboot_childCallback cb b =
     (case cb of
        None \<Rightarrow> Inl (Throw (InvalidArgument ''Bootstrap sets childHandler with nullptr''))
      | Some g \<Rightarrow> Inr (b\<lparr>sbChildCallback := Some g\<rparr>))"

definition initServerSocketChannel :: "server_bootstrap \<Rightarrow> server \<Rightarrow> server \<times> server_bootstrap" where
  "initServerSocketChannel b s =
     (let (s, b) = (if sbOptions b \<noteq> [] then (server_setChannelOptions (sbOptions b) s, b\<lparr>sbOptions := []\<rparr>) else (s, b));
          (s, b) = (if sbChildOptions b \<noteq> [] then (setChildOptions (sbChildOptions b) s, b\<lparr>sbChildOptions := []\<rparr>) else (s, b));
          (s, b) = (if sbChildHandlers b \<noteq> [] then (setChildHandlers (sbChildHandlers b) s, b\<lparr>sbChildHandlers := []\<rparr>) else (s, b))
      in if sbChildCallback b \<noteq> None
         then (setChildInitializationCallback (sbChildCallback b) s, b\<lparr>sbChildCallback := None\<rparr>) else (s, b))"

text \<open>
  \<^verbatim>\<open>doBind\<close>: the outcome, the bootstrap and the kernel. An exception destroys the channel and goes
  into the future, on which \<^verbatim>\<open>bind\<close> only waits.
\<close>

definition sboot_doBind ::
    "'k srv_env \<Rightarrow> store \<Rightarrow> inet_sock_address \<Rightarrow> server_bootstrap \<Rightarrow> 'k \<Rightarrow> 'k srv_world res \<times> server_bootstrap \<times> 'k" where
  "sboot_doBind E H addr b k =
     (case server_new E H k of
        (Inl e, k) \<Rightarrow> (Inl e, b, k)
      | (Inr w, k) \<Rightarrow>
          (let (s, b) = initServerSocketChannel b (srv w)
           in case server_bind E addr (w\<lparr>srv := s\<rparr>) of
                (Inl e, w) \<Rightarrow> (Inl e, b, server_destroy E w)
              | (Inr _, w) \<Rightarrow> (Inr w, b, skern w)))"

section \<open>Bootstrap\<close>

record bootstrap =
  bsOptions :: option_map
  bsRetry :: bool
  bsRetryInterval :: int
  socketChannelHandlers :: "nat list"
  datagramChannelHandlers :: "nat list"
  socketChannelCallback :: "(pipeline \<Rightarrow> pipeline) option"
  datagramChannelCallback :: "(pipeline \<Rightarrow> pipeline) option"

definition bs_new :: bootstrap where
  "bs_new = \<lparr>bsOptions = [], bsRetry = False, bsRetryInterval = 0, socketChannelHandlers = [],
     datagramChannelHandlers = [], socketChannelCallback = None, datagramChannelCallback = None\<rparr>"

definition bs_option :: "SockOption \<Rightarrow> OptionValue \<Rightarrow> bootstrap \<Rightarrow> bootstrap" where
  "bs_option sockOption val b = b\<lparr>bsOptions := insert_or_assign sockOption val (bsOptions b)\<rparr>"

definition bs_retry :: "bool \<Rightarrow> int \<Rightarrow> bootstrap \<Rightarrow> bootstrap" where
  "bs_retry r intv b = b\<lparr>bsRetry := r, bsRetryInterval := intv\<rparr>"

definition bs_socketHandler :: "nat option \<Rightarrow> bootstrap \<Rightarrow> bootstrap res" where
  "bs_socketHandler channelHandler b =
     (case channelHandler of
        None \<Rightarrow> Inl (Throw (InvalidArgument ''Bootstrap sets channelHandler with nullptr''))
      | Some h \<Rightarrow> Inr (b\<lparr>socketChannelHandlers := socketChannelHandlers b @ [h]\<rparr>))"

definition bs_socketCallback :: "(pipeline \<Rightarrow> pipeline) option \<Rightarrow> bootstrap \<Rightarrow> bootstrap res" where
  "bs_socketCallback cb b =
     (case cb of
        None \<Rightarrow> Inl (Throw (InvalidArgument ''Bootstrap sets channelHandler with nullptr''))
      | Some g \<Rightarrow> Inr (b\<lparr>socketChannelCallback := Some g\<rparr>))"

definition bs_datagramHandler :: "nat option \<Rightarrow> bootstrap \<Rightarrow> bootstrap res" where
  "bs_datagramHandler channelHandler b =
     (case channelHandler of
        None \<Rightarrow> Inl (Throw (InvalidArgument ''Bootstrap sets channelHandler with nullptr''))
      | Some h \<Rightarrow> Inr (b\<lparr>datagramChannelHandlers := datagramChannelHandlers b @ [h]\<rparr>))"

definition bs_datagramCallback :: "(pipeline \<Rightarrow> pipeline) option \<Rightarrow> bootstrap \<Rightarrow> bootstrap res" where
  "bs_datagramCallback cb b =
     (case cb of
        None \<Rightarrow> Inl (Throw (InvalidArgument ''Bootstrap sets channelHandler with nullptr''))
      | Some g \<Rightarrow> Inr (b\<lparr>datagramChannelCallback := Some g\<rparr>))"

definition initConnectorChannel :: "bootstrap \<Rightarrow> connector \<Rightarrow> connector \<times> bootstrap" where
  "initConnectorChannel b c =
     (let c = setRetryInterval (bsRetryInterval b) (setRetry (bsRetry b) c);
          (c, b) = (if bsOptions b \<noteq> [] then (setConnectorOptions (bsOptions b) c, b\<lparr>bsOptions := []\<rparr>) else (c, b));
          (c, b) = (if socketChannelHandlers b \<noteq> []
                    then (setChannelHandlers (socketChannelHandlers b) c, b\<lparr>socketChannelHandlers := []\<rparr>) else (c, b))
      in if socketChannelCallback b \<noteq> None
         then (setChannelInitializationCallback (socketChannelCallback b) c, b\<lparr>socketChannelCallback := None\<rparr>) else (c, b))"

text \<open>The connector before \<^verbatim>\<open>connect\<close> is called on it, and \<^verbatim>\<open>doConnect\<close> followed by turns of the loop.\<close>

definition connector_world :: "bootstrap \<Rightarrow> store \<Rightarrow> 'k \<Rightarrow> 'k con_world" where
  "connector_world b H k =
     \<lparr>con = fst (initConnectorChannel b connector_new), ckern = k, cstore = H, inTable = False, conTasks = [], conTimers = [],
      made = [], alive = True\<rparr>"

definition bs_doConnect ::
    "'k srv_env \<Rightarrow> store \<Rightarrow> inet_sock_address \<Rightarrow> bootstrap \<Rightarrow> 'k \<Rightarrow> unit res \<times> 'k con_world" where
  "bs_doConnect E H serverAddress b k = released E (con_connect E serverAddress) (connector_world b H k)"

text \<open>The handlers are linked in the order given; the callback gets the channel with that pipeline.\<close>

definition initDatagramChannel :: "bootstrap \<Rightarrow> store \<Rightarrow> dgram \<Rightarrow> (pipeline res) \<times> dgram \<times> bootstrap" where
  "initDatagramChannel b H d =
     (let (d, b) = (if bsOptions b \<noteq> [] then (dg_setChannelOptions (bsOptions b) d, b\<lparr>bsOptions := []\<rparr>) else (d, b))
      in case addHandlers (datagramChannelHandlers b) \<lparr>handlers = H, headChannelHandler = None\<rparr> of
           Inl e \<Rightarrow> (Inl e, d, b)
         | Inr p \<Rightarrow>
             (let b = b\<lparr>datagramChannelHandlers := []\<rparr>
              in case datagramChannelCallback b of
                   None \<Rightarrow> (Inr p, d, b)
                 | Some g \<Rightarrow> (Inr (g p), d, b\<lparr>datagramChannelCallback := None\<rparr>)))"

definition bs_doBind ::
    "'k dg_env \<Rightarrow> store \<Rightarrow> inet_sock_address \<Rightarrow> bootstrap \<Rightarrow> 'k \<Rightarrow> ('k dg_world \<times> pipeline) res \<times> bootstrap \<times> 'k" where
  "bs_doBind E H addr b k =
     (case initDatagramChannel b H dg_new of
        (Inl e, d, b) \<Rightarrow> (Inl e, b, k)
      | (Inr p, d, b) \<Rightarrow>
          (case dg_bind E addr \<lparr>dg = d, dkern = k, dgInTable = False\<rparr> of
             (Inl e, w) \<Rightarrow> (Inl e, b, dg_destroy E w)
           | (Inr _, w) \<Rightarrow> (Inr (w, p), b, dkern w)))"

section \<open>Shutdown\<close>

definition main_shutdown :: "event_loop event_loop_group \<Rightarrow> event_loop event_loop_group" where
  "main_shutdown g = (if \<not> group_isShutdown g then group_shutdown g else g)"

definition server_shutdown ::
    "event_loop event_loop_group \<times> event_loop event_loop_group \<Rightarrow> event_loop event_loop_group \<times> event_loop event_loop_group" where
  "server_shutdown gs = (main_shutdown (fst gs), main_shutdown (snd gs))"

definition server_isShutdown :: "event_loop event_loop_group \<times> event_loop event_loop_group \<Rightarrow> bool" where
  "server_isShutdown gs \<longleftrightarrow> group_isShutdown (fst gs) \<and> group_isShutdown (snd gs)"

datatype signo = SIGPIPE | SIGHUP | SIGINT | SIGQUIT | SIGTERM | SIGSEGV

text \<open>\<open>shutdown\<close> is the virtual function of the concrete bootstrap.\<close>

fun handleSignal :: "('g \<Rightarrow> 'g) \<Rightarrow> signo \<Rightarrow> 'g \<Rightarrow> 'g res" where
  "handleSignal shutdown SIGPIPE g = Inr g"
| "handleSignal shutdown SIGSEGV g = Inl (Throw (SegmentationFaultException ''segmentation fault''))"
| "handleSignal shutdown _ g = Inr (shutdown g)"

lemma main_shutdown_isShutdown: "group_isShutdown (main_shutdown g)"
  by (auto simp: main_shutdown_def group_shutdown_def group_isShutdown_def list_all_iff)

lemma shutdown_isShutdown: "server_isShutdown (server_shutdown gs)"
  by (simp add: server_isShutdown_def server_shutdown_def main_shutdown_isShutdown)

section \<open>Binding a server\<close>

lemma clamp_backlog_bounds: "1 \<le> clamp_backlog b \<and> clamp_backlog b \<le> kDefaultMaximumOfBackLog"
  by (simp add: clamp_backlog_def kDefaultMaximumOfBackLog_def)

text \<open>What \<^verbatim>\<open>bind\<close> and its second part leave alone, and what holds when they succeed.\<close>

definition listening :: "'k srv_world \<Rightarrow> bool" where
  "listening w \<longleftrightarrow> isRegistered (srv w) \<and> srvRegistered w \<and> hasReadEvent (srv w) \<and>
     1 \<le> backlog (srv w) \<and> backlog (srv w) \<le> kDefaultMaximumOfBackLog"

lemma server_ops [simp]:
  "idleFd (setRegistered b s) = idleFd s" "idleFd (addEvent ev s) = idleFd s"
  "backlog (setRegistered b s) = backlog s" "backlog (addEvent ev s) = backlog s"
  by (simp_all add: setRegistered_def addEvent_def)

lemma server_registerTo_fds:
  assumes "fds_spec (env_net E) (env_sys E) fds" and "server_registerTo E w = (ok, w')" and "\<not> isRegistered (srv w)"
  shows "fds (skern w') = fds (skern w) \<and> fd (srv w') = fd (srv w) \<and> idleFd (srv w') = idleFd (srv w) \<and>
    backlog (srv w') = backlog (srv w) \<and> events (srv w') = events (srv w) \<and> conns w' = conns w \<and>
    (ok \<longrightarrow> isRegistered (srv w') \<and> srvRegistered w')"
proof -
  obtain b k where c: "epollCtl (env_sys E) EPOLL_CTL_ADD (srv w) (skern w) = (b, k)" by force
  have k: "fds k = fds (skern w)" by (rule epollCtl_fds[OF assms(1) c])
  let ?w = "w\<lparr>srv := (if b then setRegistered True (srv w) else srv w), skern := k, srvRegistered := b \<or> srvRegistered w\<rparr>"
  have "server_registerTo E w = (b, ?w)" using assms(3) c
    by (cases b) (simp_all add: server_registerTo_def poller_registerChannel_def poller_add_def)
  then have "w' = ?w" "ok = b" using assms(2) by (metis prod.inject)+
  then show ?thesis using k by simp
qed

lemma server_listen_fds:
  assumes spec: "fds_spec (env_net E) (env_sys E) fds" and l: "server_listen E a w = (r, w')" and nr: "\<not> isRegistered (srv w)"
  shows "fds (skern w') = fds (skern w) \<and> fd (srv w') = fd (srv w) \<and> idleFd (srv w') = idleFd (srv w) \<and>
    conns w' = conns w \<and> (r = Inr () \<longrightarrow> listening w')"
proof -
  obtain p k1 where b: "net_bind (env_net E) (fd (srv w)) (addr_bytes a) (skern w) = (p, k1)" by force
  let ?s = "(srv w)\<lparr>backlog := clamp_backlog (backlog (srv w))\<rparr>"
  obtain q k2 where n: "net_listen (env_net E) (fd (srv w)) (clamp_backlog (backlog (srv w))) k1 = (q, k2)" by force
  let ?w = "w\<lparr>skern := k2, srv := addEvent kReadEvent ?s\<rparr>"
  obtain ok v where rg: "server_registerTo E ?w = (ok, v)" by force
  have k: "fds k1 = fds (skern w)" "fds k2 = fds k1" using keeps_fds(2)[OF spec b] keeps_fds(3)[OF spec n] by auto
  have v: "fds (skern v) = fds (skern ?w) \<and> fd (srv v) = fd (srv ?w) \<and> idleFd (srv v) = idleFd (srv ?w) \<and>
    backlog (srv v) = backlog (srv ?w) \<and> events (srv v) = events (srv ?w) \<and> conns v = conns ?w \<and>
    (ok \<longrightarrow> isRegistered (srv v) \<and> srvRegistered v)"
    by (rule server_registerTo_fds[OF spec rg]) (use nr in simp)
  have "r = Inr () \<Longrightarrow> p = None \<and> q = None \<and> ok \<and> w' = v"
    using l b n rg by (auto simp: server_listen_def on_kern_def sock_bind_def sock_listen_def Let_def split: option.splits bool.splits)
  moreover have "w' = v \<or> w' = w\<lparr>skern := k1\<rparr> \<or> w' = w\<lparr>skern := k2, srv := ?s\<rparr>"
    using l b n rg by (auto simp: server_listen_def on_kern_def sock_bind_def sock_listen_def Let_def split: option.splits bool.splits)
  moreover have "hasReadEvent (srv v)"
    using v by (simp only: hasReadEvent_def event_bits) (simp add: bit_or_iff)
  then have "ok \<Longrightarrow> listening v"
    using v clamp_backlog_bounds[of "backlog (srv w)"] by (simp add: listening_def)
  ultimately show ?thesis using v k by auto
qed

lemma server_bind_fds:
  assumes spec: "fds_spec (env_net E) (env_sys E) fds"
    and b: "server_bind E a w = (r, w')" and nr: "\<not> isRegistered (srv w)" "fd (srv w) = kInvalidFd"
  shows "idleFd (srv w') = idleFd (srv w) \<and> conns w' = conns w \<and>
    (fd (srv w') = kInvalidFd \<and> fds (skern w') = fds (skern w) \<and> r \<noteq> Inr () \<or>
     fd (srv w') = kInvalidFd \<and> (\<exists>e. r = Inl e \<and> cloexec_leak (env_net E) fds e (skern w) (skern w')) \<or>
     opens fds (fd (srv w')) (skern w) (skern w') \<and> (r = Inr () \<longrightarrow> listening w'))"
proof -
  obtain q k1 where c: "createTcpSocket (env_net E) (ipFamily a) (skern w) = (q, k1)" by force
  show ?thesis
  proof (cases q)
    case (Inl e)
    then have "w' = w\<lparr>skern := k1\<rparr>" "r = Inl e" using b c by (simp_all add: server_bind_def on_kern_def)
    then show ?thesis using Inl createTcpSocket_cases[OF spec c] nr by auto
  next
    case (Inr f)
    have op: "opens fds f (skern w) k1" using createTcpSocket_cases[OF spec c] Inr by simp
    obtain cs p where o1: "setChannelOptions (env_names E) True (channelOptions (srv w)) = (cs, p)" by force
    let ?k = "apply_calls (env_net E) f cs (setSockNonBlock (env_net E) f k1)"
    let ?w = "w\<lparr>srv := (srv w)\<lparr>fd := f, backlog := server_setBacklog cs (backlog (srv w))\<rparr>, skern := ?k\<rparr>"
    have k: "fds ?k = fds k1" by (simp add: apply_calls_fds[OF spec] setSockNonBlock_fds[OF spec])
    have w': "w' = ?w \<and> r \<noteq> Inr () \<or>
        server_listen E a (?w\<lparr>srv := (srv ?w)\<lparr>channelOptions := []\<rparr>\<rparr>) = (r, w')"
      using b c Inr o1 by (cases p) (auto simp: server_bind_def on_kern_def Let_def)
    then show ?thesis
      using server_listen_fds[OF spec, of a "?w\<lparr>srv := (srv ?w)\<lparr>channelOptions := []\<rparr>\<rparr>" r w'] nr k op
      by (auto simp: opens_def)
  qed
qed

lemma initServer_frame:
  assumes "initServerSocketChannel b s = (s', b')"
  shows "fd s' = fd s" "idleFd s' = idleFd s" "isRegistered s' = isRegistered s" "b' = sboot_new"
  using assms
  by (auto simp: initServerSocketChannel_def server_setChannelOptions_def setChildOptions_def setChildHandlers_def
      setChildInitializationCallback_def sboot_new_def Let_def split: if_splits)

text \<open>
  C11. Binding a server is all or nothing. If anything on the way throws (no reserve descriptor, no
  socket, an ill-typed option, \<^verbatim>\<open>bind\<close>, \<^verbatim>\<open>listen\<close> or the registration fails), every descriptor opened
  so far is closed again, with one exception: when \<^verbatim>\<open>fcntl\<close> refuses \<^verbatim>\<open>FD_CLOEXEC\<close> on the new socket,
  exactly that socket stays open. If nothing throws, exactly the listening socket and the reserve
  are open in addition, the socket is registered for reading and listens with a backlog between 1
  and 4096, and the state is one from which accepting keeps the descriptors accounted for.
\<close>

theorem server_bind_all_or_nothing:
  assumes spec: "fds_spec (env_net E) (env_sys E) fds"
    and pos: "\<forall>g \<in> fds k. 0 \<le> g" and b: "sboot_doBind E H a b k = (r, b', k')"
  shows "case r of
      Inl e \<Rightarrow> fds k' = fds k \<or> cloexec_leak (env_net E) fds e k k'
    | Inr w \<Rightarrow> k' = skern w \<and> b' = sboot_new \<and> fds k' = fds k \<union> {fd (srv w), idleFd (srv w)} \<and>
        isRegistered (srv w) \<and> hasReadEvent (srv w) \<and> 1 \<le> backlog (srv w) \<and> backlog (srv w) \<le> 4096 \<and>
        ledger fds (insert (fd (srv w)) (fds k)) w"
proof -
  obtain i k1 where i: "createIdleFd (env_net E) k = (i, k1)" by force
  note idle = createIdleFd_fds[OF spec i]
  show ?thesis
  proof (cases "i < 0")
    case True
    then have "r = Inl (Throw (RuntimeError ''ServerSocketChannel createIdleFd failed''))" "k' = k1"
      using b i by (simp_all add: sboot_doBind_def server_new_def)
    then show ?thesis using idle True by simp
  next
    case False
    define w where "w = projr (fst (server_new E H k))"
    have w: "server_new E H k = (Inr w, k1)" "skern w = k1" "conns w = []" "fd (srv w) = kInvalidFd" "idleFd (srv w) = i"
      "\<not> isRegistered (srv w)"
      using i False by (simp_all add: w_def server_new_def)
    obtain s' where s': "initServerSocketChannel b (srv w) = (s', sboot_new)"
      using initServer_frame(4)[of b "srv w"] by (metis prod.collapse)
    note fr = initServer_frame[OF s']
    obtain q v where v: "server_bind E a (w\<lparr>srv := s'\<rparr>) = (q, v)" by force
    have bf: "idleFd (srv v) = i \<and> conns v = [] \<and>
      (fd (srv v) = kInvalidFd \<and> fds (skern v) = fds k1 \<and> q \<noteq> Inr () \<or>
       fd (srv v) = kInvalidFd \<and> (\<exists>e. q = Inl e \<and> cloexec_leak (env_net E) fds e k1 (skern v)) \<or>
       opens fds (fd (srv v)) k1 (skern v) \<and> (q = Inr () \<longrightarrow> listening v))"
      using server_bind_fds[OF spec v] fr w by auto
    have pos1: "\<And>g. g \<in> fds k1 \<Longrightarrow> 0 \<le> g" and posv: "\<And>g. g \<in> fds (skern v) \<Longrightarrow> 0 \<le> g"
      using idle pos bf by (auto simp: opens_def cloexec_leak_def)
    have k1: "fds k1 = insert i (fds k)" "i \<notin> fds k" using idle False by auto
    show ?thesis
    proof (cases q)
      case (Inl e)
      let ?k = "closeFd (env_net E) (fd (srv v)) (skern v)"
      have one: "fds ?k = fds (skern v) - {fd (srv v)}" by (rule closeFd_fds[OF spec posv])
      have "fds (closeFd (env_net E) i ?k) = fds ?k - {i}" by (rule closeFd_fds[OF spec]) (use posv one in auto)
      then have closed: "fds (server_destroy E v) = fds (skern v) - {fd (srv v)} - {i}" using bf one by (simp add: server_destroy_def)
      have "fds (server_destroy E v) = fds k \<or> cloexec_leak (env_net E) fds e k (server_destroy E v)"
        using closed bf k1 pos1[of "-1"] Inl by (auto simp: opens_def kInvalidFd_def cloexec_leak_def)
      moreover have "r = Inl e" "k' = server_destroy E v" using b w(1) s' v Inl by (simp_all add: sboot_doBind_def)
      ultimately show ?thesis by simp
    next
      case (Inr u)
      then have "r = Inr v" "b' = sboot_new" "k' = skern v" using b w(1) s' v by (simp_all add: sboot_doBind_def)
      then show ?thesis using bf Inr k1 pos False
        by (auto simp: opens_def listening_def ledger_def conn_fds_def idle_set_def kDefaultMaximumOfBackLog_def)
    qed
  qed
qed

definition demo_start :: demo_kernel where
  "demo_start = \<lparr>openFds = [0, 1, 2], nextFd = 3, accepts = [], connects = [], sockErrors = [], demoEpoll = (\<lambda>f. None)\<rparr>"

abbreviation demo_bind :: "demo_kernel srv_world res \<times> server_bootstrap \<times> demo_kernel" where
  "demo_bind \<equiv> sboot_doBind demo_env (hstore demo_server) isa_default sboot_new demo_start"

lemma demo_bind_fds: "case fst demo_bind of Inl e \<Rightarrow> False | Inr w \<Rightarrow> fd (srv w) = 4 \<and> idleFd (srv w) = 3"
  by code_simp

theorem server_bind_all_or_nothing_witness:
  "case fst demo_bind of Inl e \<Rightarrow> False
   | Inr w \<Rightarrow> set (openFds (snd (snd demo_bind))) = {0, 1, 2, 3, 4} \<and> isRegistered (srv w) \<and>
       1 \<le> backlog (srv w) \<and> backlog (srv w) \<le> 4096"
proof -
  obtain r b' k' where b: "demo_bind = (r, b', k')" by (metis prod_cases3)
  have "fds_spec (env_net demo_env) (env_sys demo_env) (\<lambda>k. set (openFds k))"
    using demo_fds_spec by (simp add: demo_env_def)
  from server_bind_all_or_nothing[OF this _ b] demo_bind_fds show ?thesis
    unfolding b by (auto simp: demo_start_def split: sum.splits)
qed

text \<open>The connector that \<^verbatim>\<open>doConnect\<close> sets up is one from which attempts start.\<close>

lemma doConnect_starts:
  assumes "fds k = L" and "\<forall>g \<in> L. 0 \<le> g"
  shows "starting (connector_world b H k)" and "con_ledger fds L (connector_world b H k)"
  using assms
  by (auto simp: connector_world_def starting_def idle_def write_only_def con_ledger_def own_def made_fds_def
      initConnectorChannel_def setRetry_def setRetryInterval_def setConnectorOptions_def setChannelHandlers_def
      setChannelInitializationCallback_def connector_new_def kInvalidFd_def Let_def split: if_splits)

end
