(* ===== verification/String_Utils.thy ===== *)
theory String_Utils
  imports Nets_Prelude
begin

text \<open>
  \<^verbatim>\<open>nets/base/StringUtils\<close>: trimming, splitting and comparing strings. A string is the list of its
  bytes; \<^verbatim>\<open>char\<close> is signed. The loops that erase one byte at a time are modelled as such, and the
  \<^verbatim>\<open>split\<close> loop as a partial function, since it need not end.
\<close>

section \<open>The functions\<close>

text \<open>\<^verbatim>\<open>iswspace\<close> in the C locale; a negative \<^verbatim>\<open>char\<close> is not a space.\<close>

definition iswspace :: "byte \<Rightarrow> bool" where
  "iswspace c \<longleftrightarrow> c = 32 \<or> 9 \<le> c \<and> c \<le> 13"

text \<open>\<^verbatim>\<open>str.erase(it)\<close> with \<open>it\<close> at the beginning leaves it at the new beginning.\<close>

fun erase_front :: "byte list \<Rightarrow> byte list" where
  "erase_front [] = []"
| "erase_front (c # cs) = (if \<not> iswspace c then c # cs else erase_front cs)"

function erase_back :: "byte list \<Rightarrow> byte list" where
  "erase_back str =
     (if str = [] then str else if \<not> iswspace (last str) then str else erase_back (butlast str))"
  by pat_completeness auto
termination by (relation "measure length") auto

declare erase_back.simps [simp del]

definition trim :: "byte list \<Rightarrow> byte list" where
  "trim str = (if str \<noteq> [] then erase_back (erase_front str) else str)"

definition trimL :: "byte list \<Rightarrow> byte list" where
  "trimL str = (if str \<noteq> [] then erase_front str else str)"

definition trimR :: "byte list \<Rightarrow> byte list" where
  "trimR str = (if str \<noteq> [] then erase_back str else str)"

text \<open>\<^verbatim>\<open>s.find(d, pos)\<close>, with \<open>None\<close> for \<^verbatim>\<open>npos\<close>.\<close>

definition str_find :: "byte list \<Rightarrow> byte list \<Rightarrow> nat \<Rightarrow> nat option" where
  "str_find s d pos = List.find (\<lambda>i. take (length d) (drop i s) = d) [pos..<Suc (length s)]"

partial_function (option) split_loop ::
    "byte list \<Rightarrow> byte list \<Rightarrow> nat \<Rightarrow> nat option \<Rightarrow> byte list list \<Rightarrow> byte list list option" where
  "split_loop s delimiter pos1 pos2 tokens =
     (case pos2 of
        None \<Rightarrow> Some (if pos1 \<noteq> length s then tokens @ [drop pos1 s] else tokens)
      | Some p \<Rightarrow>
          split_loop s delimiter (p + length delimiter) (str_find s delimiter (p + length delimiter))
            (tokens @ [take (p - pos1) (drop pos1 s)]))"

definition split_string :: "byte list \<Rightarrow> byte list list \<Rightarrow> byte list \<Rightarrow> byte list list option" where
  "split_string s tokens delimiter =
     (if length s = 0 then Some tokens else split_loop s delimiter 0 (str_find s delimiter 0) tokens)"

text \<open>The overload for one character has the same loop with 1 for the length.\<close>

definition split_char :: "byte list \<Rightarrow> byte list list \<Rightarrow> byte \<Rightarrow> byte list list option" where
  "split_char s tokens delimiter =
     (if length s = 0 then Some tokens else split_loop s [delimiter] 0 (str_find s [delimiter] 0) tokens)"

definition AsciiCaseInsensitive :: "byte \<Rightarrow> byte \<Rightarrow> bool" where
  "AsciiCaseInsensitive lhs rhs =
     (let k = lhs XOR rhs
      in if k = 0 then True
         else if k \<noteq> 32 then False
         else (let k = lhs OR rhs in sint k \<ge> 97 \<and> sint k \<le> 122))"

definition caseInsensitiveEqual :: "byte list \<Rightarrow> byte list \<Rightarrow> bool" where
  "caseInsensitiveEqual s1 s2 =
     (if length s1 \<noteq> length s2 then False else list_all2 AsciiCaseInsensitive s1 s2)"

section \<open>Trimming\<close>

lemma erase_front_dropWhile: "erase_front s = dropWhile iswspace s"
  by (induction s) auto

lemma erase_back_dropWhile: "erase_back s = rev (dropWhile iswspace (rev s))"
proof (induction s rule: rev_induct)
  case (snoc c s)
  then show ?case by (subst erase_back.simps) simp
qed (simp add: erase_back.simps)

text \<open>
  Trimming removes exactly the leading and the trailing white space, also when the string is
  empty or nothing but white space: the loops that erase one byte at a time compute what
  \<open>dropWhile\<close> from the left and from the right computes.
\<close>

lemma trim_reference:
  "trim s = rev (dropWhile iswspace (rev (dropWhile iswspace s)))"
  "trimL s = dropWhile iswspace s"
  "trimR s = rev (dropWhile iswspace (rev s))"
  by (auto simp: trim_def trimL_def trimR_def erase_front_dropWhile erase_back_dropWhile)

section \<open>Splitting\<close>

definition occurs_in :: "byte list \<Rightarrow> byte list \<Rightarrow> bool" where
  "occurs_in d t \<longleftrightarrow> (\<exists>us vs. t = us @ d @ vs)"

text \<open>The tokens with a delimiter after each; after the last one it may be missing, and then that is not empty.\<close>

definition tokens_of :: "byte list \<Rightarrow> byte list list \<Rightarrow> byte list \<Rightarrow> bool" where
  "tokens_of d ts s \<longleftrightarrow>
     concat (map (\<lambda>t. t @ d) ts) = s \<or>
     ts \<noteq> [] \<and> last ts \<noteq> [] \<and> concat (map (\<lambda>t. t @ d) (butlast ts)) @ last ts = s"

lemma tokens_of_Cons: "tokens_of d ts u \<Longrightarrow> tokens_of d (t # ts) (t @ d @ u)"
  by (auto simp: tokens_of_def)

lemma str_find_Some:
  assumes "str_find s d pos = Some p"
  shows "pos \<le> p" "p \<le> length s" "take (length d) (drop p s) = d"
    and "\<And>i. pos \<le> i \<Longrightarrow> i < p \<Longrightarrow> take (length d) (drop i s) \<noteq> d"
proof -
  let ?xs = "[pos..<Suc (length s)]"
  obtain k where k: "k < length ?xs" "take (length d) (drop (?xs ! k) s) = d" "p = ?xs ! k"
    "\<forall>j<k. take (length d) (drop (?xs ! j) s) \<noteq> d"
    using assms unfolding str_find_def find_Some_iff by blast
  have p: "p = pos + k" using k(1,3) by (simp del: upt_Suc)
  show "pos \<le> p" "p \<le> length s" "take (length d) (drop p s) = d" using k p by (simp_all del: upt_Suc)
  show "take (length d) (drop i s) \<noteq> d" if "pos \<le> i" "i < p" for i
    using k(4)[rule_format, of "i - pos"] k(1) that p by (simp del: upt_Suc)
qed

lemma str_find_None:
  "str_find s d pos = None \<Longrightarrow> pos \<le> i \<Longrightarrow> i \<le> length s \<Longrightarrow> take (length d) (drop i s) \<noteq> d"
  by (auto simp: str_find_def find_None_iff simp del: upt_Suc)

lemma occurs_at:
  assumes "occurs_in d (take n (drop pos s))" and "d \<noteq> []" and "pos \<le> length s"
  shows "\<exists>i. pos \<le> i \<and> i < pos + n \<and> i \<le> length s \<and> take (length d) (drop i s) = d"
proof -
  obtain us vs where e: "take n (drop pos s) = us @ d @ vs" using assms(1) by (auto simp: occurs_in_def)
  have l: "length us + length d \<le> n" "length us + length d \<le> length s - pos"
    using arg_cong[OF e, of length] by auto
  have "drop pos s = us @ d @ vs @ drop n (drop pos s)"
    using append_take_drop_id[of n "drop pos s"] unfolding e by simp
  then have "drop (length us) (drop pos s) = d @ vs @ drop n (drop pos s)"
    by (metis append_eq_conv_conj)
  then have "take (length d) (drop (pos + length us) s) = d" by (simp add: add.commute)
  moreover have "length us < n" using l assms(2) by (cases d) auto
  ultimately show ?thesis using l assms(3) by (intro exI[of _ "pos + length us"]) auto
qed

lemma split_loop_tokens:
  assumes d: "d \<noteq> []"
  shows "pos \<le> length s \<Longrightarrow>
    \<exists>ts. split_loop s d pos (str_find s d pos) acc = Some (acc @ ts) \<and> tokens_of d ts (drop pos s) \<and>
      list_all (\<lambda>t. \<not> occurs_in d t) ts"
proof (induction "length s - pos" arbitrary: pos acc rule: less_induct)
  case less
  show ?case
  proof (cases "str_find s d pos")
    case None
    have "\<not> occurs_in d (drop pos s)"
      using occurs_at[of d "length s" pos s] d less.prems str_find_None[OF None] by auto
    moreover have "split_loop s d pos None acc = Some (acc @ (if pos \<noteq> length s then [drop pos s] else []))"
      by (simp add: split_loop.simps)
    ultimately show ?thesis using None less.prems
      by (intro exI[of _ "if pos \<noteq> length s then [drop pos s] else []"]) (auto simp: tokens_of_def)
  next
    case (Some p)
    note f = str_find_Some[OF Some]
    let ?t = "take (p - pos) (drop pos s)" and ?q = "p + length d"
    have q: "?q \<le> length s" using arg_cong[OF f(3), of length] f(2) by simp
    have "length s - ?q < length s - pos" using q f(1) d by (cases d) auto
    from less.hyps[OF this q] obtain ts where
      ts: "split_loop s d ?q (str_find s d ?q) (acc @ [?t]) = Some ((acc @ [?t]) @ ts)"
        "tokens_of d ts (drop ?q s)" "list_all (\<lambda>t. \<not> occurs_in d t) ts" by blast
    have "\<not> occurs_in d ?t" using occurs_at[of d "p - pos" pos s] d less.prems f(1,4) by auto
    moreover have "drop pos s = ?t @ d @ drop ?q s"
      using f by (metis add.commute append_take_drop_id drop_drop le_add_diff_inverse2)
    ultimately show ?thesis using ts Some tokens_of_Cons[OF ts(2), of ?t]
      by (intro exI[of _ "?t # ts"]) (simp add: split_loop.simps[of s d pos])
  qed
qed

text \<open>
  C24. Splitting ends whenever the delimiter is not empty, appends to the list it is given, loses
  nothing and stops at the first delimiter each time: the tokens, each followed by the delimiter,
  give back the string (after the last token the delimiter may be missing, and then that token is
  not empty), and no token contains the delimiter.
\<close>

theorem split_roundtrip:
  assumes "delimiter \<noteq> []"
  shows "\<exists>ts. split_string s tokens delimiter = Some (tokens @ ts) \<and>
    (concat (map (\<lambda>t. t @ delimiter) ts) = s \<or>
     ts \<noteq> [] \<and> last ts \<noteq> [] \<and> concat (map (\<lambda>t. t @ delimiter) (butlast ts)) @ last ts = s) \<and>
    list_all (\<lambda>t. \<not> occurs_in delimiter t) ts"
proof (cases "s = []")
  case True
  then show ?thesis by (intro exI[of _ "[]"]) (simp add: split_string_def)
next
  case False
  then show ?thesis using split_loop_tokens[OF assms, of 0 s tokens] by (auto simp: split_string_def tokens_of_def)
qed

lemma split_char_string: "split_char s tokens c = split_string s tokens [c]"
  by (simp add: split_char_def split_string_def)

text \<open>With an empty delimiter \<^verbatim>\<open>find\<close> answers 0 for ever, and the list of tokens grows for ever.\<close>

lemma split_empty_delimiter:
  assumes "s \<noteq> []"
  shows "split_string s tokens [] = None"
proof -
  have z: "str_find s [] 0 = Some 0" using assms by (simp add: str_find_def upt_rec[of 0])
  have "split_loop s' d pos1 pos2 ts = Some r \<Longrightarrow> s' = s \<longrightarrow> d = [] \<longrightarrow> pos2 \<noteq> Some 0" for s' d pos1 pos2 ts r
  proof (rule split_loop.raw_induct[where P="\<lambda>s' d pos1 pos2 ts r. s' = s \<longrightarrow> d = [] \<longrightarrow> pos2 \<noteq> Some 0"])
    fix loop s' d pos1 pos2 ts r
    assume IH: "\<And>s' d pos1 pos2 ts r. loop s' d pos1 pos2 ts = Some r \<Longrightarrow> s' = s \<longrightarrow> d = [] \<longrightarrow> pos2 \<noteq> Some 0"
      and b: "(case pos2 of None \<Rightarrow> Some (if pos1 \<noteq> length s' then ts @ [drop pos1 s'] else ts)
         | Some p \<Rightarrow> loop s' d (p + length d) (str_find s' d (p + length d)) (ts @ [take (p - pos1) (drop pos1 s')])) = Some r"
    show "s' = s \<longrightarrow> d = [] \<longrightarrow> pos2 \<noteq> Some 0" using b z IH[of s' d 0 "Some 0" "ts @ [[]]" r] by auto
  qed
  then have "split_loop s [] 0 (Some 0) tokens \<noteq> Some r" for r by blast
  then show ?thesis using assms z by (cases "split_loop s [] 0 (Some 0) tokens") (auto simp: split_string_def)
qed

theorem split_roundtrip_witness:
  "\<exists>ts. split_string [97, 44, 44, 98, 44] [] [44] = Some ([] @ ts) \<and>
    (concat (map (\<lambda>t. t @ [44]) ts) = [97, 44, 44, 98, 44] \<or>
     ts \<noteq> [] \<and> last ts \<noteq> [] \<and> concat (map (\<lambda>t. t @ [44]) (butlast ts)) @ last ts = [97, 44, 44, 98, 44])"
  using split_roundtrip[of "[44]" "[97, 44, 44, 98, 44]" "[]"] by blast

section \<open>Comparing\<close>

definition ascii_lower :: "byte \<Rightarrow> byte" where
  "ascii_lower c = (if 65 \<le> c \<and> c \<le> 90 then c + 32 else c)"

definition all_bytes :: "byte list" where
  "all_bytes = map word_of_nat [0..<256]"

lemma all_bytes: "c \<in> set all_bytes"
proof -
  have "unat c < 2 ^ LENGTH(8)" by (rule unsigned_less)
  then have "c = word_of_nat (unat c)" "unat c < 256" by simp_all
  then show ?thesis unfolding all_bytes_def by (metis atLeastLessThan_iff image_eqI le0 list.set_map set_upt)
qed

text \<open>Facts about one byte, by evaluation on all of them.\<close>

lemma case_bytes:
  "(sint (c OR (c XOR 32)) \<ge> 97 \<and> sint (c OR (c XOR 32)) \<le> 122) = (ascii_lower c = ascii_lower (c XOR 32))"
  "(65 \<le> c \<and> c \<le> 90) \<longrightarrow> c + 32 = c XOR 32"
proof -
  have "list_all (\<lambda>c. ((sint (c OR (c XOR 32)) \<ge> 97 \<and> sint (c OR (c XOR 32)) \<le> 122) =
      (ascii_lower c = ascii_lower (c XOR 32))) \<and> ((65 \<le> c \<and> c \<le> 90) \<longrightarrow> c + 32 = c XOR 32)) all_bytes" by code_simp
  then show "(sint (c OR (c XOR 32)) \<ge> 97 \<and> sint (c OR (c XOR 32)) \<le> 122) = (ascii_lower c = ascii_lower (c XOR 32))"
    "(65 \<le> c \<and> c \<le> 90) \<longrightarrow> c + 32 = c XOR 32"
    using all_bytes[of c] by (auto simp: list_all_iff)
qed

lemma lower_eq: "ascii_lower l = ascii_lower r \<Longrightarrow> l = r \<or> r = l XOR 32"
proof -
  have x: "a + 32 = b \<Longrightarrow> 65 \<le> a \<Longrightarrow> a \<le> 90 \<Longrightarrow> b = a XOR 32" for a b :: byte using case_bytes(2)[of a] by auto
  have y: "(a XOR 32) XOR 32 = a" for a :: byte by (simp only: xor.assoc bit.xor_self xor.right_neutral)
  assume "ascii_lower l = ascii_lower r"
  then show ?thesis using x[of l r] x[of r l] y by (auto simp: ascii_lower_def split: if_splits)
qed

lemma AsciiCaseInsensitive_lower: "AsciiCaseInsensitive l r \<longleftrightarrow> ascii_lower l = ascii_lower r"
proof -
  have cancel: "l XOR (l XOR x) = x" for x :: byte by (simp only: xor.assoc[symmetric] bit.xor_self xor.left_neutral)
  have "l XOR r = 0 \<longleftrightarrow> l = r" "l XOR r = 32 \<longleftrightarrow> r = l XOR 32" by (metis cancel xor.right_neutral)+
  then show ?thesis using case_bytes(1)[of l] lower_eq[of l r] by (auto simp: AsciiCaseInsensitive_def Let_def)
qed

text \<open>
  The bit trick of \<^verbatim>\<open>caseInsensitiveEqual\<close> is right for every pair of strings of bytes: it
  holds exactly if the strings are equal after the ASCII capitals have been made small letters.
  Bytes that differ in the same bit but are not letters are told apart.
\<close>

lemma caseInsensitiveEqual_lower:
  "caseInsensitiveEqual s1 s2 \<longleftrightarrow> map ascii_lower s1 = map ascii_lower s2"
proof -
  have "list_all2 AsciiCaseInsensitive s1 s2 \<longleftrightarrow> map ascii_lower s1 = map ascii_lower s2"
    by (simp add: AsciiCaseInsensitive_lower list_eq_iff_nth_eq list_all2_conv_all_nth)
      (metis length_map nth_map)
  then show ?thesis by (auto simp: caseInsensitiveEqual_def dest: map_eq_imp_length_eq)
qed

end
