(* ===== verification/Log_Appender.thy ===== *)
theory Log_Appender
  imports Stack_Buffer
begin

text \<open>
  \<^verbatim>\<open>nets/base/log/LogFile\<close> and \<^verbatim>\<open>nets/base/log/LogAppender\<close>: the log file with its rolling over, and the
  appender that collects lines in large buffers which a background thread writes out. The calls
  of the C library are a parameter; a stream is named by the path it was opened with, and its
  contents are what has been passed to \<^verbatim>\<open>fwrite\<close> (the code flushes after each batch).
\<close>

section \<open>LogFile\<close>

type_synonym path = string

text \<open>
  \<open>io_fwrite\<close> answers the count and whether the error indicator is set, \<open>io_fstat\<close> the size and the
  change time; \<open>io_stamp\<close> is \<^verbatim>\<open>strftime\<close> of the local time with the pattern of the code, which
  gives 19 characters.
\<close>

record 'f stdio =
  io_access :: "path \<Rightarrow> 'f \<Rightarrow> bool"
  io_mkdir :: "path \<Rightarrow> 'f \<Rightarrow> bool \<times> 'f"
  io_fopen :: "path \<Rightarrow> 'f \<Rightarrow> bool \<times> 'f"
  io_fclose :: "path \<Rightarrow> 'f \<Rightarrow> 'f"
  io_fwrite :: "path \<Rightarrow> string \<Rightarrow> 'f \<Rightarrow> (nat \<times> bool) \<times> 'f"
  io_fflush :: "path \<Rightarrow> 'f \<Rightarrow> 'f"
  io_rename :: "path \<Rightarrow> path \<Rightarrow> 'f \<Rightarrow> 'f"
  io_fstat :: "path \<Rightarrow> 'f \<Rightarrow> (nat \<times> int) option"
  io_stamp :: "int \<Rightarrow> string"

definition kMaxFilePathLength :: nat where "kMaxFilePathLength = 512"
definition kLogFileSuffix :: string where "kLogFileSuffix = ''.log''"

record log_file =
  lf_dir :: path
  lf_file :: path
  lf_bytes :: nat
  lf_lastRollTime :: int

text \<open>The components \<^verbatim>\<open>strsep\<close> finds, and the paths that are built from the ones that are not empty.\<close>

fun strsep_all :: "string \<Rightarrow> string list" where
  "strsep_all [] = [[]]"
| "strsep_all (c # cs) =
     (if c = CHR ''/'' then [] # strsep_all cs
      else case strsep_all cs of [] \<Rightarrow> [[c]] | t # ts \<Rightarrow> (c # t) # ts)"

fun mkdir_loop :: "'f stdio \<Rightarrow> path \<Rightarrow> string list \<Rightarrow> 'f \<Rightarrow> unit res \<times> 'f" where
  "mkdir_loop IO path [] f = (Inr (), f)"
| "mkdir_loop IO path (spStr # ts) f =
     (if length spStr > 0
      then (let path = path @ ''/'' @ spStr
            in if length path \<ge> kMaxFilePathLength then (Inl Undefined, f)
               else if \<not> io_access IO path f
               then (case io_mkdir IO path f of
                       (True, f) \<Rightarrow> mkdir_loop IO path ts f
                     | (False, f) \<Rightarrow> (Inl (Throw (FileCreateException ''failed to create file'')), f))
               else mkdir_loop IO path ts f)
      else mkdir_loop IO path ts f)"

definition mkdirR :: "'f stdio \<Rightarrow> path \<Rightarrow> 'f \<Rightarrow> unit res \<times> 'f" where
  "mkdirR IO multiLevelDir f =
     (if io_access IO multiLevelDir f then (Inr (), f)
      else if length multiLevelDir \<ge> kMaxFilePathLength then (Inl Undefined, f)
      else mkdir_loop IO [] (strsep_all multiLevelDir) f)"

text \<open>\<^verbatim>\<open>getFileInfo\<close> with both pointers, and with the first only.\<close>

definition getFileInfo :: "'f stdio \<Rightarrow> bool \<Rightarrow> 'f \<Rightarrow> log_file \<Rightarrow> log_file" where
  "getFileInfo IO wantTime f l =
     (case io_fstat IO (lf_file l) f of
        None \<Rightarrow> l
      | Some (sz, t) \<Rightarrow> (if wantTime then l\<lparr>lf_bytes := sz, lf_lastRollTime := t\<rparr> else l\<lparr>lf_bytes := sz\<rparr>))"

text \<open>The prefix up to and including the last slash, empty if there is none.\<close>

definition dir_of :: "path \<Rightarrow> path" where
  "dir_of file = rev (dropWhile (\<lambda>c. c \<noteq> CHR ''/'') (rev file))"

definition lf_new :: "'f stdio \<Rightarrow> path \<Rightarrow> 'f \<Rightarrow> log_file res \<times> 'f" where
  "lf_new IO file f =
     (if length file > kMaxFilePathLength \<or> length file = 0
      then (Inl (Throw (InvalidArgument ''the log file cannot be empty'')), f)
      else (case (if dir_of file \<noteq> [] then mkdirR IO (dir_of file) f else (Inr (), f)) of
              (Inl e, f) \<Rightarrow> (Inl e, f)
            | (Inr _, f) \<Rightarrow>
                (case io_fopen IO file f of
                   (False, f) \<Rightarrow> (Inl (Throw (FileOpenException ''failed to open file'')), f)
                 | (True, f) \<Rightarrow>
                     (Inr (getFileInfo IO True f
                        \<lparr>lf_dir = dir_of file, lf_file = file, lf_bytes = 0, lf_lastRollTime = 0\<rparr>), f))))"

text \<open>The loop of \<^verbatim>\<open>write\<close>: it does not end if \<^verbatim>\<open>fwrite\<close> keeps writing nothing without an error.\<close>

partial_function (option) write_loop :: "'f stdio \<Rightarrow> path \<Rightarrow> string \<Rightarrow> nat \<Rightarrow> 'f \<Rightarrow> (nat \<times> 'f) option" where
  "write_loop IO file data writtenBytes f =
     (if writtenBytes < length data
      then (let remain = length data - writtenBytes; r = io_fwrite IO file (drop writtenBytes data) f
            in if fst (fst r) \<noteq> remain \<and> snd (fst r) then Some (writtenBytes, snd r)
               else write_loop IO file data (writtenBytes + fst (fst r)) (snd r))
      else Some (writtenBytes, f))"

definition lf_write :: "'f stdio \<Rightarrow> string \<Rightarrow> log_file \<times> 'f \<Rightarrow> (log_file \<times> 'f) res" where
  "lf_write IO data = (\<lambda>(l, f).
     case write_loop IO (lf_file l) data 0 f of
       None \<Rightarrow> Inl Hang
     | Some (n, f) \<Rightarrow> Inr (l\<lparr>lf_bytes := sz_add (lf_bytes l) n\<rparr>, f))"

text \<open>The new name is built in an array of the maximal path length.\<close>

definition renameByNowTime :: "'f stdio \<Rightarrow> int \<Rightarrow> log_file \<times> 'f \<Rightarrow> (log_file \<times> 'f) res" where
  "renameByNowTime IO now = (\<lambda>(l, f).
     let f = io_fclose IO (lf_file l) f;
         newFilename = io_stamp IO now @ kLogFileSuffix
     in if lf_dir l \<noteq> [] \<and> length (lf_dir l @ newFilename) \<ge> kMaxFilePathLength then Inl Undefined
        else (let f = io_rename IO (lf_file l) (lf_dir l @ newFilename) f
              in case io_fopen IO (lf_file l) f of
                   (False, f) \<Rightarrow> Inl (Throw (FileOpenException ''failed to open file''))
                 | (True, f) \<Rightarrow> Inr ((getFileInfo IO False f l)\<lparr>lf_lastRollTime := now\<rparr>, f)))"

section \<open>FileLogAppender\<close>

definition kMaximumOfLogBuffer :: nat where "kMaximumOfLogBuffer = 24"
definition kSecondsPerDay :: int where "kSecondsPerDay = 86400"
definition kLogBufferPieceSize :: nat where "kLogBufferPieceSize = 2097152"
definition kDefaultLogFileRollingSize :: nat where "kDefaultLogFileRollingSize = 1024"

datatype LogFileType = SINGLE_FILE | DAILY_FILE | ROLLING_FILE

text \<open>The pointers are options; the null pointer is \<open>None\<close>.\<close>

record appender =
  ap_running :: bool
  logFile :: log_file
  logFileRollingSize :: nat
  logFileType :: LogFileType
  cacheBuffer :: "stack_buffer option"
  backupCacheBuffer :: "stack_buffer option"
  ap_buffers :: "stack_buffer list"

definition new_piece :: stack_buffer where "new_piece = sb_new kLogBufferPieceSize"

definition ap_new :: "log_file \<Rightarrow> LogFileType \<Rightarrow> appender" where
  "ap_new l t = \<lparr>ap_running = True, logFile = l, logFileRollingSize = kDefaultLogFileRollingSize, logFileType = t,
     cacheBuffer = Some new_piece, backupCacheBuffer = Some new_piece, ap_buffers = []\<rparr>"

text \<open>\<^verbatim>\<open>append\<close>, under the lock.\<close>

definition ap_append :: "stack_buffer \<Rightarrow> appender \<Rightarrow> appender res" where
  "ap_append logBuffer a =
     (case cacheBuffer a of
        None \<Rightarrow> Inl Undefined
      | Some c \<Rightarrow>
          ebind (mem_read (sb_buffer logBuffer) 0 (sb_writerIndex logBuffer)) (\<lambda>data.
            if sb_writableBytes c > length data
            then ebind (sb_writeBytes data c) (\<lambda>c. Inr (a\<lparr>cacheBuffer := Some c\<rparr>))
            else (let a = a\<lparr>ap_buffers := ap_buffers a @ [c]\<rparr>;
                      (c, a) = (case backupCacheBuffer a of
                                  Some b \<Rightarrow> (b, a\<lparr>backupCacheBuffer := None\<rparr>)
                                | None \<Rightarrow> (new_piece, a))
                  in ebind (sb_writeBytes data c) (\<lambda>c. Inr (a\<lparr>cacheBuffer := Some c\<rparr>)))))"

definition setLogFileRollingSize :: "nat \<Rightarrow> appender \<Rightarrow> appender" where
  "setLogFileRollingSize rollingSize a = a\<lparr>logFileRollingSize := rollingSize\<rparr>"

fun syncSingleFile :: "'f stdio \<Rightarrow> stack_buffer list \<Rightarrow> log_file \<times> 'f \<Rightarrow> (log_file \<times> 'f) res" where
  "syncSingleFile IO [] s = Inr s"
| "syncSingleFile IO (b # bs) s =
     ebind (mem_read (sb_buffer b) 0 (sb_writerIndex b)) (\<lambda>d. ebind (lf_write IO d s) (syncSingleFile IO bs))"

fun syncDailyFile :: "'f stdio \<Rightarrow> int \<Rightarrow> stack_buffer list \<Rightarrow> log_file \<times> 'f \<Rightarrow> (log_file \<times> 'f) res" where
  "syncDailyFile IO now [] s = Inr s"
| "syncDailyFile IO now (b # bs) s =
     ebind (if kSecondsPerDay < now - lf_lastRollTime (fst s) then renameByNowTime IO now s else Inr s) (\<lambda>s.
     ebind (mem_read (sb_buffer b) 0 (sb_writerIndex b)) (\<lambda>d. ebind (lf_write IO d s) (syncDailyFile IO now bs)))"

fun syncRollingFile :: "'f stdio \<Rightarrow> nat \<Rightarrow> int \<Rightarrow> stack_buffer list \<Rightarrow> log_file \<times> 'f \<Rightarrow> (log_file \<times> 'f) res" where
  "syncRollingFile IO rollingSize now [] s = Inr s"
| "syncRollingFile IO rollingSize now (b # bs) s =
     ebind (if sz_add (lf_bytes (fst s)) (sb_writerIndex b) div 1024 \<ge> rollingSize then renameByNowTime IO now s else Inr s)
       (\<lambda>s. ebind (mem_read (sb_buffer b) 0 (sb_writerIndex b)) (\<lambda>d.
            ebind (lf_write IO d s) (syncRollingFile IO rollingSize now bs)))"

definition syncFile ::
    "'f stdio \<Rightarrow> LogFileType \<Rightarrow> nat \<Rightarrow> int \<Rightarrow> stack_buffer list \<Rightarrow> log_file \<times> 'f \<Rightarrow> (log_file \<times> 'f) res" where
  "syncFile IO t rollingSize now bs s =
     (case t of
        SINGLE_FILE \<Rightarrow> syncSingleFile IO bs s
      | DAILY_FILE \<Rightarrow> syncDailyFile IO now bs s
      | ROLLING_FILE \<Rightarrow> syncRollingFile IO rollingSize now bs s)"

text \<open>More than 24 buffers: the newer half is dropped and a warning takes its place.\<close>

definition drop_buffers :: "stack_buffer list \<Rightarrow> stack_buffer list res" where
  "drop_buffers bs =
     (if length bs > kMaximumOfLogBuffer
      then ebind (sb_writeCString (''Dropped '' @ dec (length bs div 2) @ '' log buffers'' @ [CHR 0x0A]) new_piece)
             (\<lambda>b. Inr (take (length bs div 2) bs @ [b]))
      else Inr bs)"

section \<open>The background thread\<close>

text \<open>
  Program points of \<^verbatim>\<open>sync\<close>: the test of the loop, the critical section (the wait in front of it ends
  when there is something to write or after a second), writing out, and the end. The locals of the
  function are part of the state; \<open>appended\<close> and \<open>drops\<close> are ghosts.
\<close>

datatype sync_pc = SyTest | SyTake | SyWrite | SyEnd

record 'f ap_world =
  ap :: appender
  fs :: 'f
  syncPc :: sync_pc
  sy_buffers :: "stack_buffer list"
  sy_cache :: "stack_buffer option"
  sy_backup :: "stack_buffer option"
  appended :: "string list"
  drops :: nat

definition ap_start :: "log_file \<Rightarrow> LogFileType \<Rightarrow> 'f \<Rightarrow> 'f ap_world" where
  "ap_start l t f = \<lparr>ap = ap_new l t, fs = f, syncPc = SyTest, sy_buffers = [], sy_cache = Some new_piece,
     sy_backup = Some new_piece, appended = [], drops = 0\<rparr>"

text \<open>The critical section of the loop; moving a pointer leaves null behind.\<close>

definition sync_take :: "'f ap_world \<Rightarrow> 'f ap_world res" where
  "sync_take w =
     (case cacheBuffer (ap w) of
        None \<Rightarrow> Inl Undefined
      | Some c \<Rightarrow>
          if ap_buffers (ap w) \<noteq> [] \<or> sb_writerIndex c > 0
          then (let a = (ap w)\<lparr>ap_buffers := ap_buffers (ap w) @ [c]\<rparr>;
                    w = w\<lparr>sy_buffers := ap_buffers a\<rparr>;
                    a = a\<lparr>ap_buffers := [], cacheBuffer := sy_cache w\<rparr>;
                    w = w\<lparr>sy_cache := None\<rparr>
                in Inr (if backupCacheBuffer a \<noteq> None
                        then w\<lparr>ap := a\<lparr>backupCacheBuffer := sy_backup w\<rparr>, sy_backup := None, syncPc := SyWrite\<rparr>
                        else w\<lparr>ap := a, syncPc := SyWrite\<rparr>))
          else Inr (w\<lparr>syncPc := SyTest\<rparr>))"

definition sync_write :: "'f stdio \<Rightarrow> int \<Rightarrow> 'f ap_world \<Rightarrow> 'f ap_world res" where
  "sync_write IO now w =
     ebind (drop_buffers (sy_buffers w)) (\<lambda>bs.
     ebind (syncFile IO (logFileType (ap w)) (logFileRollingSize (ap w)) now bs (logFile (ap w), fs w)) (\<lambda>(l, f).
       Inr (w\<lparr>ap := (ap w)\<lparr>logFile := l\<rparr>, fs := io_fflush IO (lf_file l) f, sy_buffers := [],
              sy_cache := Some new_piece,
              sy_backup := (if sy_backup w = None then Some new_piece else sy_backup w),
              syncPc := SyTest,
              drops := drops w + (if length (sy_buffers w) > kMaximumOfLogBuffer then 1 else 0)\<rparr>)))"

inductive ap_step :: "'f stdio \<Rightarrow> 'f ap_world \<Rightarrow> 'f ap_world \<Rightarrow> bool" for IO where
  step_append: "holds kLogBufferSize b s \<Longrightarrow> ap_append b (ap w) = Inr a \<Longrightarrow>
     ap_step IO w (w\<lparr>ap := a, appended := appended w @ [s]\<rparr>)"
| step_test: "syncPc w = SyTest \<Longrightarrow> ap_running (ap w) \<Longrightarrow> ap_step IO w (w\<lparr>syncPc := SyTake\<rparr>)"
| step_take: "syncPc w = SyTake \<Longrightarrow> sync_take w = Inr w' \<Longrightarrow> ap_step IO w w'"
| step_write: "syncPc w = SyWrite \<Longrightarrow> sync_write IO now w = Inr w' \<Longrightarrow> ap_step IO w w'"
| step_stop: "ap_step IO w (w\<lparr>ap := (ap w)\<lparr>ap_running := False\<rparr>\<rparr>)"
| step_end: "syncPc w = SyTest \<Longrightarrow> \<not> ap_running (ap w) \<Longrightarrow>
     ap_step IO w (w\<lparr>fs := io_fflush IO (lf_file (logFile (ap w))) (fs w), syncPc := SyEnd\<rparr>)"

abbreviation ap_steps :: "'f stdio \<Rightarrow> 'f ap_world \<Rightarrow> 'f ap_world \<Rightarrow> bool" where
  "ap_steps IO \<equiv> (ap_step IO)\<^sup>*\<^sup>*"

section \<open>No line is lost or reordered\<close>

text \<open>A C library that writes all it is asked to; \<open>content\<close> are the contents of a file.\<close>

definition io_healthy :: "'f stdio \<Rightarrow> ('f \<Rightarrow> path \<Rightarrow> string) \<Rightarrow> bool" where
  "io_healthy IO content \<longleftrightarrow>
     (\<forall>p d f. fst (io_fwrite IO p d f) = (length d, False) \<and> content (snd (io_fwrite IO p d f)) p = content f p @ d) \<and>
     (\<forall>p f. content (io_fflush IO p f) p = content f p)"

definition text_of :: "stack_buffer \<Rightarrow> string" where
  "text_of b = take (sb_writerIndex b) (sb_buffer b)"

definition texts :: "stack_buffer list \<Rightarrow> string" where
  "texts bs = concat (map text_of bs)"

abbreviation piece :: "stack_buffer \<Rightarrow> string \<Rightarrow> bool" where
  "piece \<equiv> holds kLogBufferPieceSize"

lemma texts_simps [simp]: "texts [] = []" "texts (b # bs) = text_of b @ texts bs" "texts (as @ bs) = texts as @ texts bs"
  by (simp_all add: texts_def)

lemma holds_text: "holds SIZE b s \<Longrightarrow> text_of b = s"
  by (simp add: holds_def text_of_def)

lemma holds_text_of: "holds SIZE b s \<Longrightarrow> holds SIZE b (text_of b)"
  by (simp add: holds_text)

lemma holds_read: "holds SIZE b s \<Longrightarrow> mem_read (sb_buffer b) 0 (sb_writerIndex b) = Inr s"
  by (simp add: holds_def mem_read_def)

lemma new_piece_empty: "piece new_piece []"
  unfolding new_piece_def by (rule holds_new) (simp_all add: kLogBufferPieceSize_def size_mod_def)

text \<open>Writing a whole batch.\<close>

lemma lf_write_healthy:
  assumes "io_healthy IO content"
  shows "\<exists>l' f'. lf_write IO d (l, f) = Inr (l', f') \<and> lf_file l' = lf_file l \<and>
    content f' (lf_file l) = content f (lf_file l) @ d"
proof (cases "d = []")
  case True
  then show ?thesis by (simp add: lf_write_def write_loop.simps)
next
  case False
  let ?r = "io_fwrite IO (lf_file l) d f"
  have r: "fst ?r = (length d, False)" "content (snd ?r) (lf_file l) = content f (lf_file l) @ d"
    using assms by (auto simp: io_healthy_def)
  have "write_loop IO (lf_file l) d (length d) (snd ?r) = Some (length d, snd ?r)" by (simp add: write_loop.simps)
  then have "write_loop IO (lf_file l) d 0 f = Some (length d, snd ?r)"
    using False r by (subst write_loop.simps) (simp add: Let_def)
  then show ?thesis using r(2) by (simp add: lf_write_def)
qed

lemma syncSingleFile_healthy:
  assumes "io_healthy IO content"
  shows "list_all (\<lambda>b. piece b (text_of b)) bs \<Longrightarrow>
    \<exists>l' f'. syncSingleFile IO bs (l, f) = Inr (l', f') \<and> lf_file l' = lf_file l \<and>
      content f' (lf_file l) = content f (lf_file l) @ texts bs"
proof (induction bs arbitrary: l f)
  case (Cons b bs)
  obtain l1 f1 where w: "lf_write IO (text_of b) (l, f) = Inr (l1, f1)" "lf_file l1 = lf_file l"
    "content f1 (lf_file l) = content f (lf_file l) @ text_of b" using lf_write_healthy[OF assms] by blast
  have "mem_read (sb_buffer b) 0 (sb_writerIndex b) = Inr (text_of b)" using Cons.prems holds_read by auto
  then show ?case using w Cons.IH[of l1 f1] Cons.prems by auto
qed simp

lemma drop_buffers_ok:
  assumes "list_all (\<lambda>b. piece b (text_of b)) bs"
  shows "\<exists>bs'. drop_buffers bs = Inr bs' \<and> list_all (\<lambda>b. piece b (text_of b)) bs' \<and>
    (length bs \<le> kMaximumOfLogBuffer \<longrightarrow> bs' = bs)"
proof -
  let ?d = "takeWhile (\<lambda>c. c \<noteq> NUL) (''Dropped '' @ dec (length bs div 2) @ '' log buffers'' @ [CHR 0x0A])"
  obtain b s where b: "sb_writeBytes ?d new_piece = Inr b" "piece b s"
    using sb_writeBytes_holds[OF new_piece_empty] by meson
  have "piece b (text_of b)" by (rule holds_text_of[OF b(2)])
  then show ?thesis using assms b(1)
    by (auto simp: drop_buffers_def sb_writeCString_def list_all_iff dest: in_set_takeD)
qed

text \<open>Appending one line.\<close>

lemma ap_append_ok:
  assumes b: "holds kLogBufferSize b s" and c: "cacheBuffer a = Some c" "piece c u"
    and bk: "\<And>q. backupCacheBuffer a = Some q \<Longrightarrow> piece q []"
  shows "\<exists>c' old. ap_append b a = Inr (a\<lparr>cacheBuffer := Some c', ap_buffers := ap_buffers a @ old,
            backupCacheBuffer := (if old = [] then backupCacheBuffer a else None)\<rparr>) \<and>
      (old = [] \<and> piece c' (u @ s) \<or> old = [c] \<and> piece c' s)"
proof -
  have fit: "length s < kLogBufferPieceSize"
    using b by (simp add: holds_def kLogBufferSize_def kLogBufferPieceSize_def)
  note rd = holds_read[OF b]
  show ?thesis
  proof (cases "sb_writableBytes c > length s")
    case True
    then obtain c' where "sb_writeBytes s c = Inr c'" "piece c' (u @ s)"
      using sb_writeBytes_holds[OF c(2), of s] holds_writable[OF c(2)] by auto
    then show ?thesis using True rd c(1)
      by (intro exI[of _ c'] exI[of _ "[]"]) (simp add: ap_append_def)
  next
    case False
    define q where "q = (case backupCacheBuffer a of Some q \<Rightarrow> q | None \<Rightarrow> new_piece)"
    have q: "piece q []" using bk new_piece_empty by (auto simp: q_def split: option.splits)
    obtain c' where c': "sb_writeBytes s q = Inr c'" "piece c' s" using sb_writeBytes_holds[OF q, of s] fit by auto
    have "a\<lparr>backupCacheBuffer := None\<rparr> = a" if "backupCacheBuffer a = None" using that by simp
    then show ?thesis using False rd c(1) c'
      by (intro exI[of _ c'] exI[of _ "[c]"]) (cases "backupCacheBuffer a"; simp add: ap_append_def q_def Let_def)
  qed
qed

section \<open>Invariant\<close>

definition ap_inv :: "('f \<Rightarrow> path \<Rightarrow> string) \<Rightarrow> path \<Rightarrow> string \<Rightarrow> 'f ap_world \<Rightarrow> bool" where
  "ap_inv content file base w \<longleftrightarrow>
     logFileType (ap w) = SINGLE_FILE \<and> lf_file (logFile (ap w)) = file \<and>
     list_all (\<lambda>b. piece b (text_of b)) (sy_buffers w @ ap_buffers (ap w)) \<and>
     (syncPc w = SyWrite \<or> sy_buffers w = []) \<and>
     (syncPc w = SyWrite \<or> (\<exists>q. sy_cache w = Some q \<and> piece q [])) \<and>
     (syncPc w = SyWrite \<or> sy_backup w \<noteq> None) \<and>
     (\<forall>q. sy_backup w = Some q \<longrightarrow> piece q []) \<and> (\<forall>q. backupCacheBuffer (ap w) = Some q \<longrightarrow> piece q []) \<and>
     (\<exists>c. cacheBuffer (ap w) = Some c \<and> piece c (text_of c) \<and>
       (drops w = 0 \<longrightarrow>
          content (fs w) file @ texts (sy_buffers w) @ texts (ap_buffers (ap w)) @ text_of c = base @ concat (appended w)))"

lemma ap_inv_start: "ap_inv content (lf_file l) (content f (lf_file l)) (ap_start l SINGLE_FILE f)"
  using new_piece_empty holds_text[OF new_piece_empty] by (simp add: ap_inv_def ap_start_def ap_new_def)

lemma ap_inv_append:
  assumes inv: "ap_inv content file base w" and b: "holds kLogBufferSize b s"
  shows "\<exists>a. ap_append b (ap w) = Inr a \<and> ap_inv content file base (w\<lparr>ap := a, appended := appended w @ [s]\<rparr>)"
proof -
  obtain c where c: "cacheBuffer (ap w) = Some c" "piece c (text_of c)" using inv by (auto simp: ap_inv_def)
  have bk: "\<And>q. backupCacheBuffer (ap w) = Some q \<Longrightarrow> piece q []" using inv by (simp add: ap_inv_def)
  obtain c' old where a: "ap_append b (ap w) = Inr ((ap w)\<lparr>cacheBuffer := Some c', ap_buffers := ap_buffers (ap w) @ old,
      backupCacheBuffer := (if old = [] then backupCacheBuffer (ap w) else None)\<rparr>)"
    and o1: "old = [] \<and> piece c' (text_of c @ s) \<or> old = [c] \<and> piece c' s"
    using ap_append_ok[OF b c bk] by blast
  have "piece c' (text_of c')" using o1 holds_text_of by blast
  moreover have "texts old @ text_of c' = text_of c @ s" using o1 holds_text by auto
  moreover have "list_all (\<lambda>b. piece b (text_of b)) old" using o1 c(2) by auto
  moreover have "content (fs w) file @ texts (sy_buffers w) @ texts (ap_buffers (ap w)) @ text_of c @ s =
      base @ concat (appended w) @ s" if "drops w = 0"
  proof -
    have "content (fs w) file @ texts (sy_buffers w) @ texts (ap_buffers (ap w)) @ text_of c = base @ concat (appended w)"
      using inv that c(1) by (simp add: ap_inv_def)
    from arg_cong[OF this, of "\<lambda>x. x @ s"] show ?thesis by simp
  qed
  ultimately show ?thesis using inv c(1) a by (auto simp: ap_inv_def)
qed

lemma ap_inv_take:
  assumes inv: "ap_inv content file base w" and pc: "syncPc w = SyTake"
  shows "\<exists>w'. sync_take w = Inr w' \<and> ap_inv content file base w'"
proof -
  obtain c q where c: "cacheBuffer (ap w) = Some c" "piece c (text_of c)" "sy_cache w = Some q" "piece q []" "sy_buffers w = []"
    using inv pc by (auto simp: ap_inv_def)
  then show ?thesis using inv pc holds_text[OF c(4)] holds_text[OF c(2)]
    by (auto simp: sync_take_def ap_inv_def Let_def)
qed

lemma ap_inv_write:
  assumes io: "io_healthy IO content" and inv: "ap_inv content file base w"
  shows "\<exists>w'. sync_write IO now w = Inr w' \<and> ap_inv content file base w' \<and> syncPc w' = SyTest"
proof -
  obtain bs where bs: "drop_buffers (sy_buffers w) = Inr bs" "list_all (\<lambda>b. piece b (text_of b)) bs"
    "length (sy_buffers w) \<le> kMaximumOfLogBuffer \<longrightarrow> bs = sy_buffers w"
    using drop_buffers_ok[of "sy_buffers w"] inv by (auto simp: ap_inv_def)
  obtain l f where w: "syncSingleFile IO bs (logFile (ap w), fs w) = Inr (l, f)" "lf_file l = file"
    "content f file = content (fs w) file @ texts bs"
    using syncSingleFile_healthy[OF io bs(2), of "logFile (ap w)" "fs w"] inv by (auto simp: ap_inv_def)
  have "content (io_fflush IO file f) file = content f file" using io by (simp add: io_healthy_def)
  then show ?thesis using inv bs w new_piece_empty
    by (auto simp: sync_write_def syncFile_def ap_inv_def)
qed

lemma ap_step_inv:
  assumes io: "io_healthy IO content" and "ap_step IO w w'" and inv: "ap_inv content file base w"
  shows "ap_inv content file base w'"
  using assms(2)
proof cases
  case (step_append b s a)
  then show ?thesis using ap_inv_append[OF inv step_append(2)] by auto
next
  case step_take
  then show ?thesis using ap_inv_take[OF inv] by auto
next
  case (step_write now)
  then show ?thesis using ap_inv_write[OF io inv, of now] by auto
next
  case step_end
  have "lf_file (logFile (ap w)) = file" using inv by (simp add: ap_inv_def)
  then show ?thesis using inv io step_end by (auto simp: ap_inv_def io_healthy_def)
qed (use inv in \<open>auto simp: ap_inv_def\<close>)

lemma ap_steps_inv:
  assumes "io_healthy IO content" and "ap_steps IO (ap_start l SINGLE_FILE f) w"
  shows "ap_inv content (lf_file l) (content f (lf_file l)) w"
  using assms(2) by (induction rule: rtranclp_induct) (use ap_inv_start ap_step_inv[OF assms(1)] in auto)

lemma sync_write_frame:
  assumes "sync_write IO now w = Inr w'"
  shows "ap_buffers (ap w') = ap_buffers (ap w)" "cacheBuffer (ap w') = cacheBuffer (ap w)" "appended w' = appended w"
    "sy_buffers w' = []" "length (sy_buffers w) \<le> kMaximumOfLogBuffer \<Longrightarrow> drops w' = drops w"
  using assms by (cases "drop_buffers (sy_buffers w)"; auto simp: sync_write_def ebind_def split: sum.splits)+

lemma sync_take_cases:
  assumes inv: "ap_inv content file base w" and pc: "syncPc w = SyTake" and t: "sync_take w = Inr w1"
  shows "appended w1 = appended w \<and> drops w1 = drops w \<and> fs w1 = fs w \<and> ap_buffers (ap w1) = [] \<and>
    (\<exists>q. cacheBuffer (ap w1) = Some q \<and> text_of q = []) \<and> length (sy_buffers w1) \<le> Suc (length (ap_buffers (ap w))) \<and>
    (syncPc w1 = SyWrite \<or> sy_buffers w1 = [])"
proof -
  obtain c q where c: "cacheBuffer (ap w) = Some c" "piece c (text_of c)" "sy_cache w = Some q" "piece q []" "sy_buffers w = []"
    using inv pc by (auto simp: ap_inv_def)
  moreover have "text_of q = []" using holds_text[OF c(4)] .
  moreover have "sb_writerIndex c = 0 \<Longrightarrow> text_of c = []" by (simp add: text_of_def)
  ultimately show ?thesis using t pc by (auto simp: sync_take_def Let_def split: if_splits)
qed

text \<open>
  C25. A single log file gets every line exactly once and in order, whichever threads append while
  the background thread writes: as long as the thread never finds more than 24 full buffers (then
  it drops half of them and says so in the file), the contents of the file followed by the batch
  being written, the full buffers and the current buffer are the old contents followed by the
  lines appended. When the thread comes to take over the buffers, its next write puts all lines
  appended so far into the file.
\<close>

theorem file_log_no_loss:
  assumes io: "io_healthy IO content" and st: "ap_steps IO (ap_start l SINGLE_FILE f) w" and d: "drops w = 0"
  shows "(\<exists>c. cacheBuffer (ap w) = Some c \<and>
      content (fs w) (lf_file l) @ texts (sy_buffers w) @ texts (ap_buffers (ap w)) @ text_of c =
        content f (lf_file l) @ concat (appended w)) \<and>
    (syncPc w = SyTake \<and> length (ap_buffers (ap w)) < kMaximumOfLogBuffer \<longrightarrow>
      (\<exists>w1. sync_take w = Inr w1 \<and>
        (if syncPc w1 = SyWrite
         then \<exists>w2. sync_write IO now w1 = Inr w2 \<and> content (fs w2) (lf_file l) = content f (lf_file l) @ concat (appended w)
         else content (fs w1) (lf_file l) = content f (lf_file l) @ concat (appended w))))"
proof -
  note inv = ap_steps_inv[OF io st]
  have "\<exists>w1. sync_take w = Inr w1 \<and>
        (if syncPc w1 = SyWrite
         then \<exists>w2. sync_write IO now w1 = Inr w2 \<and> content (fs w2) (lf_file l) = content f (lf_file l) @ concat (appended w)
         else content (fs w1) (lf_file l) = content f (lf_file l) @ concat (appended w))"
    if pc: "syncPc w = SyTake" and few: "length (ap_buffers (ap w)) < kMaximumOfLogBuffer"
  proof -
    obtain w1 where t: "sync_take w = Inr w1" and inv1: "ap_inv content (lf_file l) (content f (lf_file l)) w1"
      using ap_inv_take[OF inv pc] by blast
    note c1 = sync_take_cases[OF inv pc t]
    obtain w2 where w2: "sync_write IO now w1 = Inr w2" and inv2: "ap_inv content (lf_file l) (content f (lf_file l)) w2"
      using ap_inv_write[OF io inv1] by blast
    have "content (fs w2) (lf_file l) = content f (lf_file l) @ concat (appended w)"
      using inv2 sync_write_frame[OF w2] c1 few d by (auto simp: ap_inv_def)
    moreover have "syncPc w1 \<noteq> SyWrite \<Longrightarrow> content (fs w1) (lf_file l) = content f (lf_file l) @ concat (appended w)"
      using inv1 c1 d by (auto simp: ap_inv_def)
    ultimately show ?thesis using t w2 by auto
  qed
  then show ?thesis using inv d by (auto simp: ap_inv_def)
qed

text \<open>A file system that is a map from paths to contents.\<close>

definition map_io :: "(path \<Rightarrow> string) stdio" where
  "map_io = \<lparr>io_access = (\<lambda>p f. True), io_mkdir = (\<lambda>p f. (True, f)), io_fopen = (\<lambda>p f. (True, f)),
     io_fclose = (\<lambda>p f. f), io_fwrite = (\<lambda>p d f. ((length d, False), f(p := f p @ d))), io_fflush = (\<lambda>p f. f),
     io_rename = (\<lambda>p q f. f(q := f p, p := [])), io_fstat = (\<lambda>p f. Some (length (f p), 0)),
     io_stamp = (\<lambda>t. dec (nat t))\<rparr>"

definition demo_log :: log_file where
  "demo_log = \<lparr>lf_dir = [], lf_file = ''a.log'', lf_bytes = 0, lf_lastRollTime = 0\<rparr>"

lemma map_io_healthy: "io_healthy map_io (\<lambda>f p. f p)"
  by (simp add: io_healthy_def map_io_def)

lemma a_line: "\<exists>b. holds kLogBufferSize b ''hi''"
proof -
  have "holds kLogBufferSize (sb_new kLogBufferSize) []" by (rule holds_new) (simp_all add: kLogBufferSize_def size_mod_def)
  from sb_writeBytes_holds[OF this, of "''hi''"] show ?thesis by (auto simp: kLogBufferSize_def)
qed

text \<open>One line appended, and the thread about to take it over.\<close>

lemma demo_run:
  "\<exists>w. ap_steps map_io (ap_start demo_log SINGLE_FILE (\<lambda>p :: path. ''x'')) w \<and> syncPc w = SyTake \<and> drops w = 0 \<and>
     appended w = [''hi''] \<and> length (ap_buffers (ap w)) < kMaximumOfLogBuffer"
proof -
  let ?w = "ap_start demo_log SINGLE_FILE (\<lambda>p :: path. ''x'')"
  obtain b where b: "holds kLogBufferSize b ''hi''" using a_line by blast
  obtain c' old where a: "ap_append b (ap ?w) = Inr ((ap ?w)\<lparr>cacheBuffer := Some c', ap_buffers := ap_buffers (ap ?w) @ old,
      backupCacheBuffer := (if old = [] then backupCacheBuffer (ap ?w) else None)\<rparr>)" "length old \<le> 1"
    using ap_append_ok[OF b, of "ap ?w" new_piece "[]"] new_piece_empty by (auto simp: ap_start_def ap_new_def)
  let ?a = "(ap ?w)\<lparr>cacheBuffer := Some c', ap_buffers := ap_buffers (ap ?w) @ old,
      backupCacheBuffer := (if old = [] then backupCacheBuffer (ap ?w) else None)\<rparr>"
  let ?w1 = "?w\<lparr>ap := ?a, appended := appended ?w @ [''hi'']\<rparr>"
  have "ap_step map_io ?w ?w1" by (rule step_append[OF b a(1)])
  moreover have "ap_step map_io ?w1 (?w1\<lparr>syncPc := SyTake\<rparr>)"
    by (rule step_test) (simp_all add: ap_start_def ap_new_def)
  ultimately have "ap_steps map_io ?w (?w1\<lparr>syncPc := SyTake\<rparr>)" by auto
  then show ?thesis using a(2)
    by (intro exI[of _ "?w1\<lparr>syncPc := SyTake\<rparr>"]) (simp add: ap_start_def ap_new_def kMaximumOfLogBuffer_def)
qed

theorem file_log_no_loss_witness:
  "\<exists>w w1. ap_steps map_io (ap_start demo_log SINGLE_FILE (\<lambda>p :: path. ''x'')) w \<and> sync_take w = Inr w1 \<and>
     (if syncPc w1 = SyWrite then \<exists>w2. sync_write map_io 0 w1 = Inr w2 \<and> fs w2 ''a.log'' = ''xhi'' else fs w1 ''a.log'' = ''xhi'')"
proof -
  obtain w where w: "ap_steps map_io (ap_start demo_log SINGLE_FILE (\<lambda>p :: path. ''x'')) w" "syncPc w = SyTake" "drops w = 0"
    "appended w = [''hi'']" "length (ap_buffers (ap w)) < kMaximumOfLogBuffer" using demo_run by blast
  obtain w1 where w1: "sync_take w = Inr w1"
    "if syncPc w1 = SyWrite then \<exists>w2. sync_write map_io 0 w1 = Inr w2 \<and> fs w2 (lf_file demo_log) = ''x'' @ concat (appended w)
     else fs w1 (lf_file demo_log) = ''x'' @ concat (appended w)"
    using file_log_no_loss[OF map_io_healthy w(1,3), of 0] w(2,5) by blast
  have "lf_file demo_log = ''a.log''" "''x'' @ concat (appended w) = ''xhi''" using w(4) by (simp_all add: demo_log_def)
  then show ?thesis using w(1) w1 by metis
qed

section \<open>Where lines are lost\<close>

text \<open>The thread ends at the test of its loop, whatever has been appended since its last batch.\<close>

lemma lines_lost_at_shutdown:
  "\<exists>w. ap_steps map_io (ap_start demo_log SINGLE_FILE (\<lambda>p :: path. ''x'')) w \<and> syncPc w = SyEnd \<and>
     appended w = [''hi''] \<and> fs w ''a.log'' = ''x''"
proof -
  let ?w = "ap_start demo_log SINGLE_FILE (\<lambda>p :: path. ''x'')"
  obtain b where b: "holds kLogBufferSize b ''hi''" using a_line by blast
  obtain a where a: "ap_append b (ap ?w) = Inr a"
    using ap_inv_append[OF ap_inv_start[of "\<lambda>f p. f p" demo_log "\<lambda>p :: path. ''x''"] b] by blast
  let ?w1 = "?w\<lparr>ap := a, appended := appended ?w @ [''hi'']\<rparr>"
  let ?w2 = "?w1\<lparr>ap := (ap ?w1)\<lparr>ap_running := False\<rparr>\<rparr>"
  let ?w3 = "?w2\<lparr>fs := io_fflush map_io (lf_file (logFile (ap ?w2))) (fs ?w2), syncPc := SyEnd\<rparr>"
  have "ap_step map_io ?w ?w1" by (rule step_append[OF b a])
  moreover have "ap_step map_io ?w1 ?w2" by (rule step_stop)
  moreover have "ap_step map_io ?w2 ?w3" by (rule step_end) (simp_all add: ap_start_def)
  ultimately have "ap_steps map_io ?w ?w3" by auto
  then show ?thesis by (intro exI[of _ ?w3]) (simp add: ap_start_def map_io_def)
qed

lemma lf_write_map:
  "\<exists>l'. lf_write map_io d (l, f) = Inr (l', f(lf_file l := f (lf_file l) @ d)) \<and> lf_file l' = lf_file l \<and> lf_dir l' = lf_dir l"
proof (cases "d = []")
  case True
  then show ?thesis by (auto simp: lf_write_def write_loop.simps)
next
  case False
  have "write_loop map_io (lf_file l) d (length d) f' = Some (length d, f')" for f' by (simp add: write_loop.simps)
  then show ?thesis using False
    by (subst lf_write_def, subst write_loop.simps) (auto simp: map_io_def)
qed

text \<open>
  A batch is rolled with one time stamp. Two buffers that both reach the rolling size (a full
  buffer of 2 MB does, with the default of 1 MB) are given the same new name: the second rename
  replaces what the first one had saved, so the old contents of the log are gone.
\<close>

lemma rolling_batch_overwrites:
  fixes f :: "path \<Rightarrow> string"
  assumes b: "piece b1 s1" "piece b2 s2" and l: "lf_dir l = []" "lf_file l \<noteq> dec (nat now) @ ''.log''"
    and roll: "R \<le> sz_add (lf_bytes l) (length s1) div 1024" "\<And>n. R \<le> sz_add n (length s2) div 1024"
  shows "\<exists>l'. syncRollingFile map_io R now [b1, b2] (l, f) =
    Inr (l', f(lf_file l := s2, dec (nat now) @ ''.log'' := s1))"
proof -
  let ?F = "lf_file l" and ?T = "dec (nat now) @ ''.log''"
  have ren: "\<exists>k'. renameByNowTime map_io now (k, g) = Inr (k', g(?T := g (lf_file k), lf_file k := [])) \<and>
      lf_file k' = lf_file k \<and> lf_dir k' = lf_dir k" if "lf_dir k = []" for k g
    using that by (auto simp: renameByNowTime_def map_io_def getFileInfo_def kLogFileSuffix_def Let_def)
  have len: "sb_writerIndex b1 = length s1" "sb_writerIndex b2 = length s2" using b by (simp_all add: holds_def)
  let ?g = "f(?T := f ?F, ?F := s1)"
  obtain l1 where r1: "renameByNowTime map_io now (l, f) = Inr (l1, f(?T := f ?F, ?F := []))"
    "lf_file l1 = ?F" "lf_dir l1 = []" using ren[of l f] l(1) by auto
  obtain l2 where w1: "lf_write map_io s1 (l1, f(?T := f ?F, ?F := [])) = Inr (l2, ?g)" "lf_file l2 = ?F" "lf_dir l2 = []"
    using lf_write_map[of s1 l1 "f(?T := f ?F, ?F := [])"] r1(2,3) by auto
  obtain l3 where r2: "renameByNowTime map_io now (l2, ?g) = Inr (l3, ?g(?T := s1, ?F := []))" "lf_file l3 = ?F" "lf_dir l3 = []"
    using ren[of l2 ?g] w1(2,3) by auto
  obtain l4 where w2: "lf_write map_io s2 (l3, ?g(?T := s1, ?F := [])) = Inr (l4, ?g(?T := s1, ?F := s2))"
    using lf_write_map[of s2 l3 "?g(?T := s1, ?F := [])"] r2(2,3) by auto
  have "?g(?T := s1, ?F := s2) = f(?F := s2, ?T := s1)" using l(2) by (auto simp: fun_eq_iff)
  then show ?thesis using r1 w1 r2 w2 holds_read[OF b(1)] holds_read[OF b(2)] roll len by simp
qed

text \<open>Directories are created from the root, also for a relative path.\<close>

lemma mkdirR_relative:
  assumes "\<not> io_access IO ''log/'' f" and "\<not> io_access IO ''/log'' f" and "io_mkdir IO ''/log'' f = (True, g)"
  shows "mkdirR IO ''log/'' f = (Inr (), g)"
  using assms by (simp add: mkdirR_def kMaxFilePathLength_def)

end
