(* ===== verification/Futures.thy ===== *)
theory Futures
  imports Thread_Pool Event_Loop
begin

text \<open>
  \<^verbatim>\<open>submit\<close> of \<^verbatim>\<open>ThreadPool\<close> and of \<^verbatim>\<open>EventLoop\<close>, and \<^verbatim>\<open>execute\<close> of the latter: a function is wrapped
  in a closure that fulfils a promise, and the closure is handed over. What the caller's future
  gets is read off the promise.
\<close>

section \<open>Promises\<close>

text \<open>
  A function returns or throws; what it throws derives from \<^verbatim>\<open>std::exception\<close> or not.
  \<^verbatim>\<open>make_exception_ptr(exception)\<close> of a reference to \<^verbatim>\<open>std::exception\<close> stores a copy of that base class.
\<close>

datatype thrown = StdDerived string | OtherThrown nat

datatype stored = StdException | SameObject nat | NoState | BrokenPromise

datatype 'a promise = Unset | HasValue 'a | HasException stored

text \<open>Setting a promise that is set throws a \<^verbatim>\<open>future_error\<close>, which derives from \<^verbatim>\<open>std::exception\<close>.\<close>

fun set_value :: "'a \<Rightarrow> 'a promise \<Rightarrow> 'a promise res" where
  "set_value v Unset = Inr (HasValue v)"
| "set_value v _ = Inl (Throw (FutureError ''future_error''))"

fun set_exception :: "stored \<Rightarrow> 'a promise \<Rightarrow> 'a promise res" where
  "set_exception e Unset = Inr (HasException e)"
| "set_exception e _ = Inl (Throw (FutureError ''future_error''))"

text \<open>The body of the closure, run on a function with outcome \<open>r\<close>.\<close>

definition promise_task :: "'a + thrown \<Rightarrow> 'a promise \<Rightarrow> 'a promise res" where
  "promise_task r p =
     (case r of
        Inl v \<Rightarrow> (case set_value v p of Inr p \<Rightarrow> Inr p | Inl e \<Rightarrow> set_exception StdException p)
      | Inr (StdDerived n) \<Rightarrow> set_exception StdException p
      | Inr (OtherThrown n) \<Rightarrow> set_exception (SameObject n) p)"

text \<open>The body of the closure for a function without a result: the promise is set without a value.\<close>

definition promise_task_void :: "unit + thrown \<Rightarrow> unit promise \<Rightarrow> unit promise res" where
  "promise_task_void r p =
     (case r of
        Inl _ \<Rightarrow> (case set_value () p of Inr p \<Rightarrow> Inr p | Inl e \<Rightarrow> set_exception StdException p)
      | Inr (StdDerived n) \<Rightarrow> set_exception StdException p
      | Inr (OtherThrown n) \<Rightarrow> set_exception (SameObject n) p)"

text \<open>When the last reference to a promise that is not set goes, its future gets the error for that.\<close>

definition abandon :: "'a promise \<Rightarrow> 'a promise" where
  "abandon p = (case p of Unset \<Rightarrow> HasException BrokenPromise | _ \<Rightarrow> p)"

section \<open>submit\<close>

text \<open>\<open>accepted\<close> is what \<^verbatim>\<open>execute\<close> of the pool returned.\<close>

definition pool_submit_result :: "bool \<Rightarrow> 'a promise \<Rightarrow> 'a promise res" where
  "pool_submit_result taken p = (if \<not> taken then set_exception NoState p else Inr p)"

definition pool_submit_void_result :: "bool \<Rightarrow> unit promise \<Rightarrow> unit promise res" where
  "pool_submit_void_result taken p = (if \<not> taken then set_exception NoState p else Inr p)"

text \<open>\<^verbatim>\<open>execute\<close> of the loop: in its own thread at once, otherwise as a task (number \<open>t\<close>).\<close>

definition loop_execute :: "bool \<Rightarrow> ('s \<Rightarrow> 's) \<Rightarrow> nat \<Rightarrow> event_loop \<times> 's \<Rightarrow> event_loop \<times> 's" where
  "loop_execute isInCurrentEventLoop func t = (\<lambda>(l, s).
     if isInCurrentEventLoop then (l, func s) else (addTask_notify isInCurrentEventLoop (addTask_push t l), s))"

definition loop_submit :: "bool \<Rightarrow> 'a + thrown \<Rightarrow> nat \<Rightarrow> event_loop \<Rightarrow> event_loop \<times> 'a promise res" where
  "loop_submit isInCurrentEventLoop r t l =
     loop_execute isInCurrentEventLoop (\<lambda>p. ebind p (promise_task r)) t (l, Inr Unset)"

definition loop_submit_void :: "bool \<Rightarrow> unit + thrown \<Rightarrow> nat \<Rightarrow> event_loop \<Rightarrow> event_loop \<times> unit promise res" where
  "loop_submit_void isInCurrentEventLoop r t l =
     loop_execute isInCurrentEventLoop (\<lambda>p. ebind p (promise_task_void r)) t (l, Inr Unset)"

text \<open>The two overloads of \<^verbatim>\<open>submit\<close> are separate templates with the same meaning.\<close>

lemma submit_void_is_submit:
  "promise_task_void = promise_task" "pool_submit_void_result = pool_submit_result" "loop_submit_void = loop_submit"
proof -
  show *: "promise_task_void = promise_task"
    by (simp add: fun_eq_iff promise_task_void_def promise_task_def split: sum.split)
  show "pool_submit_void_result = pool_submit_result"
    by (simp add: fun_eq_iff pool_submit_void_result_def pool_submit_result_def)
  show "loop_submit_void = loop_submit" by (simp add: fun_eq_iff loop_submit_void_def loop_submit_def *)
qed

section \<open>Every future of the pool is resolved\<close>

text \<open>The future of a task of the pool, once its function (with outcome \<open>r\<close>) has returned if it was started.\<close>

definition pool_future :: "'a + thrown \<Rightarrow> nat \<Rightarrow> pool \<Rightarrow> 'a promise res" where
  "pool_future r t p =
     (if t \<in># rejected p then pool_submit_result False Unset
      else if t \<in># started p then promise_task r Unset
      else if t \<in># discarded p then Inr (abandon Unset)
      else Inr Unset)"

lemma fresh_promise [simp]:
  "promise_task (Inl v) Unset = Inr (HasValue v)"
  "promise_task (Inr (StdDerived n)) Unset = Inr (HasException StdException)"
  "promise_task (Inr (OtherThrown k)) Unset = Inr (HasException (SameObject k))"
  "pool_submit_result False Unset = Inr (HasException NoState)" "abandon Unset = HasException BrokenPromise"
  by (simp_all add: promise_task_def pool_submit_result_def abandon_def)

text \<open>
  A task that was submitted once and is neither inside \<^verbatim>\<open>execute\<close> nor waiting in the queue has met
  exactly one of three fates, and its future is set accordingly: refused with \<^verbatim>\<open>no_state\<close>, run with
  the value or exception of its function, or abandoned by \<^verbatim>\<open>shutdown\<close>.
\<close>

lemma pool_future_resolved:
  assumes "pool_new core maxi queueSize = Inr p" and "maxi < 2 ^ 30" and "pool_steps p p'"
    and once: "count (submitted p') t = 1" and away: "\<forall>c. c \<in># clients p' \<longrightarrow> t \<notin># pending c"
    and "t \<notin> set (queue (taskQueue p'))"
  shows "t \<in># rejected p' \<and> t \<notin># started p' + discarded p' \<and> pool_future r t p' = Inr (HasException NoState) \<or>
    t \<in># started p' \<and> t \<notin># rejected p' + discarded p' \<and> pool_future r t p' = promise_task r Unset \<or>
    t \<in># discarded p' \<and> t \<notin># rejected p' + started p' \<and> pool_future r t p' = Inr (HasException BrokenPromise)"
proof -
  have eq: "submitted p' = (\<Sum>c\<in>#clients p'. pending c) + rejected p' + started p' + mset (queue (taskQueue p')) + discarded p'"
    using pool_steps_inv[OF assms(3) pool_new_inv[OF assms(1,2)]] by (simp add: pool_inv_def task_inv_def)
  have "count (\<Sum>c\<in>#M. pending c) t = 0" if "\<forall>c. c \<in># M \<longrightarrow> t \<notin># pending c" for M
    using that by (induction M) (auto simp: not_in_iff)
  then have "count (\<Sum>c\<in>#clients p'. pending c) t = 0" using away by blast
  moreover have "count (mset (queue (taskQueue p'))) t = 0" using assms(6) by (simp add: count_mset_0_iff)
  moreover have "count (submitted p') t = count (\<Sum>c\<in>#clients p'. pending c) t + count (rejected p') t +
      count (started p') t + count (mset (queue (taskQueue p'))) t + count (discarded p') t" by (simp add: eq)
  ultimately have "count (rejected p') t + count (started p') t + count (discarded p') t = 1"
    using once by linarith
  then consider "count (rejected p') t = 1" "count (started p') t = 0" "count (discarded p') t = 0"
    | "count (rejected p') t = 0" "count (started p') t = 1" "count (discarded p') t = 0"
    | "count (rejected p') t = 0" "count (started p') t = 0" "count (discarded p') t = 1" by linarith
  then show ?thesis
  proof cases
    case 1
    then show ?thesis by (simp add: pool_future_def count_greater_zero_iff[symmetric] not_in_iff)
  next
    case 2
    then show ?thesis by (simp add: pool_future_def count_greater_zero_iff[symmetric] not_in_iff)
  next
    case 3
    then show ?thesis by (simp add: pool_future_def count_greater_zero_iff[symmetric] not_in_iff)
  qed
qed

text \<open>A \<^verbatim>\<open>submit\<close> from another thread posts the closure; from the loop's own thread it runs at once.\<close>

lemma loop_submit_cases:
  "loop_submit True r t l = (l, promise_task r Unset)"
  "snd (loop_submit False r t l) = Inr Unset \<and> posted (fst (loop_submit False r t l)) = posted l @ [t]"
  by (simp_all add: loop_submit_def loop_execute_def addTask_notify_def addTask_push_def)

end
