(* ===== verification/Thread_Helper.thy ===== *)
theory Thread_Helper
  imports Stack_Buffer
begin

text \<open>
  \<^verbatim>\<open>nets/base/ThreadHelper.{h,cpp}\<close>: what every thread keeps about itself, the cached kernel id and
  its name in a fixed array. The answers of \<^verbatim>\<open>gettid\<close>, \<^verbatim>\<open>getpid\<close> and of \<^verbatim>\<open>backtrace\<close> are parameters.
\<close>

section \<open>Thread-local state\<close>

definition kThreadNameMaxLength :: nat where "kThreadNameMaxLength = 64"
definition kMainThreadName :: string where "kMainThreadName = ''Main''"

record thread_locals =
  tCacheTid :: int
  tThreadName :: string

definition thread_locals_init :: thread_locals where
  "thread_locals_init = \<lparr>tCacheTid = 0, tThreadName = ''unnamed'' @ replicate (kThreadNameMaxLength - 7) NUL\<rparr>"

text \<open>\<^verbatim>\<open>strlen\<close> reads up to the first zero byte.\<close>

abbreviation c_str :: "string \<Rightarrow> string" where "c_str s \<equiv> takeWhile (\<lambda>c. c \<noteq> NUL) s"

definition currentTid :: "int \<Rightarrow> 'a thread_locals_scheme \<Rightarrow> int \<times> 'a thread_locals_scheme" where
  "currentTid getTid t =
     (let t = (if tCacheTid t \<le> 0 then t\<lparr>tCacheTid := getTid\<rparr> else t) in (tCacheTid t, t))"

definition isMainThread :: "int \<Rightarrow> int \<Rightarrow> 'a thread_locals_scheme \<Rightarrow> bool \<times> 'a thread_locals_scheme" where
  "isMainThread getpid getTid t = (let (tid, t) = currentTid getTid t in (getpid = tid, t))"

text \<open>\<^verbatim>\<open>MEMZERO\<close> of the whole array, then \<^verbatim>\<open>memcpy\<close> of as many bytes as the name has.\<close>

definition setCurrentThreadName :: "string \<Rightarrow> 'a thread_locals_scheme \<Rightarrow> 'a thread_locals_scheme res" where
  "setCurrentThreadName threadName t =
     ebind (memzero (tThreadName t) kThreadNameMaxLength) (\<lambda>buf.
     ebind (mem_write buf 0 (c_str threadName)) (\<lambda>buf. Inr (t\<lparr>tThreadName := buf\<rparr>)))"

text \<open>The pointer to the array, read as a C string by the caller.\<close>

definition currentThreadName :: "'a thread_locals_scheme \<Rightarrow> string res" where
  "currentThreadName t = (if NUL \<in> set (tThreadName t) then Inr (c_str (tThreadName t)) else Inl Undefined)"

definition afterFork :: "'a thread_locals_scheme \<Rightarrow> 'a thread_locals_scheme res" where
  "afterFork t = (let t = t\<lparr>tCacheTid := 0\<rparr> in
     ebind (memzero (tThreadName t) kThreadNameMaxLength) (\<lambda>buf.
     ebind (mem_write buf 0 kMainThreadName) (\<lambda>buf. Inr (t\<lparr>tThreadName := buf\<rparr>))))"

text \<open>The static initializer, which runs in the main thread; it also registers \<^verbatim>\<open>afterFork\<close>.\<close>

definition ThreadInitializer :: "int \<Rightarrow> 'a thread_locals_scheme \<Rightarrow> 'a thread_locals_scheme res" where
  "ThreadInitializer getTid t = (let (tid, t) = currentTid getTid t in
     ebind (memzero (tThreadName t) kThreadNameMaxLength) (\<lambda>buf.
     ebind (mem_write buf 0 kMainThreadName) (\<lambda>buf. Inr (t\<lparr>tThreadName := buf\<rparr>))))"

text \<open>
  \<open>addrs\<close> are the return addresses of the stack, \<open>symbols\<close> is \<^verbatim>\<open>backtrace_symbols\<close>; the frame of
  \<^verbatim>\<open>stackTrace\<close> itself is left out.
\<close>

definition kMaxBackTraceSize :: nat where "kMaxBackTraceSize = 24"

definition stackTrace :: "'addr list \<Rightarrow> ('addr list \<Rightarrow> string list option) \<Rightarrow> string" where
  "stackTrace addrs symbols =
     (let addrList = take kMaxBackTraceSize addrs
      in if length addrList = 0 then []
         else case symbols addrList of
                None \<Rightarrow> []
              | Some symbolList \<Rightarrow> concat (map (\<lambda>i. symbolList ! i @ [CHR 0x0A]) [1..<length addrList]))"

section \<open>The array always holds a name\<close>

text \<open>A name of less than 64 characters without a zero byte, padded with zero bytes.\<close>

definition names :: "string \<Rightarrow> string \<Rightarrow> bool" where
  "names buf s \<longleftrightarrow> buf = s @ replicate (kThreadNameMaxLength - length s) NUL \<and>
     length s < kThreadNameMaxLength \<and> NUL \<notin> set s"

definition thread_is :: "'a thread_locals_scheme \<Rightarrow> int \<Rightarrow> string \<Rightarrow> bool" where
  "thread_is t tid s \<longleftrightarrow> 0 < tid \<and> (tCacheTid t \<le> 0 \<or> tCacheTid t = tid) \<and> names (tThreadName t) s"

lemma c_str_id: "NUL \<notin> set s \<Longrightarrow> c_str s = s"
  by (auto simp: takeWhile_eq_all_conv)

lemma c_str_no_NUL: "NUL \<notin> set (c_str s)"
  by (auto dest: set_takeWhileD)

lemma c_str_padded: "NUL \<notin> set s \<Longrightarrow> c_str (s @ replicate n NUL) = s"
  by (cases n) (auto simp: takeWhile_append c_str_id)

lemma set_name_names:
  assumes "length (tThreadName t) = kThreadNameMaxLength" and "length s < kThreadNameMaxLength" and "NUL \<notin> set s"
  shows "\<exists>buf. ebind (memzero (tThreadName t) kThreadNameMaxLength) (\<lambda>buf. mem_write buf 0 s) = Inr buf \<and> names buf s"
  using assms by (auto simp: memzero_def mem_write_def names_def)

lemma names_length: "names buf s \<Longrightarrow> length buf = kThreadNameMaxLength"
  by (auto simp: names_def)

lemma main_name_ok: "length kMainThreadName < kThreadNameMaxLength" "NUL \<notin> set kMainThreadName"
  by (simp_all add: kMainThreadName_def kThreadNameMaxLength_def)

lemma thread_is_init: "0 < tid \<Longrightarrow> thread_is thread_locals_init tid ''unnamed''"
  by (simp add: thread_is_def names_def thread_locals_init_def kThreadNameMaxLength_def)

lemma currentTid_is:
  "thread_is t tid s \<Longrightarrow> fst (currentTid tid t) = tid \<and> thread_is (snd (currentTid tid t)) tid s"
  by (auto simp: thread_is_def currentTid_def Let_def)

lemma currentThreadName_is: "thread_is t tid s \<Longrightarrow> currentThreadName t = Inr s"
  by (auto simp: thread_is_def names_def currentThreadName_def c_str_padded)

lemma setCurrentThreadName_is:
  assumes "thread_is t tid s" and "length (c_str n) < kThreadNameMaxLength"
  shows "\<exists>t'. setCurrentThreadName n t = Inr t' \<and> thread_is t' tid (c_str n)"
  using assms set_name_names[of t "c_str n"] names_length[of "tThreadName t" s] c_str_no_NUL[of n]
  by (auto simp: setCurrentThreadName_def thread_is_def ebind_eq_Inr)

lemma afterFork_is:
  assumes "thread_is t tid s" and "0 < tid'"
  shows "\<exists>t'. afterFork t = Inr t' \<and> thread_is t' tid' kMainThreadName"
  using assms set_name_names[of t kMainThreadName] names_length[of "tThreadName t" s] main_name_ok
  by (auto simp: afterFork_def thread_is_def ebind_eq_Inr Let_def)

lemma ThreadInitializer_is:
  assumes "thread_is t tid s"
  shows "\<exists>t'. ThreadInitializer tid t = Inr t' \<and> thread_is t' tid kMainThreadName"
  using assms set_name_names[of t kMainThreadName] names_length[of "tThreadName t" s] main_name_ok
  by (auto simp: ThreadInitializer_def thread_is_def currentTid_def ebind_eq_Inr Let_def)

text \<open>A name of exactly 64 characters is stored without its end; a longer one is written past the array.\<close>

lemma setCurrentThreadName_long:
  assumes "thread_is t tid s"
  shows "length (c_str n) = kThreadNameMaxLength \<Longrightarrow> \<exists>t'. setCurrentThreadName n t = Inr t' \<and> currentThreadName t' = Inl Undefined"
    and "length (c_str n) > kThreadNameMaxLength \<Longrightarrow> setCurrentThreadName n t = Inl Undefined"
  using assms names_length[of "tThreadName t" s] c_str_no_NUL[of n]
  by (auto simp: setCurrentThreadName_def memzero_def mem_write_def thread_is_def currentThreadName_def)

section \<open>The functions as a specification\<close>

datatype thread_op = TCurrentTid | TIsMain int | TSetName string | TName | TFork int

datatype thread_result = RTid int | RBool bool | RName string | RUnit

text \<open>The state has the id the kernel knows the thread by; in the child of a fork it is a new one.\<close>

definition thread_exec ::
    "thread_op \<Rightarrow> int \<times> 'a thread_locals_scheme \<Rightarrow> (thread_result \<times> int \<times> 'a thread_locals_scheme) res" where
  "thread_exec op c = (case c of (k, t) \<Rightarrow>
     (case op of
        TCurrentTid \<Rightarrow> (let (i, t) = currentTid k t in Inr (RTid i, k, t))
      | TIsMain p \<Rightarrow> (let (b, t) = isMainThread p k t in Inr (RBool b, k, t))
      | TSetName n \<Rightarrow> ebind (setCurrentThreadName n t) (\<lambda>t. Inr (RUnit, k, t))
      | TName \<Rightarrow> ebind (currentThreadName t) (\<lambda>n. Inr (RName n, k, t))
      | TFork k' \<Rightarrow> ebind (afterFork t) (\<lambda>t. Inr (RUnit, k', t))))"

fun thread_spec :: "thread_op \<Rightarrow> int \<times> string \<Rightarrow> thread_result \<times> int \<times> string" where
  "thread_spec TCurrentTid (k, s) = (RTid k, k, s)"
| "thread_spec (TIsMain p) (k, s) = (RBool (p = k), k, s)"
| "thread_spec (TSetName n) (k, s) = (RUnit, k, c_str n)"
| "thread_spec TName (k, s) = (RName s, k, s)"
| "thread_spec (TFork k') (k, s) = (RUnit, k', kMainThreadName)"

fun thread_allowed :: "thread_op \<Rightarrow> int \<times> string \<Rightarrow> bool" where
  "thread_allowed (TSetName n) a \<longleftrightarrow> length (c_str n) < kThreadNameMaxLength"
| "thread_allowed (TFork k') a \<longleftrightarrow> 0 < k'"
| "thread_allowed _ a \<longleftrightarrow> True"

definition thread_rel :: "int \<times> 'a thread_locals_scheme \<Rightarrow> int \<times> string \<Rightarrow> bool" where
  "thread_rel c a \<longleftrightarrow> fst c = fst a \<and> thread_is (snd c) (fst a) (snd a)"

interpretation th: simulation thread_exec thread_spec thread_allowed thread_rel
proof unfold_locales
  fix c :: "int \<times> 'a thread_locals_scheme" and a op
  assume rel: "thread_rel c a" and ok: "thread_allowed op a"
  obtain k t s where c: "c = (k, t)" "a = (k, s)" "thread_is t k s"
    using rel by (cases c; cases a) (auto simp: thread_rel_def)
  show "\<exists>c'. thread_exec op c = Inr (fst (thread_spec op a), c') \<and> thread_rel c' (snd (thread_spec op a))"
    using ok c(3) currentTid_is[OF c(3)] currentThreadName_is[OF c(3)] setCurrentThreadName_is[OF c(3)] afterFork_is[OF c(3)]
    by (cases op) (force simp: c thread_exec_def thread_rel_def isMainThread_def case_prod_beta Let_def)+
qed

text \<open>
  A thread knows who it is: for any sequence of calls in a thread, including forks after which
  the calls go on in the child, the id is the one the kernel gave (the cache is never stale), the
  name is the last one set, cut at its zero byte, and ``Main'' after a fork, and nothing is written
  outside the array, as long as no name of 64 or more characters is set.
\<close>

lemma thread_identity_exact:
  assumes "0 < k" and "ops_allowed thread_spec thread_allowed ops (k, ''unnamed'')"
  shows "\<exists>t. run_ops thread_exec ops (k, thread_locals_init) =
    Inr (fst (spec_ops thread_spec ops (k, ''unnamed'')), fst (snd (spec_ops thread_spec ops (k, ''unnamed''))), t)"
proof -
  have "thread_rel (k, thread_locals_init) (k, ''unnamed'')"
    using thread_is_init[OF assms(1)] by (simp add: thread_rel_def)
  from th.run_ops_sim[OF this assms(2)] show ?thesis by (auto simp: thread_rel_def)
qed

end
