(* ===== verification/Log_Formatter.thy ===== *)
theory Log_Formatter
  imports Thread_Helper Timer_Manager
begin

text \<open>
  \<^verbatim>\<open>nets/base/log/LogFormatter.{h,cpp}\<close> with the level and the message of \<^verbatim>\<open>nets/base/log/Logger.h\<close>:
  the line a message becomes. \<^verbatim>\<open>localtime_r\<close> is a parameter, a function of the seconds (the time
  zone does not change while the program runs).
\<close>

section \<open>Levels and messages\<close>

datatype LogLevel = TRACE | DEBUG | INFO | WARN | ERROR | FATAL | NUM_OF_LOG_LEVELS

fun level_int :: "LogLevel \<Rightarrow> nat" where
  "level_int TRACE = 0" | "level_int DEBUG = 1" | "level_int INFO = 2" | "level_int WARN = 3"
| "level_int ERROR = 4" | "level_int FATAL = 5" | "level_int NUM_OF_LOG_LEVELS = 6"

text \<open>Levels compare as the integers behind them.\<close>

instantiation LogLevel :: linorder
begin

definition less_eq_LogLevel :: "LogLevel \<Rightarrow> LogLevel \<Rightarrow> bool" where
  "less_eq_LogLevel a b \<longleftrightarrow> level_int a \<le> level_int b"

definition less_LogLevel :: "LogLevel \<Rightarrow> LogLevel \<Rightarrow> bool" where
  "less_LogLevel a b \<longleftrightarrow> level_int a < level_int b"

instance
proof
  fix a b :: LogLevel
  assume "a \<le> b" and "b \<le> a"
  then show "a = b" by (cases a; cases b) (simp_all add: less_eq_LogLevel_def)
qed (auto simp: less_eq_LogLevel_def less_LogLevel_def)

end

text \<open>\<^verbatim>\<open>file_\<close> is the null pointer if the path of the source file has no slash.\<close>

record LogMessage =
  lm_time :: timestamp
  lm_file :: "string option"
  lm_line :: "32 word"
  lm_stream :: stack_buffer

definition strrchr_next :: "char \<Rightarrow> string \<Rightarrow> string option" where
  "strrchr_next c s = (if c \<in> set s then Some (rev (takeWhile (\<lambda>d. d \<noteq> c) (rev s))) else None)"

definition LogMessage_new :: "timestamp \<Rightarrow> LogLevel \<Rightarrow> string \<Rightarrow> 32 word \<Rightarrow> LogMessage" where
  "LogMessage_new now level file line =
     \<lparr>lm_time = now, lm_file = strrchr_next (CHR ''/'') file, lm_line = line, lm_stream = lbs_new\<rparr>"

section \<open>The time of a line\<close>

record tm =
  tm_sec :: int
  tm_min :: int
  tm_hour :: int
  tm_mday :: int
  tm_mon :: int
  tm_year :: int

definition tm_zero :: tm where
  "tm_zero = \<lparr>tm_sec = 0, tm_min = 0, tm_hour = 0, tm_mday = 0, tm_mon = 0, tm_year = 0\<rparr>"

text \<open>\<^verbatim>\<open>printf\<close> with the conversion \<^verbatim>\<open>%0Wd\<close>.\<close>

definition fmt_d :: "nat \<Rightarrow> int \<Rightarrow> string" where
  "fmt_d W v =
     (let ds = dec (nat \<bar>v\<bar>); sign = (if v < 0 then ''-'' else '''')
      in sign @ replicate (W - length sign - length ds) (CHR ''0'') @ ds)"

definition kMaxLengthOfLogTimePortion :: nat where "kMaxLengthOfLogTimePortion = 52"

definition kLogLevelName :: "string list" where
  "kLogLevelName = [''TRACE'', ''DEBUG'', ''INFO'', ''WARN'', ''ERROR'', ''FATAL'']"

text \<open>The cache of the last second formatted, per thread.\<close>

record log_thread = thread_locals +
  tCacheTms :: tm
  tCacheSeconds :: int

definition log_thread_init :: log_thread where
  "log_thread_init = thread_locals.extend thread_locals_init (log_thread.fields tm_zero 0)"

definition time_format :: "tm \<Rightarrow> int \<Rightarrow> string" where
  "time_format tms micros =
     fmt_d 4 (tm_year tms + 1900) @ ''-'' @ fmt_d 2 (tm_mon tms + 1) @ ''-'' @ fmt_d 2 (tm_mday tms) @ '' '' @
     fmt_d 2 (tm_hour tms) @ '':'' @ fmt_d 2 (tm_min tms) @ '':'' @ fmt_d 2 (tm_sec tms) @ ''.'' @ fmt_d 6 micros"

text \<open>\<^verbatim>\<open>snprintf\<close> returns the length of the whole text and stores what fits.\<close>

definition formatLogTime ::
    "(int \<Rightarrow> tm option) \<Rightarrow> timestamp \<Rightarrow> stack_buffer \<times> log_thread \<Rightarrow> (stack_buffer \<times> log_thread) res" where
  "formatLogTime localtime_r logTime s =
     (case s of (logBuffer, t) \<Rightarrow>
       let seconds = secondsSinceEpoch logTime;
           (tms, t) = (if seconds \<noteq> tCacheSeconds t
                       then (let tms = (case localtime_r seconds of None \<Rightarrow> tm_zero | Some tms \<Rightarrow> tms)
                             in (tms, t\<lparr>tCacheTms := tms, tCacheSeconds := seconds\<rparr>))
                       else (tCacheTms t, t));
           text = time_format tms (microsPartOfTimestamp logTime);
           timeBuf = take (kMaxLengthOfLogTimePortion - 1) text
       in if length text \<le> 0
          then Inl (Throw (DateTimeFormatException ''DefaultLogFormatter format log time error''))
          else ebind (sb_writeCString timeBuf logBuffer) (\<lambda>logBuffer. Inr (logBuffer, t)))"

section \<open>The line\<close>

text \<open>A text from a pointer that may be null.\<close>

definition sb_writeCStringPtr :: "string option \<Rightarrow> stack_buffer \<Rightarrow> stack_buffer res" where
  "sb_writeCStringPtr p b = (case p of None \<Rightarrow> Inl Undefined | Some s \<Rightarrow> sb_writeCString s b)"

definition level_name :: "LogLevel \<Rightarrow> string res" where
  "level_name l = (if level_int l < length kLogLevelName then Inr (kLogLevelName ! level_int l) else Inl Undefined)"

definition formatLogMessage ::
    "(int \<Rightarrow> tm option) \<Rightarrow> int \<Rightarrow> LogLevel \<Rightarrow> LogMessage \<Rightarrow> stack_buffer \<times> log_thread \<Rightarrow> (stack_buffer \<times> log_thread) res"
where
  "formatLogMessage localtime_r getTid logLevel msg s =
     ebind (formatLogTime localtime_r (lm_time msg) s) (\<lambda>(b, t).
     ebind (sb_writeBytes '' ['' b) (\<lambda>b.
     let (k, t) = currentTid getTid t in
     ebind (sb_writeInt32 (word_of_int k) b) (\<lambda>b.
     ebind (sb_writeBytes ''] '' b) (\<lambda>b.
     ebind (level_name logLevel) (\<lambda>n.
     ebind (sb_writeCString n b) (\<lambda>b.
     ebind (sb_writeByte (CHR '' '') b) (\<lambda>b.
     ebind (sb_writeCStringPtr (lm_file msg) b) (\<lambda>b.
     ebind (sb_writeByte (CHR '':'') b) (\<lambda>b.
     ebind (sb_writeInt32 (lm_line msg) b) (\<lambda>b.
     ebind (sb_writeBytes '' - '' b) (\<lambda>b.
     ebind (sb_writeBuffer (lm_stream msg) b) (\<lambda>b.
     ebind (sb_writeByte (CHR 0x0A) b) (\<lambda>b. Inr (b, t))))))))))))))"

section \<open>What the line is\<close>

text \<open>Without the cache: the broken-down time of a second, and the text of a time stamp.\<close>

definition local_tm :: "(int \<Rightarrow> tm option) \<Rightarrow> int \<Rightarrow> tm" where
  "local_tm localtime_r seconds = (case localtime_r seconds of None \<Rightarrow> tm_zero | Some tms \<Rightarrow> tms)"

definition time_text :: "(int \<Rightarrow> tm option) \<Rightarrow> timestamp \<Rightarrow> string" where
  "time_text localtime_r now =
     take (kMaxLengthOfLogTimePortion - 1)
       (time_format (local_tm localtime_r (secondsSinceEpoch now)) (microsPartOfTimestamp now))"

definition cache_ok :: "(int \<Rightarrow> tm option) \<Rightarrow> log_thread \<Rightarrow> bool" where
  "cache_ok localtime_r t \<longleftrightarrow> (tCacheSeconds t \<noteq> 0 \<longrightarrow> tCacheTms t = local_tm localtime_r (tCacheSeconds t))"

definition line_prefix :: "(int \<Rightarrow> tm option) \<Rightarrow> int \<Rightarrow> LogLevel \<Rightarrow> timestamp \<Rightarrow> string \<Rightarrow> 32 word \<Rightarrow> string" where
  "line_prefix localtime_r k level now file line =
     time_text localtime_r now @ '' ['' @ dec (nat k) @ ''] '' @ kLogLevelName ! level_int level @ '' '' @
     file @ '':'' @ dec (nat (sint line)) @ '' - ''"

text \<open>
  A message that does not fit with its prefix is left out whole; one that leaves room for no
  more than the terminating zero byte comes without the end of line.
\<close>

definition line_of :: "string \<Rightarrow> string \<Rightarrow> string" where
  "line_of prefix m =
     (let n = length prefix + length m
      in if n < kLogBufferSize - 1 then prefix @ m @ [CHR 0x0A]
         else if n = kLogBufferSize - 1 then prefix @ m
         else prefix @ [CHR 0x0A])"

subsection \<open>Text\<close>

lemma fmt_d_no_NUL: "NUL \<notin> set (fmt_d W v)"
  using dec_no_NUL by (auto simp: fmt_d_def Let_def)

lemma time_text_c_str:
  "c_str (take n (time_format tms micros)) = take n (time_format tms micros)"
  by (rule c_str_id) (auto simp: time_format_def fmt_d_no_NUL dest!: in_set_takeD)

lemma time_format_nonempty: "0 < length (time_format tms micros)"
  by (simp add: time_format_def)

lemma level_names: "l < NUM_OF_LOG_LEVELS \<Longrightarrow>
    level_name l = Inr (kLogLevelName ! level_int l) \<and> length (kLogLevelName ! level_int l) \<le> 5 \<and>
    c_str (kLogLevelName ! level_int l) = kLogLevelName ! level_int l"
  by (cases l) (simp_all add: less_LogLevel_def level_name_def kLogLevelName_def)

subsection \<open>The cache\<close>

text \<open>With the cache the same text is written.\<close>

lemma formatLogTime_exact:
  assumes "cache_ok localtime_r t" and "secondsSinceEpoch now \<noteq> 0"
  shows "\<exists>t'. formatLogTime localtime_r now (b, t) =
      ebind (sb_writeCString (time_text localtime_r now) b) (\<lambda>b. Inr (b, t')) \<and>
    cache_ok localtime_r t' \<and> thread_locals.truncate t' = thread_locals.truncate t"
  using assms time_format_nonempty
  by (auto simp: formatLogTime_def Let_def cache_ok_def time_text_def local_tm_def thread_locals.defs split: option.splits
      intro: exI[of _ t])

subsection \<open>The whole line\<close>

text \<open>Several items put into a log buffer one after the other.\<close>

fun lbs_puts :: "('d \<Rightarrow> string) \<Rightarrow> ('f \<Rightarrow> 'd) \<Rightarrow> ('f, 'd) log_item list \<Rightarrow> stack_buffer \<Rightarrow> stack_buffer res" where
  "lbs_puts ts w [] b = Inr b"
| "lbs_puts ts w (i # is) b = ebind (lbs_put ts w i b) (lbs_puts ts w is)"

lemma lbs_puts_gives:
  "holds SIZE b s \<Longrightarrow> list_all item_ok is \<Longrightarrow> gives (lbs_puts ts w is b) SIZE (fold (line_add ts w SIZE) is s)"
proof (induction "is" arbitrary: b s)
  case (Cons i "is")
  obtain b' where "lbs_put ts w i b = Inr b'" "holds SIZE b' (line_add ts w SIZE i s)"
    using lbs_put_gives[OF Cons.prems(1), of i ts w] Cons.prems(2) by (auto simp: gives_def)
  then show ?case using Cons by simp
qed (simp add: gives_def)

abbreviation item_max :: "('d \<Rightarrow> string) \<Rightarrow> ('f \<Rightarrow> 'd) \<Rightarrow> ('f, 'd) log_item \<Rightarrow> nat" where
  "item_max ts w i \<equiv> max (item_room ts w i) (length (item_text ts w i))"

lemma fold_line_add_fits:
  "length s + sum_list (map (item_max ts w) is) < SIZE \<Longrightarrow>
   fold (line_add ts w SIZE) is s = s @ concat (map (item_text ts w) is)"
proof (induction "is" arbitrary: s)
  case (Cons i "is")
  have "item_room ts w i < SIZE - length s" "length (s @ item_text ts w i) + sum_list (map (item_max ts w) is) < SIZE"
    using Cons.prems by simp_all
  then show ?case using Cons.IH[of "s @ item_text ts w i"] by (simp add: line_add_def)
qed simp

text \<open>The prefix as items; the last two writes are the message and the end of the line.\<close>

definition prefix_items :: "string \<Rightarrow> int \<Rightarrow> string \<Rightarrow> string \<Rightarrow> 32 word \<Rightarrow> (unit, unit) log_item list" where
  "prefix_items time k name file line =
     [LCString time, LString '' ['', LInt32 (word_of_int k), LString ''] '', LCString name, LChar (CHR '' ''),
      LCString file, LChar (CHR '':''), LInt32 line, LString '' - '']"

lemma formatLogMessage_items:
  assumes "cache_ok localtime_r t" and "secondsSinceEpoch (lm_time msg) \<noteq> 0" and "thread_is t k n"
    and "l < NUM_OF_LOG_LEVELS" and "lm_file msg = Some file"
  shows "\<exists>t'. cache_ok localtime_r t' \<and> thread_is t' k n \<and>
    formatLogMessage localtime_r k l msg (b, t) =
    ebind (lbs_puts (\<lambda>_. []) id (prefix_items (time_text localtime_r (lm_time msg)) k (kLogLevelName ! level_int l) file
             (lm_line msg) @ [LStream (lm_stream msg), LChar (CHR 0x0A)]) b) (\<lambda>b. Inr (b, t'))"
proof -
  obtain t1 where t1: "formatLogTime localtime_r (lm_time msg) (b, t) =
      ebind (sb_writeCString (time_text localtime_r (lm_time msg)) b) (\<lambda>b. Inr (b, t1))"
    "cache_ok localtime_r t1" "thread_locals.truncate t1 = thread_locals.truncate t"
    using formatLogTime_exact[OF assms(1,2)] by blast
  have "thread_is t1 k n" using assms(3) t1(3) by (auto simp: thread_is_def thread_locals.defs)
  then have k: "fst (currentTid k t1) = k" "thread_is (snd (currentTid k t1)) k n"
    using currentTid_is by auto
  moreover have "cache_ok localtime_r (snd (currentTid k t1))"
    using t1(2) by (auto simp: currentTid_def cache_ok_def Let_def)
  moreover obtain t2 where t2: "currentTid k t1 = (k, t2)" using k(1) by (cases "currentTid k t1") auto
  ultimately show ?thesis using level_names[OF assms(4)] assms(5)
    by (intro exI[of _ t2])
      (simp add: formatLogMessage_def t1(1) prefix_items_def lbs_put_def sb_writeCStringPtr_def sb_writeByte_def
        Let_def t2 ebind_assoc)
qed

lemma time_text_length: "length (time_text localtime_r now) \<le> 51"
  by (simp add: time_text_def kMaxLengthOfLogTimePortion_def)

lemma num_text_int32: "0 \<le> sint v \<Longrightarrow> length (num_text (sint (v :: 32 word))) \<le> 10"
  using sint_lt[of v] by (auto simp: num_text_def nat_less_iff intro!: dec_length)

lemma sint_int32: "0 < k \<Longrightarrow> k < 2 ^ 31 \<Longrightarrow> sint (word_of_int k :: 32 word) = k"
  by (simp add: sint_sbintrunc' signed_take_bit_int_eq_self)

lemma prefix_text:
  assumes "0 < k" and "k < 2 ^ 31" and "NUL \<notin> set file" and "l < NUM_OF_LOG_LEVELS"
  shows "concat (map (item_text ts w) (prefix_items (time_text localtime_r now) k (kLogLevelName ! level_int l) file line))
    = line_prefix localtime_r k l now file line"
proof -
  have "sint (word_of_int k :: 32 word) = k" using assms(1,2) by (rule sint_int32)
  then show ?thesis using assms(3) level_names[OF assms(4)]
    by (simp add: prefix_items_def line_prefix_def num_text_def c_str_id time_text_c_str[folded time_text_def]
        time_text_def[symmetric]) (simp add: time_text_def time_text_c_str)
qed

text \<open>
  One line per message: with a cache that is right and a message the stream of which holds \<open>m\<close>,
  the formatter composes \<open>line_of\<close> the prefix and \<open>m\<close>.
\<close>

lemma formatLogMessage_line:
  assumes c: "cache_ok localtime_r t" and sec: "secondsSinceEpoch (lm_time msg) \<noteq> 0" and th: "thread_is t k n"
    and k: "k < 2 ^ 31" and l: "l < NUM_OF_LOG_LEVELS" and f: "lm_file msg = Some file" "NUL \<notin> set file"
    and short: "length file \<le> 3900" and line: "0 \<le> sint (lm_line msg)" and m: "holds kLogBufferSize (lm_stream msg) m"
  shows "\<exists>b t'. formatLogMessage localtime_r k l msg (lbs_new, t) = Inr (b, t') \<and> cache_ok localtime_r t' \<and> thread_is t' k n \<and>
    holds kLogBufferSize b (line_of (line_prefix localtime_r k l (lm_time msg) file (lm_line msg)) m)"
proof -
  let ?P = "prefix_items (time_text localtime_r (lm_time msg)) k (kLogLevelName ! level_int l) file (lm_line msg)"
  let ?tail = "[LStream (lm_stream msg), LChar (CHR 0x0A)] :: (unit, unit) log_item list"
  let ?p = "line_prefix localtime_r k l (lm_time msg) file (lm_line msg)"
  have k0: "0 < k" using th by (simp add: thread_is_def)
  have s: "sint (word_of_int k :: 32 word) = k" using k0 k by (rule sint_int32)
  have new: "holds kLogBufferSize lbs_new []"
    unfolding lbs_new_def by (rule holds_new) (simp_all add: kLogBufferSize_def size_mod_def)
  have ok: "list_all item_ok (?P @ ?tail)" using k0 line m by (simp add: prefix_items_def s holds_def)
  have cut: "length (c_str x) \<le> length x" for x :: string
    by (simp add: length_takeWhile_le)
  have fits: "length ([] :: string) + sum_list (map (item_max (\<lambda>_. []) id) ?P) < kLogBufferSize - 1"
    using time_text_length[of localtime_r "lm_time msg"] level_names[OF l] short num_text_int32[OF line]
      num_text_int32[of "word_of_int k"] k0 cut[of "file"] cut[of "kLogLevelName ! level_int l"] cut[of "time_text localtime_r (lm_time msg)"]
    by (simp add: prefix_items_def s kLogBufferSize_def)
  then have p: "fold (line_add (\<lambda>_. []) id kLogBufferSize) ?P [] = ?p"
    using fold_line_add_fits[of "[]" "\<lambda>_. []" id ?P kLogBufferSize] prefix_text[OF k0 k f(2) l] by simp
  have "length ?p \<le> sum_list (map (item_max (\<lambda>_. []) id) ?P)"
    unfolding prefix_text[OF k0 k f(2) l, symmetric, where ts = "\<lambda>_ :: unit. []" and w = "id :: unit \<Rightarrow> unit"]
    by (simp add: prefix_items_def)
  then have lp: "length ?p < kLogBufferSize - 1" using fits by simp
  have mt: "take (sb_writerIndex (lm_stream msg)) (sb_buffer (lm_stream msg)) = m" using m by (simp add: holds_def)
  have "fold (line_add (\<lambda>_. []) id kLogBufferSize) (?P @ ?tail) [] = line_of ?p m"
    using lp by (auto simp: p line_add_def mt line_of_def Let_def)
  with lbs_puts_gives[OF new ok, of "\<lambda>_. []" id] formatLogMessage_items[OF c sec th l f(1), of lbs_new]
  show ?thesis by (auto simp: gives_def)
qed

end
