(* ===== verification/Logger.thy ===== *)
theory Logger
  imports Log_Formatter Log_Appender
begin

text \<open>
  \<^verbatim>\<open>nets/base/log/Logger.{h,cpp}\<close>: loggers with their level, formatter and appender, the manager that
  creates them by name, and the macro \<^verbatim>\<open>NETS_LOG\<close>. A \<^verbatim>\<open>LoggerPtr\<close> from the manager is the name of
  the logger; appenders are the standard output and the file appenders of \<open>Log_Appender\<close>.
\<close>

section \<open>Loggers\<close>

datatype LogFormatter =
    DefaultLogFormatter
  | UserLogFormatter "LogLevel \<Rightarrow> LogMessage \<Rightarrow> stack_buffer \<Rightarrow> stack_buffer res"

datatype LogAppender = StdoutLogAppender | FileLogAppender nat

record Logger =
  lg_name :: string
  lg_level :: LogLevel
  logFormatter :: "LogFormatter option"
  logAppender :: "LogAppender option"

definition kNetsRootLoggerName :: string where "kNetsRootLoggerName = ''RootLogger''"
definition kDefaultLogLevel :: LogLevel where "kDefaultLogLevel = DEBUG"

definition Logger_new :: "string \<Rightarrow> LogLevel \<Rightarrow> LogFormatter option \<Rightarrow> LogAppender option \<Rightarrow> Logger" where
  "Logger_new n level formatter appender =
     \<lparr>lg_name = n, lg_level = level, logFormatter = formatter, logAppender = appender\<rparr>"

definition Logger_named :: "string \<Rightarrow> Logger" where
  "Logger_named n = Logger_new n kDefaultLogLevel None None"

definition setLevel :: "LogLevel \<Rightarrow> Logger \<Rightarrow> Logger" where
  "setLevel level L = L\<lparr>lg_level := level\<rparr>"

definition setLogFormatter :: "LogFormatter option \<Rightarrow> Logger \<Rightarrow> Logger" where
  "setLogFormatter f L = L\<lparr>logFormatter := f\<rparr>"

definition setLogAppender :: "LogAppender option \<Rightarrow> Logger \<Rightarrow> Logger" where
  "setLogAppender a L = L\<lparr>logAppender := a\<rparr>"

text \<open>The standard output, the file appenders that exist, and the loggers of the manager.\<close>

record 'f log_world =
  lw_stdout :: string
  lw_files :: "nat \<Rightarrow> 'f ap_world option"
  loggers :: "string \<Rightarrow> Logger option"
  netsRootLogger :: "string option"

section \<open>Appenders\<close>

text \<open>The virtual calls; \<open>appended\<close> is the ghost of \<open>Log_Appender\<close>.\<close>

definition append_stdout :: "stack_buffer \<Rightarrow> 'f log_world \<Rightarrow> 'f log_world res" where
  "append_stdout b w =
     ebind (mem_read (sb_buffer b) 0 (sb_writerIndex b)) (\<lambda>d. Inr (w\<lparr>lw_stdout := lw_stdout w @ d\<rparr>))"

definition appender_append :: "LogAppender \<Rightarrow> stack_buffer \<Rightarrow> 'f log_world \<Rightarrow> 'f log_world res" where
  "appender_append p b w =
     (case p of
        StdoutLogAppender \<Rightarrow> append_stdout b w
      | FileLogAppender i \<Rightarrow>
          (case lw_files w i of
             None \<Rightarrow> Inl Undefined
           | Some f \<Rightarrow> ebind (ap_append b (ap f)) (\<lambda>a.
               Inr (w\<lparr>lw_files := (lw_files w)(i \<mapsto> f\<lparr>ap := a, appended := appended f @ [text_of b]\<rparr>)\<rparr>))))"

text \<open>\<^verbatim>\<open>flush\<close> flushes the stream of the file, not the buffers of the appender.\<close>

definition appender_flush :: "'f stdio \<Rightarrow> LogAppender \<Rightarrow> 'f log_world \<Rightarrow> 'f log_world" where
  "appender_flush IO p w =
     (case p of
        StdoutLogAppender \<Rightarrow> w
      | FileLogAppender i \<Rightarrow>
          (case lw_files w i of
             None \<Rightarrow> w
           | Some f \<Rightarrow> w\<lparr>lw_files := (lw_files w)(i \<mapsto> f\<lparr>fs := io_fflush IO (lf_file (logFile (ap f))) (fs f)\<rparr>)\<rparr>))"

definition appender_setRollingSize :: "nat \<Rightarrow> LogAppender \<Rightarrow> 'f log_world \<Rightarrow> 'f log_world" where
  "appender_setRollingSize n p w =
     (case p of
        StdoutLogAppender \<Rightarrow> w
      | FileLogAppender i \<Rightarrow>
          w\<lparr>lw_files := (lw_files w)(i := map_option (\<lambda>f. f\<lparr>ap := setLogFileRollingSize n (ap f)\<rparr>) (lw_files w i))\<rparr>)"

definition logger_setRollingSize :: "nat \<Rightarrow> Logger \<Rightarrow> 'f log_world \<Rightarrow> 'f log_world res" where
  "logger_setRollingSize n L w =
     (case logAppender L of None \<Rightarrow> Inl Undefined | Some p \<Rightarrow> Inr (appender_setRollingSize n p w))"

section \<open>Logging\<close>

text \<open>A fatal message ends the process.\<close>

datatype log_end = Returned | Exited

text \<open>What the C library and the kernel answer: the local time, and the id of the thread.\<close>

record log_env =
  le_localtime :: "int \<Rightarrow> tm option"
  le_gettid :: int

definition logger_format ::
    "log_env \<Rightarrow> Logger \<Rightarrow> LogLevel \<Rightarrow> LogMessage \<Rightarrow> log_thread \<Rightarrow> (stack_buffer \<times> log_thread) res" where
  "logger_format E L level msg t =
     (case logFormatter L of
        None \<Rightarrow> Inl Undefined
      | Some DefaultLogFormatter \<Rightarrow> formatLogMessage (le_localtime E) (le_gettid E) level msg (lbs_new, t)
      | Some (UserLogFormatter f) \<Rightarrow> ebind (f level msg lbs_new) (\<lambda>b. Inr (b, t)))"

definition logger_log ::
    "'f stdio \<Rightarrow> log_env \<Rightarrow> Logger \<Rightarrow> LogLevel \<Rightarrow> LogMessage \<Rightarrow> 'f log_world \<times> log_thread \<Rightarrow>
     (log_end \<times> 'f log_world \<times> log_thread) res" where
  "logger_log IO E L level msg s =
     (case s of (w, t) \<Rightarrow>
       ebind (logger_format E L level msg t) (\<lambda>(b, t).
       case logAppender L of
         None \<Rightarrow> Inl Undefined
       | Some p \<Rightarrow> ebind (appender_append p b w) (\<lambda>w.
           if level = FATAL then Inr (Exited, appender_flush IO p w, t) else Inr (Returned, w, t))))"

definition logger_trace where "logger_trace IO E L = logger_log IO E L TRACE"
definition logger_debug where "logger_debug IO E L = logger_log IO E L DEBUG"
definition logger_info where "logger_info IO E L = logger_log IO E L INFO"
definition logger_warn where "logger_warn IO E L = logger_log IO E L WARN"
definition logger_error where "logger_error IO E L = logger_log IO E L ERROR"
definition logger_fatal where "logger_fatal IO E L = logger_log IO E L FATAL"

text \<open>The temporary of the macro: its destructor logs the message.\<close>

record LogMessageStream =
  ms_logger :: Logger
  ms_level :: LogLevel
  ms_message :: LogMessage

definition LogMessageStream_new :: "timestamp \<Rightarrow> Logger \<Rightarrow> LogLevel \<Rightarrow> string \<Rightarrow> 32 word \<Rightarrow> LogMessageStream" where
  "LogMessageStream_new now L level file line =
     \<lparr>ms_logger = L, ms_level = level, ms_message = LogMessage_new now level file line\<rparr>"

definition LogMessageStream_destroy ::
    "'f stdio \<Rightarrow> log_env \<Rightarrow> LogMessageStream \<Rightarrow> 'f log_world \<times> log_thread \<Rightarrow>
     (log_end \<times> 'f log_world \<times> log_thread) res" where
  "LogMessageStream_destroy IO E ms = logger_log IO E (ms_logger ms) (ms_level ms) (ms_message ms)"

definition NETS_LOG ::
    "'f stdio \<Rightarrow> log_env \<Rightarrow> ('d \<Rightarrow> string) \<Rightarrow> ('g \<Rightarrow> 'd) \<Rightarrow> timestamp \<Rightarrow> Logger \<Rightarrow> LogLevel \<Rightarrow> string \<Rightarrow> 32 word \<Rightarrow>
     ('g, 'd) log_item list \<Rightarrow> 'f log_world \<times> log_thread \<Rightarrow> (log_end \<times> 'f log_world \<times> log_thread) res" where
  "NETS_LOG IO E ts wd now L LEVEL file line items s =
     (if LEVEL \<ge> lg_level L
      then (let ms = LogMessageStream_new now L LEVEL file line
            in ebind (lbs_puts ts wd items (lm_stream (ms_message ms))) (\<lambda>b.
                 LogMessageStream_destroy IO E (ms\<lparr>ms_message := (ms_message ms)\<lparr>lm_stream := b\<rparr>\<rparr>) s))
      else Inr (Returned, s))"

section \<open>The manager\<close>

text \<open>\<^verbatim>\<open>getLogger\<close>, under the lock.\<close>

definition getLogger :: "string \<Rightarrow> 'f log_world \<Rightarrow> Logger \<times> 'f log_world" where
  "getLogger loggerName w =
     (case loggers w loggerName of
        Some L \<Rightarrow> (L, w)
      | None \<Rightarrow>
          (let L = setLogAppender (Some StdoutLogAppender) (setLogFormatter (Some DefaultLogFormatter) (Logger_named loggerName))
           in (L, w\<lparr>loggers := (loggers w)(loggerName \<mapsto> L)\<rparr>)))"

definition getRootLogger :: "'f log_world \<Rightarrow> string \<times> 'f log_world" where
  "getRootLogger w =
     (case netsRootLogger w of
        Some n \<Rightarrow> (n, w)
      | None \<Rightarrow> (let (L, w) = getLogger kNetsRootLoggerName w
                 in (kNetsRootLoggerName, w\<lparr>netsRootLogger := Some kNetsRootLoggerName\<rparr>)))"

definition LoggerManager_new :: "'f log_world" where
  "LoggerManager_new = \<lparr>lw_stdout = [], lw_files = (\<lambda>i. None), loggers = (\<lambda>n. None), netsRootLogger = None\<rparr>"

section \<open>A log statement\<close>

record ('g, 'd) log_stmt =
  st_level :: LogLevel
  st_time :: timestamp
  st_file :: string
  st_line :: "32 word"
  st_items :: "('g, 'd) log_item list"

abbreviation log_stmt_exec ::
    "'f stdio \<Rightarrow> log_env \<Rightarrow> ('d \<Rightarrow> string) \<Rightarrow> ('g \<Rightarrow> 'd) \<Rightarrow> Logger \<Rightarrow> ('g, 'd) log_stmt \<Rightarrow>
     'f log_world \<times> log_thread \<Rightarrow> (log_end \<times> 'f log_world \<times> log_thread) res" where
  "log_stmt_exec IO E ts wd L st \<equiv> NETS_LOG IO E ts wd (st_time st) L (st_level st) (st_file st) (st_line st) (st_items st)"

text \<open>
  A level that exists, a time other than the first second of 1970, the path of a source file with a
  directory in it, and items that are not negative numbers.
\<close>

definition stmt_ok :: "('g, 'd) log_stmt \<Rightarrow> bool" where
  "stmt_ok st \<longleftrightarrow> st_level st < NUM_OF_LOG_LEVELS \<and> secondsSinceEpoch (st_time st) \<noteq> 0 \<and>
     CHR ''/'' \<in> set (st_file st) \<and> NUL \<notin> set (st_file st) \<and> length (st_file st) \<le> 3900 \<and>
     0 \<le> sint (st_line st) \<and> list_all item_ok (st_items st)"

definition env_ok :: "log_env \<Rightarrow> log_thread \<Rightarrow> bool" where
  "env_ok E t \<longleftrightarrow> cache_ok (le_localtime E) t \<and> (\<exists>n. thread_is t (le_gettid E) n) \<and> le_gettid E < 2 ^ 31"

definition base_name :: "string \<Rightarrow> string" where
  "base_name file = rev (takeWhile (\<lambda>d. d \<noteq> CHR ''/'') (rev file))"

definition stmt_text :: "('d \<Rightarrow> string) \<Rightarrow> ('g \<Rightarrow> 'd) \<Rightarrow> ('g, 'd) log_stmt \<Rightarrow> string" where
  "stmt_text ts wd st = fold (line_add ts wd kLogBufferSize) (st_items st) []"

definition stmt_line :: "log_env \<Rightarrow> ('d \<Rightarrow> string) \<Rightarrow> ('g \<Rightarrow> 'd) \<Rightarrow> ('g, 'd) log_stmt \<Rightarrow> string" where
  "stmt_line E ts wd st =
     line_of (line_prefix (le_localtime E) (le_gettid E) (st_level st) (st_time st) (base_name (st_file st)) (st_line st))
       (stmt_text ts wd st)"

lemma base_name_le: "length (base_name f) \<le> length f"
  using length_takeWhile_le[of _ "rev f"] by (simp add: base_name_def)

lemma base_name_set: "set (base_name f) \<subseteq> set f"
  by (auto simp: base_name_def dest: set_takeWhileD)

lemma lbs_new_holds: "holds kLogBufferSize lbs_new []"
  unfolding lbs_new_def by (rule holds_new) (simp_all add: kLogBufferSize_def size_mod_def)

text \<open>A statement hands its line to the appender, whatever that is.\<close>

lemma log_stmt_line:
  assumes E: "env_ok E t" and st: "stmt_ok st" and L: "logFormatter L = Some DefaultLogFormatter" "logAppender L = Some p"
    and on: "lg_level L \<le> st_level st"
  shows "\<exists>b t'. env_ok E t' \<and> holds kLogBufferSize b (stmt_line E ts wd st) \<and>
    log_stmt_exec IO E ts wd L st (w, t) =
      ebind (appender_append p b w) (\<lambda>w.
        if st_level st = FATAL then Inr (Exited, appender_flush IO p w, t') else Inr (Returned, w, t'))"
proof -
  let ?ms = "LogMessage_new (st_time st) (st_level st) (st_file st) (st_line st)"
  obtain n where th: "thread_is t (le_gettid E) n" using E by (auto simp: env_ok_def)
  obtain m where m: "lbs_puts ts wd (st_items st) lbs_new = Inr m" "holds kLogBufferSize m (stmt_text ts wd st)"
    using lbs_puts_gives[OF lbs_new_holds, of "st_items st" ts wd] st by (auto simp: gives_def stmt_ok_def stmt_text_def)
  have "NUL \<notin> set (base_name (st_file st))" "length (base_name (st_file st)) \<le> 3900"
    using st base_name_set[of "st_file st"] base_name_le[of "st_file st"] by (auto simp: stmt_ok_def)
  then obtain b t' where b: "formatLogMessage (le_localtime E) (le_gettid E) (st_level st) (?ms\<lparr>lm_stream := m\<rparr>) (lbs_new, t) = Inr (b, t')"
    "cache_ok (le_localtime E) t'" "thread_is t' (le_gettid E) n" "holds kLogBufferSize b (stmt_line E ts wd st)"
    using formatLogMessage_line[OF _ _ th, of "le_localtime E" "?ms\<lparr>lm_stream := m\<rparr>" "st_level st" "base_name (st_file st)" "stmt_text ts wd st"]
      E st m(2)
    by (auto simp: env_ok_def stmt_ok_def LogMessage_new_def strrchr_next_def base_name_def[symmetric] stmt_line_def)
  moreover have "lm_stream ?ms = lbs_new" by (simp add: LogMessage_new_def)
  ultimately show ?thesis using E L on m(1)
    by (intro exI[of _ b] exI[of _ t'])
      (auto simp: NETS_LOG_def LogMessageStream_new_def LogMessageStream_destroy_def logger_log_def logger_format_def
        env_ok_def Let_def)
qed

text \<open>
  C27. A log statement prints exactly one line. On a logger that writes to the standard output with the
  default formatter, for a well-formed statement (a source path with a slash, of at most 3900
  characters, a line and numbers that are not negative, a valid level, a time that is not the epoch itself): one below
  the level of the logger does nothing, and any other one appends the local time with microseconds,
  the id of the thread, the level, the name of the source file without its directories, the line
  and the message, with an end of line. \<open>stmt_line\<close> is that line, with the limits of the code: a part of the
  message that does not fit its 4096 bytes is left out, so is the message if it does not fit after the prefix,
  and one that exactly fills the buffer has no end of line. A fatal statement ends the process, every
  other one returns. The cache of the formatted second never shows.
\<close>

theorem log_statement_exact:
  assumes "env_ok E t" and "stmt_ok st" and "logFormatter L = Some DefaultLogFormatter"
    and "logAppender L = Some StdoutLogAppender"
  shows "\<exists>t'. env_ok E t' \<and> log_stmt_exec IO E ts wd L st (w, t) =
    (if st_level st < lg_level L then Inr (Returned, w, t')
     else Inr (if st_level st = FATAL then Exited else Returned, w\<lparr>lw_stdout := lw_stdout w @ stmt_line E ts wd st\<rparr>, t'))"
proof (cases "st_level st < lg_level L")
  case True
  then show ?thesis using assms(1) by (auto simp: NETS_LOG_def)
next
  case False
  then have "lg_level L \<le> st_level st" by simp
  from log_stmt_line[OF assms this, of ts wd IO w] obtain b t' where b: "env_ok E t'"
    "holds kLogBufferSize b (stmt_line E ts wd st)"
    "log_stmt_exec IO E ts wd L st (w, t) = ebind (appender_append StdoutLogAppender b w) (\<lambda>w.
        if st_level st = FATAL then Inr (Exited, appender_flush IO StdoutLogAppender w, t') else Inr (Returned, w, t'))" by blast
  then show ?thesis using False holds_read[OF b(2)]
    by (intro exI[of _ t']) (simp add: appender_append_def append_stdout_def appender_flush_def)
qed

definition demo_env :: log_env where
  "demo_env = \<lparr>le_localtime = (\<lambda>s. Some \<lparr>tm_sec = s mod 60, tm_min = 30, tm_hour = 14, tm_mday = 9, tm_mon = 1, tm_year = 123\<rparr>),
     le_gettid = 77\<rparr>"

definition demo_stmt :: "(nat, nat) log_stmt" where
  "demo_stmt = \<lparr>st_level = WARN, st_time = 5000042, st_file = ''/src/main.cpp'', st_line = 12,
     st_items = [LString ''n='', LInt32 42]\<rparr>"

lemma demo_env_ok: "env_ok demo_env log_thread_init"
  by (auto simp: env_ok_def cache_ok_def log_thread_init_def thread_is_def names_def thread_locals_init_def demo_env_def
      kThreadNameMaxLength_def thread_locals.defs log_thread.defs intro!: exI[of _ "''unnamed''"])

lemma demo_stmt_ok: "stmt_ok demo_stmt"
  by (simp add: stmt_ok_def demo_stmt_def less_LogLevel_def secondsSinceEpoch_def cdiv_def kMicrosecondsPerSecond_def)

lemma demo_stmt_line:
  "stmt_line demo_env (\<lambda>x. []) id demo_stmt = ''2023-02-09 14:30:05.000042 [77] WARN main.cpp:12 - n=42'' @ [CHR 0x0A]"
  by code_simp

theorem log_statement_exact_witness:
  "\<exists>t. log_stmt_exec map_io demo_env (\<lambda>x. []) id (fst (getLogger ''net'' (LoggerManager_new :: (path \<Rightarrow> string) log_world))) demo_stmt
       (snd (getLogger ''net'' LoggerManager_new), log_thread_init) =
     Inr (Returned, (snd (getLogger ''net'' LoggerManager_new))
       \<lparr>lw_stdout := ''2023-02-09 14:30:05.000042 [77] WARN main.cpp:12 - n=42'' @ [CHR 0x0A]\<rparr>, t)"
proof -
  let ?L = "fst (getLogger ''net'' (LoggerManager_new :: (path \<Rightarrow> string) log_world))"
  let ?w = "snd (getLogger ''net'' (LoggerManager_new :: (path \<Rightarrow> string) log_world))"
  have L: "logFormatter ?L = Some DefaultLogFormatter" "logAppender ?L = Some StdoutLogAppender" "lg_level ?L = DEBUG"
    "lw_stdout ?w = []"
    by (simp_all add: getLogger_def LoggerManager_new_def setLogAppender_def setLogFormatter_def Logger_named_def
        Logger_new_def kDefaultLogLevel_def Let_def)
  have "\<not> st_level demo_stmt < DEBUG" "st_level demo_stmt \<noteq> FATAL"
    by (simp_all add: demo_stmt_def less_LogLevel_def)
  with log_statement_exact[OF demo_env_ok demo_stmt_ok L(1,2), of map_io "\<lambda>x. []" id ?w] L(3,4) demo_stmt_line
  show ?thesis by auto
qed

section \<open>Logging to a file\<close>

text \<open>
  Threads execute statements on the loggers of the manager, one of which may write to the file
  appender \<open>i\<close>; its background thread goes on, loggers are created and their levels and appenders
  change. The list has the lines of the statements that were enabled and meant for the file. The
  kernel ids of the threads and their local states are functions of the thread.
\<close>

definition to_file :: "nat \<Rightarrow> Logger \<Rightarrow> ('g, 'd) log_stmt \<Rightarrow> bool" where
  "to_file i L st \<longleftrightarrow> lg_level L \<le> st_level st \<and> logAppender L = Some (FileLogAppender i)"

inductive log_runs ::
    "'f stdio \<Rightarrow> (nat \<Rightarrow> log_env) \<Rightarrow> ('d \<Rightarrow> string) \<Rightarrow> ('g \<Rightarrow> 'd) \<Rightarrow> nat \<Rightarrow> 'f log_world \<times> (nat \<Rightarrow> log_thread) \<Rightarrow>
     string list \<Rightarrow> 'f log_world \<times> (nat \<Rightarrow> log_thread) \<Rightarrow> bool"
  for IO E ts wd i c where
  run_start: "log_runs IO E ts wd i c [] c"
| run_stmt: "log_runs IO E ts wd i c out (w, T) \<Longrightarrow> loggers w n = Some L \<Longrightarrow> stmt_ok st \<Longrightarrow>
     log_stmt_exec IO (E k) ts wd L st (w, T k) = Inr (Returned, w', t') \<Longrightarrow>
     log_runs IO E ts wd i c (out @ (if to_file i L st then [stmt_line (E k) ts wd st] else [])) (w', T(k := t'))"
| run_background: "log_runs IO E ts wd i c out (w, T) \<Longrightarrow> lw_files w j = Some f \<Longrightarrow> ap_step IO f f' \<Longrightarrow>
     appended f' = appended f \<Longrightarrow> log_runs IO E ts wd i c out (w\<lparr>lw_files := (lw_files w)(j \<mapsto> f')\<rparr>, T)"
| run_getLogger: "log_runs IO E ts wd i c out (w, T) \<Longrightarrow> log_runs IO E ts wd i c out (snd (getLogger n w), T)"
| run_setLevel: "log_runs IO E ts wd i c out (w, T) \<Longrightarrow> loggers w n = Some L \<Longrightarrow>
     log_runs IO E ts wd i c out (w\<lparr>loggers := (loggers w)(n \<mapsto> setLevel v L)\<rparr>, T)"
| run_setAppender: "log_runs IO E ts wd i c out (w, T) \<Longrightarrow> loggers w n = Some L \<Longrightarrow>
     log_runs IO E ts wd i c out (w\<lparr>loggers := (loggers w)(n \<mapsto> setLogAppender (Some p) L)\<rparr>, T)"

definition log_inv :: "'f stdio \<Rightarrow> (nat \<Rightarrow> log_env) \<Rightarrow> nat \<Rightarrow> 'f ap_world \<Rightarrow> string list \<Rightarrow> 'f log_world \<times> (nat \<Rightarrow> log_thread) \<Rightarrow> bool"
where
  "log_inv IO E i f0 out c \<longleftrightarrow>
     (\<forall>k. env_ok (E k) (snd c k)) \<and>
     (\<forall>n L. loggers (fst c) n = Some L \<longrightarrow> logFormatter L = Some DefaultLogFormatter \<and> logAppender L \<noteq> None) \<and>
     (\<exists>f. lw_files (fst c) i = Some f \<and> ap_steps IO f0 f \<and> appended f = appended f0 @ out)"

lemma log_inv_stmt:
  assumes inv: "log_inv IO E i f0 out (w, T)" and L: "loggers w n = Some L" and st: "stmt_ok st"
    and x: "log_stmt_exec IO (E k) ts wd L st (w, T k) = Inr (Returned, w', t')"
  shows "log_inv IO E i f0 (out @ (if to_file i L st then [stmt_line (E k) ts wd st] else [])) (w', T(k := t'))"
proof -
  have E: "env_ok (E k) (T k)" and L': "logFormatter L = Some DefaultLogFormatter" using inv L by (auto simp: log_inv_def)
  have "logAppender L \<noteq> None" using inv L by (auto simp: log_inv_def)
  then obtain p where p: "logAppender L = Some p" by auto
  show ?thesis
  proof (cases "lg_level L \<le> st_level st")
    case False
    then have "w' = w" "t' = T k" using x by (auto simp: NETS_LOG_def)
    then show ?thesis using False inv by (simp add: to_file_def)
  next
    case True
    obtain b t1 where b: "env_ok (E k) t1" "holds kLogBufferSize b (stmt_line (E k) ts wd st)"
      "log_stmt_exec IO (E k) ts wd L st (w, T k) = ebind (appender_append p b w) (\<lambda>w.
        if st_level st = FATAL then Inr (Exited, appender_flush IO p w, t1) else Inr (Returned, w, t1))"
      using log_stmt_line[OF E st L' p True, of ts wd IO w] by blast
    then have w': "appender_append p b w = Inr w'" "t' = t1"
      using x by (cases "appender_append p b w"; simp split: if_splits)+
    show ?thesis
    proof (cases p)
      case StdoutLogAppender
      then show ?thesis using inv w' b(1) p by (auto simp: log_inv_def to_file_def appender_append_def append_stdout_def ebind_eq_Inr)
    next
      case (FileLogAppender j)
      obtain f a where f: "lw_files w j = Some f" "ap_append b (ap f) = Inr a"
        "w' = w\<lparr>lw_files := (lw_files w)(j \<mapsto> f\<lparr>ap := a, appended := appended f @ [stmt_line (E k) ts wd st]\<rparr>)\<rparr>"
        using w'(1) FileLogAppender holds_text[OF b(2)] by (auto simp: appender_append_def ebind_eq_Inr split: option.splits)
      have "ap_step IO f (f\<lparr>ap := a, appended := appended f @ [stmt_line (E k) ts wd st]\<rparr>)"
        using b(2) f(2) by (rule step_append)
      then show ?thesis using inv w'(2) b(1) p True f FileLogAppender
        by (auto simp: log_inv_def to_file_def intro: rtranclp.rtrancl_into_rtrancl)
    qed
  qed
qed

lemma log_inv_logger:
  assumes "log_inv IO E i f0 out (w, T)" and "logFormatter L = Some DefaultLogFormatter" and "logAppender L \<noteq> None"
  shows "log_inv IO E i f0 out (w\<lparr>loggers := (loggers w)(n \<mapsto> L)\<rparr>, T)"
  using assms by (simp add: log_inv_def)

lemma log_inv_loggers:
  "log_inv IO E i f0 out (w, T) \<Longrightarrow> loggers w n = Some L \<Longrightarrow>
   logFormatter L = Some DefaultLogFormatter \<and> logAppender L \<noteq> None"
  by (simp add: log_inv_def)

lemma log_runs_inv:
  assumes "log_runs IO E ts wd i c out c'" and "log_inv IO E i f0 [] c"
  shows "log_inv IO E i f0 out c'"
  using assms
proof (induction rule: log_runs.induct)
  case (run_stmt out w T n L st k w' t')
  then show ?case using log_inv_stmt by blast
next
  case (run_background out w T j f f')
  have "log_inv IO E i f0 out (w, T)" using run_background by blast
  moreover have "ap_steps IO f0 f' \<and> appended f' = appended f0 @ out" if "ap_steps IO f0 f" "appended f = appended f0 @ out"
    using rtranclp.rtrancl_into_rtrancl[OF that(1) run_background(3)] that(2) run_background(4) by simp
  ultimately show ?case using run_background(2) by (cases "i = j") (auto simp: log_inv_def)
next
  case (run_getLogger out w T n)
  then have inv: "log_inv IO E i f0 out (w, T)" by blast
  obtain L where L: "logFormatter L = Some DefaultLogFormatter" "logAppender L \<noteq> None"
    "snd (getLogger n w) = w \<or> snd (getLogger n w) = w\<lparr>loggers := (loggers w)(n \<mapsto> L)\<rparr>"
    by (rule that[of "fst (getLogger n (w\<lparr>loggers := (\<lambda>n. None)\<rparr>))"])
      (cases "loggers w n"; simp add: getLogger_def Let_def setLogAppender_def setLogFormatter_def)+
  from L(3) show ?case using log_inv_logger[OF inv L(1,2)] inv by (elim disjE) simp_all
next
  case (run_setLevel out w T n L v)
  then have inv: "log_inv IO E i f0 out (w, T)" by blast
  show ?case
    by (rule log_inv_logger[OF inv]) (use log_inv_loggers[OF inv run_setLevel(2)] in \<open>simp_all add: setLevel_def\<close>)
next
  case (run_setAppender out w T n L p)
  then have inv: "log_inv IO E i f0 out (w, T)" by blast
  show ?case
    by (rule log_inv_logger[OF inv]) (use log_inv_loggers[OF inv run_setAppender(2)] in \<open>simp_all add: setLogAppender_def\<close>)
qed

text \<open>
  C26. Every enabled line reaches the log file or still is in memory, once, whole and in order. Threads
  execute well-formed statements (as for C27), none of them fatal, on loggers with the default formatter;
  the background thread writes one file on a healthy disk; loggers are created, levels and appenders
  change. As long as no batch was dropped (the background thread drops from a batch of more than 24 full
  buffers, and says so), the file followed by the buffers that are taken over, full or current in
  memory is the old file followed by the lines of the statements whose level was enabled when they ran on
  a logger with that appender, in the order in which they were appended. That what is in memory
  at the shutdown is lost is a lemma of theory \<open>Log_Appender\<close>.
\<close>

theorem log_lines_reach_file:
  assumes "io_healthy IO content" and "lw_files w0 i = Some (ap_start l SINGLE_FILE f)" and "\<And>k. env_ok (E k) (T0 k)"
    and "\<forall>n L. loggers w0 n = Some L \<longrightarrow> logFormatter L = Some DefaultLogFormatter \<and> logAppender L \<noteq> None"
    and "log_runs IO E ts wd i (w0, T0) out (w, T)"
  shows "\<exists>a c. lw_files w i = Some a \<and> cacheBuffer (ap a) = Some c \<and>
    (drops a = 0 \<longrightarrow>
       content (fs a) (lf_file l) @ texts (sy_buffers a) @ texts (ap_buffers (ap a)) @ text_of c =
         content f (lf_file l) @ concat out)"
proof -
  have "log_inv IO E i (ap_start l SINGLE_FILE f) [] (w0, T0)" using assms(2,3,4) by (auto simp: log_inv_def)
  from log_runs_inv[OF assms(5) this] obtain a where a: "lw_files w i = Some a" "ap_steps IO (ap_start l SINGLE_FILE f) a"
    "appended a = out" by (auto simp: log_inv_def ap_start_def)
  from ap_steps_inv[OF assms(1) a(2)] show ?thesis using a(1,3) by (auto simp: ap_inv_def)
qed

text \<open>One logger that writes to a file, and one statement.\<close>

definition demo_logger :: Logger where
  "demo_logger = setLevel INFO (setLogAppender (Some (FileLogAppender 0)) (fst (getLogger ''net'' (LoggerManager_new :: unit log_world))))"

definition demo_log_world :: "(path \<Rightarrow> string) log_world" where
  "demo_log_world = LoggerManager_new\<lparr>lw_files := [0 \<mapsto> ap_start demo_log SINGLE_FILE (\<lambda>p. ''x'')], loggers := [''net'' \<mapsto> demo_logger]\<rparr>"

lemma demo_logger_facts:
  "logFormatter demo_logger = Some DefaultLogFormatter" "logAppender demo_logger = Some (FileLogAppender 0)"
  "lg_level demo_logger = INFO"
  by (simp_all add: demo_logger_def getLogger_def LoggerManager_new_def setLevel_def setLogAppender_def setLogFormatter_def
      Logger_named_def Logger_new_def Let_def)

lemma demo_log_runs:
  "\<exists>w T a. lw_files w 0 = Some a \<and> drops a = 0 \<and> log_runs map_io (\<lambda>k. demo_env) (\<lambda>x :: nat. []) id 0 (demo_log_world, \<lambda>k. log_thread_init)
     [stmt_line demo_env (\<lambda>x :: nat. []) id demo_stmt] (w, T)"
proof -
  have on: "lg_level demo_logger \<le> st_level demo_stmt" "st_level demo_stmt \<noteq> FATAL"
    by (simp_all add: demo_logger_facts demo_stmt_def less_eq_LogLevel_def)
  from log_stmt_line[OF demo_env_ok demo_stmt_ok demo_logger_facts(1,2) on(1), of "\<lambda>x. []" id map_io demo_log_world]
  obtain b t where b: "holds kLogBufferSize b (stmt_line demo_env (\<lambda>x. []) id demo_stmt)"
    "log_stmt_exec map_io demo_env (\<lambda>x. []) id demo_logger demo_stmt (demo_log_world, log_thread_init) =
       ebind (appender_append (FileLogAppender 0) b demo_log_world) (\<lambda>w. Inr (Returned, w, t))"
    using on(2) by auto
  obtain a where "ap_append b (ap (ap_start demo_log SINGLE_FILE (\<lambda>p :: path. ''x''))) = Inr a"
    using ap_append_ok[OF b(1), of "ap (ap_start demo_log SINGLE_FILE (\<lambda>p :: path. ''x''))" new_piece "[]"] new_piece_empty
    by (auto simp: ap_start_def ap_new_def)
  then obtain w f where w: "appender_append (FileLogAppender 0) b demo_log_world = Inr w" "lw_files w 0 = Some f" "drops f = 0"
    by (auto simp: appender_append_def demo_log_world_def LoggerManager_new_def ap_start_def)
  have "loggers demo_log_world ''net'' = Some demo_logger" by (simp add: demo_log_world_def)
  from run_stmt[OF run_start this demo_stmt_ok, where IO = map_io and E = "\<lambda>k. demo_env" and ts = "\<lambda>x :: nat. []" and wd = id
      and T = "\<lambda>k. log_thread_init" and k = 0 and w' = w and t' = t and i = 0]
  have "log_runs map_io (\<lambda>k. demo_env) (\<lambda>x :: nat. []) id 0 (demo_log_world, \<lambda>k. log_thread_init)
     [stmt_line demo_env (\<lambda>x :: nat. []) id demo_stmt] (w, (\<lambda>k. log_thread_init)(0 := t))"
    using b(2) w(1) on(1) by (simp add: to_file_def demo_logger_facts)
  then show ?thesis using w(2,3) by blast
qed

theorem log_lines_reach_file_witness:
  "\<exists>(w :: (path \<Rightarrow> string) log_world) a c. lw_files w 0 = Some a \<and> cacheBuffer (ap a) = Some c \<and>
     fs a ''a.log'' @ texts (sy_buffers a) @ texts (ap_buffers (ap a)) @ text_of c =
       ''x2023-02-09 14:30:05.000042 [77] WARN main.cpp:12 - n=42'' @ [CHR 0x0A]"
proof -
  obtain w T a where w: "lw_files w 0 = Some a" "drops a = 0"
    "log_runs map_io (\<lambda>k. demo_env) (\<lambda>x :: nat. []) id 0 (demo_log_world, \<lambda>k. log_thread_init)
       [stmt_line demo_env (\<lambda>x :: nat. []) id demo_stmt] (w, T)" using demo_log_runs by blast
  have f: "lw_files demo_log_world 0 = Some (ap_start demo_log SINGLE_FILE (\<lambda>p. ''x''))" by (simp add: demo_log_world_def)
  have L: "\<forall>n L. loggers demo_log_world n = Some L \<longrightarrow> logFormatter L = Some DefaultLogFormatter \<and> logAppender L \<noteq> None"
    by (auto simp: demo_log_world_def demo_logger_facts split: if_splits)
  have "lf_file demo_log = ''a.log''" by (simp add: demo_log_def)
  then show ?thesis using w(1,2) log_lines_reach_file[OF map_io_healthy f demo_env_ok L w(3)]
    by (intro exI[of _ w] exI[of _ a]) (simp add: demo_stmt_line)
qed

text \<open>
  A fatal line is not flushed: when the process exits, the file is as it was and the line is still in
  the memory of the appender, unless the background thread comes by during the last second.
\<close>

lemma fatal_line_in_memory:
  assumes io: "io_healthy IO content" and E: "env_ok E t" and st: "stmt_ok st" "st_level st = FATAL"
    and L: "logFormatter L = Some DefaultLogFormatter" "logAppender L = Some (FileLogAppender i)" "lg_level L \<le> FATAL"
    and f: "lw_files w i = Some f" and inv: "ap_inv content file base f"
  shows "\<exists>w' t' f'. log_stmt_exec IO E ts wd L st (w, t) = Inr (Exited, w', t') \<and> lw_files w' i = Some f' \<and>
    content (fs f') file = content (fs f) file \<and> appended f' = appended f @ [stmt_line E ts wd st]"
proof -
  obtain b t' where b: "holds kLogBufferSize b (stmt_line E ts wd st)"
    "log_stmt_exec IO E ts wd L st (w, t) = ebind (appender_append (FileLogAppender i) b w) (\<lambda>w.
        Inr (Exited, appender_flush IO (FileLogAppender i) w, t'))"
    using log_stmt_line[OF E st(1) L(1,2), of ts wd IO w] st(2) L(3) by auto
  obtain a where a: "ap_append b (ap f) = Inr a" "ap_inv content file base (f\<lparr>ap := a, appended := appended f @ [stmt_line E ts wd st]\<rparr>)"
    using ap_inv_append[OF inv b(1)] by blast
  then have "lf_file (logFile a) = file" by (simp add: ap_inv_def)
  then show ?thesis using b a(1) f io holds_text[OF b(1)]
    by (auto simp: appender_append_def appender_flush_def io_healthy_def)
qed

text \<open>Without a directory in the path of the source file the name is the null pointer.\<close>

lemma log_without_directory_undefined:
  assumes "CHR ''/'' \<notin> set file"
  shows "formatLogMessage localtime_r k level (LogMessage_new now level file line) s \<noteq> Inr r"
  using assms
  by (cases s) (auto simp: formatLogMessage_def ebind_eq_Inr LogMessage_new_def strrchr_next_def sb_writeCStringPtr_def
      split: prod.splits)

end
