(* ===== verification/Event_Loop_Group.thy ===== *)
theory Event_Loop_Group
  imports Thread_Pool Event_Loop
begin

text \<open>
  \<^verbatim>\<open>nets/net/core/EventLoopGroup\<close>: \<^verbatim>\<open>loopEach\<close> starts one event loop per thread of a pool and waits
  until all of them exist, \<^verbatim>\<open>syncEach\<close> waits until they have ended. The step relation runs the pool
  of \<open>Thread_Pool\<close> as it is, with the calling thread as its only client and the closures of
  \<^verbatim>\<open>loopEach\<close> as its tasks. A loop is named by the number of the closure that made it; what a loop
  does in \<^verbatim>\<open>run\<close> is the subject of \<open>Event_Loop\<close>.
\<close>

section \<open>The group and its threads\<close>

text \<open>
  The caller is outside the group, in the for loop of \<^verbatim>\<open>loopEach\<close> or inside its call of \<^verbatim>\<open>submit\<close>, about
  to test the condition of the wait with the mutex held, asleep, or in \<^verbatim>\<open>syncEach\<close>. A closure is
  about to construct its loop, about to lock the mutex, in \<^verbatim>\<open>run\<close>, has thrown, or has ended.
\<close>

datatype group_main = MIdle | MSubmit nat | MIn nat | MLock | MWaiting | MSync nat

datatype closure = TNew | TPush | TRun | TFailed | TEnded

record loop_group =
  numOfEventLoops :: nat
  loopThreadPool :: pool
  lgLoops :: "nat list"
  lgFutures :: "nat list"
  lgMain :: group_main
  lgClosures :: "nat \<Rightarrow> closure option"

definition lg_new :: "int \<Rightarrow> loop_group res" where
  "lg_new n = ebind (pool_new n n 0) (\<lambda>p.
     Inr \<lparr>numOfEventLoops = nat n, loopThreadPool = p, lgLoops = [], lgFutures = [], lgMain = MIdle,
          lgClosures = (\<lambda>t. None)\<rparr>)"

text \<open>A closure is over when its loop has ended or when it has thrown; then its future is set.\<close>

definition closure_over :: "loop_group \<Rightarrow> nat \<Rightarrow> bool" where
  "closure_over g t \<longleftrightarrow> lgClosures g t = Some TFailed \<or> lgClosures g t = Some TEnded"

definition future_ready :: "loop_group \<Rightarrow> nat \<Rightarrow> bool" where
  "future_ready g t \<longleftrightarrow> t \<in># rejected (loopThreadPool g) \<or> closure_over g t"

text \<open>The critical section of a closure, with the notification inside it.\<close>

definition push_loop :: "nat \<Rightarrow> loop_group \<Rightarrow> loop_group" where
  "push_loop t g =
     (let g = g\<lparr>lgLoops := lgLoops g @ [t]\<rparr>
      in if length (lgLoops g) = numOfEventLoops g \<and> lgMain g = MWaiting then g\<lparr>lgMain := MLock\<rparr> else g)"

definition set_closure :: "nat \<Rightarrow> closure \<Rightarrow> loop_group \<Rightarrow> loop_group" where
  "set_closure t c g = g\<lparr>lgClosures := (lgClosures g)(t \<mapsto> c)\<rparr>"

text \<open>
  A step of the pool by itself, that is, not one in which another caller comes: tasks that start are
  new closures, and a worker is done with a task only when the closure is over.
\<close>

definition pool_moves :: "loop_group \<Rightarrow> pool \<Rightarrow> bool" where
  "pool_moves g p' \<longleftrightarrow>
     submitted p' = submitted (loopThreadPool g) \<and> stoppers p' = stoppers (loopThreadPool g) \<and>
     (\<forall>b t. WRunning b t \<in># workers (loopThreadPool g) \<longrightarrow> WRunning b t \<in># workers p' \<or> closure_over g t)"

definition start_closures :: "pool \<Rightarrow> loop_group \<Rightarrow> loop_group" where
  "start_closures p' g = g\<lparr>loopThreadPool := p', lgClosures := (\<lambda>t.
     if t \<in># started p' \<and> t \<notin># started (loopThreadPool g) then Some TNew else lgClosures g t)\<rparr>"

inductive group_step :: "loop_group \<Rightarrow> loop_group \<Rightarrow> bool" where
  loop_call: "lgMain g = MIdle \<Longrightarrow> group_step g (g\<lparr>lgMain := MSubmit 0\<rparr>)"
| loop_submit: "lgMain g = MSubmit i \<Longrightarrow> i < numOfEventLoops g \<Longrightarrow> t = length (lgFutures g) \<Longrightarrow> p = loopThreadPool g \<Longrightarrow>
    group_step g (g\<lparr>loopThreadPool := p\<lparr>clients := add_mset (CExec t) (clients p), submitted := add_mset t (submitted p)\<rparr>,
      lgMain := MIn i\<rparr>)"
| loop_submitted: "lgMain g = MIn i \<Longrightarrow> clients (loopThreadPool g) = {#} \<Longrightarrow>
    group_step g (g\<lparr>lgFutures := lgFutures g @ [length (lgFutures g)], lgMain := MSubmit (Suc i)\<rparr>)"
| loop_wait: "lgMain g = MSubmit i \<Longrightarrow> i \<ge> numOfEventLoops g \<Longrightarrow> group_step g (g\<lparr>lgMain := MLock\<rparr>)"
| loop_return: "lgMain g = MLock \<Longrightarrow> length (lgLoops g) = numOfEventLoops g \<Longrightarrow> group_step g (g\<lparr>lgMain := MIdle\<rparr>)"
| loop_sleep: "lgMain g = MLock \<Longrightarrow> length (lgLoops g) \<noteq> numOfEventLoops g \<Longrightarrow> group_step g (g\<lparr>lgMain := MWaiting\<rparr>)"
| loop_spurious: "lgMain g = MWaiting \<Longrightarrow> group_step g (g\<lparr>lgMain := MLock\<rparr>)"
| pool_moved: "pool_step (loopThreadPool g) p' \<Longrightarrow> pool_moves g p' \<Longrightarrow> group_step g (start_closures p' g)"
| closure_made: "lgClosures g t = Some TNew \<Longrightarrow> group_step g (set_closure t TPush g)"
| closure_threw: "lgClosures g t = Some TNew \<Longrightarrow> group_step g (set_closure t TFailed g)"
| closure_push: "lgClosures g t = Some TPush \<Longrightarrow> group_step g (set_closure t TRun (push_loop t g))"
| closure_end: "lgClosures g t = Some TRun \<Longrightarrow> group_step g (set_closure t TEnded g)"
| sync_call: "lgMain g = MIdle \<Longrightarrow> group_step g (g\<lparr>lgMain := MSync 0\<rparr>)"
| sync_waited: "lgMain g = MSync i \<Longrightarrow> i < length (lgFutures g) \<Longrightarrow> future_ready g (lgFutures g ! i) \<Longrightarrow>
    group_step g (g\<lparr>lgMain := MSync (Suc i)\<rparr>)"
| sync_return: "lgMain g = MSync i \<Longrightarrow> i \<ge> length (lgFutures g) \<Longrightarrow> group_step g (g\<lparr>lgMain := MIdle\<rparr>)"

abbreviation group_steps :: "loop_group \<Rightarrow> loop_group \<Rightarrow> bool" where
  "group_steps \<equiv> group_step\<^sup>*\<^sup>*"

section \<open>The pool under one client\<close>

text \<open>
  The call of \<^verbatim>\<open>execute\<close> in progress for task \<open>j\<close>: the first \<open>n\<close> tasks each become a core thread; a
  later one (of a second \<^verbatim>\<open>loopEach\<close>) finds no place and, as the queue has length 0, is refused.
\<close>

definition phase_client :: "nat \<Rightarrow> nat \<Rightarrow> 32 word \<Rightarrow> client \<Rightarrow> bool" where
  "phase_client n j c x \<longleftrightarrow>
     (if j < n then (x = CExec j \<or> x = CAdd True j \<or> x = CAddCas True j c) \<and> c = enc True j \<or>
                    x = CCommit True j \<and> c = enc True (Suc j)
      else c = enc True n \<and> (x = CExec j \<or> x = CPush j c \<or> x = CAdd False j))"

definition core_stays :: "worker \<Rightarrow> bool" where
  "core_stays w \<longleftrightarrow> is_core w \<and> (\<forall>b. w \<noteq> WRelease b)"

lemma core_stays_simps [simp]:
  "core_stays (WRunning b t) = b" "core_stays (WLoop b) = b" "core_stays (WTake b) = b" "core_stays (WBlocking b) = b"
  "core_stays (WAsleep b) = b" "\<not> core_stays (WRelease b)"
  by (simp_all add: core_stays_def)

definition pool_sized :: "nat \<Rightarrow> nat \<Rightarrow> pool \<Rightarrow> bool" where
  "pool_sized n j p \<longleftrightarrow> corePoolSize p = n \<and> maximumPoolSize p = n \<and> taskQueue p = \<lparr>maxQueueSize = 0, queue = []\<rparr> \<and>
     stoppers p = {#} \<and> (\<forall>w\<in>#workers p. core_stays w) \<and> size (workers p) = min j n \<and>
     started p = mset [0..<min j n] \<and> rejected p = mset [n..<j]"

definition phase :: "nat \<Rightarrow> nat \<Rightarrow> client option \<Rightarrow> pool \<Rightarrow> bool" where
  "phase n j x p \<longleftrightarrow> 0 < n \<and> n < 2 ^ 30 \<and> pool_sized n j p \<and>
     clients p = (case x of None \<Rightarrow> {#} | Some c \<Rightarrow> {#c#}) \<and>
     (x = None \<longrightarrow> ctl p = enc True (min j n)) \<and> (\<forall>c. x = Some c \<longrightarrow> phase_client n j (ctl p) c)"

lemma phase_running: "phase n j x p \<Longrightarrow> isRunning (ctl p) \<and> \<not> isShutdown (ctl p)"
  using enc_facts(1,2)[of j True] enc_facts(1,2)[of n True] enc_facts(1,2)[of "min j n" True] enc_facts(1,2)[of "Suc j" True]
  by (cases x) (auto simp: phase_def phase_client_def min_def split: if_splits)

text \<open>The steps of the workers keep the phase.\<close>

lemma phase_workers:
  assumes "phase n j x p" and "\<forall>w\<in>#W. core_stays w" and "size W = size (workers p)"
  shows "phase n j x (p\<lparr>workers := W, queueLocked := l\<rparr>)" and "phase n j x (p\<lparr>workers := W\<rparr>)"
  using assms by (auto simp: phase_def pool_sized_def)

lemma phase_client_step:
  assumes ph: "phase n j (Some c) p" and "phase_client n j v c'"
  shows "phase n j (Some c') (p\<lparr>clients := {#c'#}, ctl := v\<rparr>)" and "v = ctl p \<Longrightarrow> phase n j (Some c') (p\<lparr>clients := {#c'#}\<rparr>)"
  using assms by (auto simp: phase_def pool_sized_def)

lemma phase_accepted:
  assumes "phase n j (Some (CCommit b t)) p"
  shows "phase n (Suc j) None (p\<lparr>clients := {#}, workers := add_mset (WRunning b t) (workers p),
    accepted := add_mset t (accepted p), started := add_mset t (started p)\<rparr>)"
  using assms by (auto simp: phase_def pool_sized_def phase_client_def min_def atLeast0_lessThan_Suc
      split: if_splits)

lemma phase_refused:
  assumes "phase n j (Some (CAdd False t)) p"
  shows "phase n (Suc j) None (p\<lparr>clients := {#}, rejected := add_mset t (rejected p)\<rparr>)"
  using assms by (auto simp: phase_def pool_sized_def phase_client_def min_def split: if_splits)

lemma phase_one:
  assumes "phase n j x p" and "clients p = add_mset y M"
  shows "x = Some y \<and> M = {#} \<and> phase_client n j (ctl p) y \<and> (j < n \<or> ctl p = enc True n)"
  using assms by (cases x) (auto simp: phase_def phase_client_def)

lemma phase_none:
  assumes "phase n j x p"
  shows "workers p = add_mset w W \<Longrightarrow> core_stays w \<and> (\<forall>w\<in>#W. core_stays w)" "queue (taskQueue p) = []"
    "maxQueueSize (taskQueue p) = 0" "stoppers p = {#}" "corePoolSize p = n" "maximumPoolSize p = n"
  using assms by (auto simp: phase_def pool_sized_def)

lemma phase_counts:
  assumes "phase n j x p" and "ctl p = enc True k" and "k \<le> n"
  shows "numOfActiveThreads (ctl p) = k" "\<not> isShutdown (ctl p)" "isRunning (ctl p)"
    "addThreadTask_try p b (ctl p) \<longleftrightarrow> k < n" "k < n \<Longrightarrow> ctl p + 1 = enc True (Suc k)"
  using assms enc_facts[of k True] enc_inc[of k True] by (auto simp: phase_def pool_sized_def addThreadTask_try_def)

definition phase_goal :: "nat \<Rightarrow> nat \<Rightarrow> client option \<Rightarrow> pool \<Rightarrow> bool" where
  "phase_goal n j x p' \<longleftrightarrow> (\<exists>x'. phase n j x' p' \<and> (x = None \<longleftrightarrow> x' = None)) \<or> x \<noteq> None \<and> phase n (Suc j) None p'"

lemma phase_goal_client: "phase n j (Some c') p' \<Longrightarrow> phase_goal n j (Some c) p'"
  unfolding phase_goal_def by blast

lemma phase_goal_same: "phase n j x p' \<Longrightarrow> phase_goal n j x p'"
  unfolding phase_goal_def by blast

lemma phase_goal_next: "phase n (Suc j) None p' \<Longrightarrow> phase_goal n j (Some c) p'"
  unfolding phase_goal_def by blast

lemma phase_worker:
  assumes ph: "phase n j x p" and w: "workers p = add_mset w W" and "core_stays w'"
  shows "phase_goal n j x (p\<lparr>workers := add_mset w' W\<rparr>)" "phase_goal n j x (p\<lparr>workers := add_mset w' W, queueLocked := l\<rparr>)"
  using phase_none(1)[OF ph w] phase_workers[OF ph, of "add_mset w' W"] assms(3) w
  by (auto intro!: phase_goal_same)

lemma phase_step:
  assumes "pool_step p p'" and ph: "phase n j x p" and "submitted p' = submitted p" and "stoppers p' = stoppers p"
  shows "phase_goal n j x p'"
  using assms(1)
proof (cases rule: pool_step.cases)
  case (exec_first t M c)
  note o = phase_one[OF ph exec_first(2)]
  have "phase_client n j (ctl p) c"
    using o exec_first(3) phase_counts[OF ph, of j] phase_counts[OF ph, of n] phase_none(5)[OF ph]
    by (auto simp: phase_client_def execute_first_def split: if_splits)
  then show ?thesis using phase_client_step(2)[of n j "CExec t" p] o exec_first(1) ph by (auto intro: phase_goal_client)
next
  case (exec_refused t M)
  then show ?thesis using phase_running[OF ph] by (auto simp: execute_first_def split: if_splits)
next
  case (add_load b t M)
  note o = phase_one[OF ph add_load(2)]
  have "phase_client n j (ctl p) (CAddCas b t (ctl p))"
    using o add_load(3) phase_counts(4)[OF ph, of n b] by (auto simp: phase_client_def split: if_splits)
  then show ?thesis using phase_client_step(2)[of n j "CAdd b t" p] o add_load(1) ph by (auto intro: phase_goal_client)
next
  case (add_give_up b t M)
  note o = phase_one[OF ph add_give_up(2)]
  have b: "\<not> b" using o add_give_up(3) phase_counts(4)[OF ph, of j b] by (auto simp: phase_client_def split: if_splits)
  then show ?thesis using phase_refused[of n j t p] o add_give_up(1) ph by (auto simp: add_failed_def intro!: phase_goal_next)
next
  case (add_cas b t c M)
  note o = phase_one[OF ph add_cas(2)]
  then have "phase_client n j (c + 1) (CCommit b t)"
    using add_cas(3) phase_counts(5)[OF ph, of j] by (auto simp: phase_client_def split: if_splits)
  then show ?thesis using phase_client_step(1)[of n j "CAddCas b t c" p "c + 1" "CCommit b t"] o add_cas(1) ph
    by (auto intro: phase_goal_client)
next
  case (add_cas_lost b t c M)
  then show ?thesis using phase_one[OF ph add_cas_lost(2)] by (auto simp: phase_client_def split: if_splits)
next
  case (add_commit b t M)
  then show ?thesis using phase_one[OF ph add_commit(2)] phase_accepted[of n j b t p] ph by (auto intro: phase_goal_next)
next
  case (add_undo b t M)
  then show ?thesis using phase_running[OF ph] by simp
next
  case (exec_reload t M)
  then show ?thesis using phase_one[OF ph exec_reload(2)] by (auto simp: phase_client_def split: if_splits)
next
  case (exec_push t c M q)
  then show ?thesis using phase_none(2,3)[OF ph] by (simp add: tryPush_copy_def isFull_def split: if_splits)
next
  case (exec_push_failed t c M owns q)
  note o = phase_one[OF ph exec_push_failed(2)]
  then have "phase_client n j (ctl p) (CAdd False t)" by (auto simp: phase_client_def split: if_splits)
  then show ?thesis using phase_client_step(2)[of n j "CPush t c" p] o exec_push_failed(1) ph by (auto intro: phase_goal_client)
next
  case (exec_notify M b W)
  then show ?thesis using phase_one[OF ph exec_notify(2)] by (auto simp: phase_client_def split: if_splits)
next
  case (exec_notify_none M)
  then show ?thesis using phase_one[OF ph exec_notify_none(2)] by (auto simp: phase_client_def split: if_splits)
next
  case (work_done b t W)
  then show ?thesis using phase_worker(1)[OF ph work_done(2)] phase_none(1)[OF ph work_done(2)] by simp
next
  case (work_loop b W)
  then show ?thesis using phase_worker(1)[OF ph work_loop(2)] phase_none(1)[OF ph work_loop(2)] by simp
next
  case (work_leave b W)
  then show ?thesis using phase_running[OF ph] by simp
next
  case (work_take b W late t q)
  then show ?thesis using worker_take_some phase_none(2)[OF ph] by fastforce
next
  case (work_nothing b W late q)
  then have "isShutdown (ctl p) \<or> \<not> b" using worker_take_none by blast
  then show ?thesis using phase_running[OF ph] phase_none(1)[OF ph work_nothing(2)] by simp
next
  case (work_block b W)
  then show ?thesis using phase_worker(2)[OF ph work_block(2)] phase_none(1)[OF ph work_block(2)] by simp
next
  case (work_sleep b W)
  then show ?thesis using phase_worker(2)[OF ph work_sleep(2)] phase_none(1)[OF ph work_sleep(2)] by simp
next
  case (work_wake b W)
  then show ?thesis using phase_worker(1)[OF ph work_wake(2)] phase_none(1)[OF ph work_wake(2)] by simp
next
  case (work_release b W)
  then show ?thesis using phase_none(1)[OF ph work_release(2)] by simp
qed (use assms(3,4) phase_none(4)[OF ph] in auto)

section \<open>Invariant of the group\<close>

definition in_submit :: "group_main \<Rightarrow> bool" where
  "in_submit m \<longleftrightarrow> (\<exists>i. m = MIn i)"

definition pool_ok :: "loop_group \<Rightarrow> bool" where
  "pool_ok g \<longleftrightarrow>
     (let n = numOfEventLoops g; j = length (lgFutures g); p = loopThreadPool g
      in if in_submit (lgMain g) then (\<exists>c. phase n j (Some c) p) \<or> phase n (Suc j) None p else phase n j None p)"

definition loops_ok :: "loop_group \<Rightarrow> bool" where
  "loops_ok g \<longleftrightarrow> distinct (lgLoops g) \<and>
     (\<forall>t. t \<in> set (lgLoops g) \<longleftrightarrow> lgClosures g t = Some TRun \<or> lgClosures g t = Some TEnded) \<and>
     (\<forall>t. lgClosures g t \<noteq> None \<longleftrightarrow> t \<in># started (loopThreadPool g))"

definition main_ok :: "loop_group \<Rightarrow> bool" where
  "main_ok g \<longleftrightarrow>
     (let n = numOfEventLoops g; j = length (lgFutures g); full = (j > 0 \<longrightarrow> length (lgLoops g) = n)
      in case lgMain g of
           MIdle \<Rightarrow> full
         | MSubmit i \<Rightarrow> i \<le> j
         | MIn i \<Rightarrow> i \<le> j
         | MLock \<Rightarrow> n \<le> j
         | MWaiting \<Rightarrow> n \<le> j \<and> length (lgLoops g) < n
         | MSync i \<Rightarrow> full \<and> (\<forall>k<i. k < j \<longrightarrow> future_ready g k))"

definition group_inv :: "loop_group \<Rightarrow> bool" where
  "group_inv g \<longleftrightarrow> lgFutures g = [0..<length (lgFutures g)] \<and> pool_ok g \<and> loops_ok g \<and> main_ok g"

lemma phase_started: "phase n j x p \<Longrightarrow> t \<in># started p \<longleftrightarrow> t < j \<and> t < n"
  by (auto simp: phase_def pool_sized_def)

lemma pool_ok_started:
  assumes "pool_ok g" and "t \<in># started (loopThreadPool g)"
  shows "t < numOfEventLoops g"
  using assms phase_started by (fastforce simp: pool_ok_def Let_def split: if_splits)

lemma loops_bound:
  assumes "pool_ok g" and "loops_ok g"
  shows "set (lgLoops g) \<subseteq> {..<numOfEventLoops g}" and "length (lgLoops g) \<le> numOfEventLoops g"
proof -
  show 1: "set (lgLoops g) \<subseteq> {..<numOfEventLoops g}"
  proof
    fix t assume "t \<in> set (lgLoops g)"
    then have "lgClosures g t \<noteq> None" using assms(2) by (auto simp: loops_ok_def)
    then show "t \<in> {..<numOfEventLoops g}" using assms(2) pool_ok_started[OF assms(1)] by (simp add: loops_ok_def)
  qed
  have "length (lgLoops g) = card (set (lgLoops g))" using assms(2) by (simp add: loops_ok_def distinct_card)
  also have "\<dots> \<le> card {..<numOfEventLoops g}" using 1 by (intro card_mono) auto
  finally show "length (lgLoops g) \<le> numOfEventLoops g" by simp
qed

lemma future_ready_mono:
  assumes "future_ready g k" and "k \<in># rejected (loopThreadPool g) \<Longrightarrow> k \<in># rejected (loopThreadPool g')"
    and "closure_over g k \<Longrightarrow> closure_over g' k"
  shows "future_ready g' k"
  using assms by (auto simp: future_ready_def)

text \<open>A move of the pool keeps or finishes the submission in progress.\<close>

lemma pool_moved_ok:
  assumes ok: "pool_ok g" and st: "pool_step (loopThreadPool g) p'" and mv: "pool_moves g p'"
  shows "pool_ok (g\<lparr>loopThreadPool := p'\<rparr>)" and "set_mset (started (loopThreadPool g)) \<subseteq> set_mset (started p')"
    and "set_mset (rejected (loopThreadPool g)) \<subseteq> set_mset (rejected p')"
proof -
  let ?n = "numOfEventLoops g" and ?j = "length (lgFutures g)" and ?p = "loopThreadPool g"
  have same: "submitted p' = submitted ?p" "stoppers p' = stoppers ?p" using mv by (auto simp: pool_moves_def)
  have rej: "phase n j x p \<Longrightarrow> set_mset (rejected p) = {n..<j}" for n j x p
    by (auto simp: phase_def pool_sized_def)
  obtain k x where kx: "phase ?n k x ?p" "k = ?j \<and> (in_submit (lgMain g) \<longleftrightarrow> x \<noteq> None) \<or> in_submit (lgMain g) \<and> k = Suc ?j \<and> x = None"
    using ok by (auto simp: pool_ok_def Let_def split: if_splits)
  from phase_step[OF st kx(1) same] consider x' where "phase ?n k x' p'" "x = None \<longleftrightarrow> x' = None" | "x \<noteq> None" "phase ?n (Suc k) None p'"
    unfolding phase_goal_def by blast
  then show "pool_ok (g\<lparr>loopThreadPool := p'\<rparr>)" "set_mset (started ?p) \<subseteq> set_mset (started p')"
      "set_mset (rejected ?p) \<subseteq> set_mset (rejected p')"
    using kx phase_started[of ?n] rej[of ?n] by (cases; auto simp: pool_ok_def Let_def)+
qed

lemma phase_submit:
  "phase n j None p \<Longrightarrow>
   phase n j (Some (CExec j)) (p\<lparr>clients := add_mset (CExec j) (clients p), submitted := S\<rparr>)"
  by (auto simp: phase_def pool_sized_def phase_client_def min_def split: if_splits)

text \<open>Steps of the caller that touch neither the pool nor the closures.\<close>

lemma main_step_ok:
  assumes "group_inv g" and "main_ok (g\<lparr>lgMain := m\<rparr>)" and "in_submit m \<longleftrightarrow> in_submit (lgMain g)"
  shows "group_inv (g\<lparr>lgMain := m\<rparr>)"
  using assms by (auto simp: group_inv_def pool_ok_def loops_ok_def Let_def)

text \<open>Steps of a closure.\<close>

lemma closure_step_ok:
  assumes inv: "group_inv g" and c: "lgClosures g t = Some c" "c \<noteq> TFailed" "c \<noteq> TEnded"
    and c': "c' = TRun \<or> c' = TEnded \<longleftrightarrow> c = TRun"
  shows "group_inv (set_closure t c' g)"
proof -
  have "future_ready (set_closure t c' g) k" if "future_ready g k" for k
    using that c by (auto simp: future_ready_def closure_over_def set_closure_def)
  then have "main_ok (set_closure t c' g)"
    using inv by (auto simp: group_inv_def main_ok_def set_closure_def Let_def split: group_main.splits)
  moreover have "loops_ok (set_closure t c' g)"
    using inv c c' by (auto simp: group_inv_def loops_ok_def set_closure_def)
  ultimately show ?thesis using inv by (auto simp: group_inv_def set_closure_def pool_ok_def Let_def)
qed

lemma push_loop_fields:
  "lgLoops (push_loop t g) = lgLoops g @ [t]" "lgClosures (push_loop t g) = lgClosures g"
  "loopThreadPool (push_loop t g) = loopThreadPool g" "lgFutures (push_loop t g) = lgFutures g"
  "numOfEventLoops (push_loop t g) = numOfEventLoops g"
  "lgMain (push_loop t g) = (if Suc (length (lgLoops g)) = numOfEventLoops g \<and> lgMain g = MWaiting then MLock else lgMain g)"
  by (simp_all add: push_loop_def Let_def)

lemma closure_push_ok:
  assumes inv: "group_inv g" and c: "lgClosures g t = Some TPush"
  shows "group_inv (set_closure t TRun (push_loop t g))" (is "group_inv ?g")
proof -
  have ok: "pool_ok g" "loops_ok g" "main_ok g" "lgFutures g = [0..<length (lgFutures g)]"
    using inv by (auto simp: group_inv_def)
  have "t \<notin> set (lgLoops g)" using ok(2) c by (auto simp: loops_ok_def)
  then have l: "loops_ok ?g" using ok(2) c by (auto simp: loops_ok_def set_closure_def push_loop_fields)
  have p: "pool_ok ?g" using ok(1) by (auto simp: pool_ok_def set_closure_def push_loop_fields in_submit_def Let_def)
  have len: "Suc (length (lgLoops g)) \<le> numOfEventLoops g"
    using loops_bound(2)[OF p l] by (simp add: set_closure_def push_loop_fields)
  have "future_ready ?g k" if "future_ready g k" for k
    using that c by (auto simp: future_ready_def closure_over_def set_closure_def push_loop_fields)
  moreover have "lgMain g \<noteq> MIdle \<and> (\<forall>i. lgMain g \<noteq> MSync i) \<or> lgFutures g = []"
    using ok(3) len by (auto simp: main_ok_def Let_def)
  ultimately have "main_ok ?g"
    using ok(3) len by (auto simp: main_ok_def set_closure_def push_loop_fields Let_def split: group_main.splits)
  then show ?thesis using p l ok(4) by (simp add: group_inv_def set_closure_def push_loop_fields)
qed

lemma start_closures_ok:
  assumes inv: "group_inv g" and st: "pool_step (loopThreadPool g) p'" and mv: "pool_moves g p'"
  shows "group_inv (start_closures p' g)"
proof -
  have ok: "pool_ok g" "loops_ok g" "main_ok g" "lgFutures g = [0..<length (lgFutures g)]"
    using inv by (auto simp: group_inv_def)
  note m = pool_moved_ok[OF ok(1) st mv]
  have old: "lgClosures (start_closures p' g) t = lgClosures g t" if "lgClosures g t \<noteq> None" for t
    using that ok(2) by (simp add: loops_ok_def start_closures_def)
  have pp: "loopThreadPool (start_closures p' g) = p'" by (simp add: start_closures_def)
  have "loops_ok (start_closures p' g)"
    using ok(2) m(2) by (auto simp: loops_ok_def start_closures_def)
  moreover have "pool_ok (start_closures p' g)" using m(1) by (simp add: pool_ok_def start_closures_def)
  moreover have "future_ready (start_closures p' g) k" if "future_ready g k" for k
    using that m(3) old[of k] pp by (auto simp: future_ready_def closure_over_def)
  then have "main_ok (start_closures p' g)"
    using ok(3) by (auto simp: main_ok_def start_closures_def Let_def split: group_main.splits)
  ultimately show ?thesis using ok(4) by (simp add: group_inv_def start_closures_def)
qed

lemma group_step_inv:
  assumes "group_step g g'" and inv: "group_inv g"
  shows "group_inv g'"
proof -
  have ok: "pool_ok g" "loops_ok g" "main_ok g" "lgFutures g = [0..<length (lgFutures g)]"
    using inv by (auto simp: group_inv_def)
  show ?thesis using assms(1)
  proof cases
    case (loop_submit i t p)
    then have "phase (numOfEventLoops g) t (Some (CExec t)) (loopThreadPool g')"
      using ok(1) phase_submit by (simp add: pool_ok_def in_submit_def Let_def)
    then have "pool_ok g'" using loop_submit by (auto simp: pool_ok_def in_submit_def Let_def)
    then show ?thesis using ok loop_submit by (simp add: group_inv_def loops_ok_def main_ok_def Let_def)
  next
    case (loop_submitted i)
    have "phase (numOfEventLoops g) (Suc (length (lgFutures g))) None (loopThreadPool g)"
      using ok(1) loop_submitted(2,3) by (auto simp: pool_ok_def in_submit_def phase_def Let_def)
    then show ?thesis using loop_submitted ok
      by (auto simp: group_inv_def pool_ok_def loops_ok_def main_ok_def in_submit_def Let_def)
  next
    case (pool_moved p')
    then show ?thesis using start_closures_ok[OF inv] by simp
  next
    case (closure_made t)
    then show ?thesis using closure_step_ok[OF inv] by simp
  next
    case (closure_threw t)
    then show ?thesis using closure_step_ok[OF inv] by simp
  next
    case (closure_push t)
    then show ?thesis using closure_push_ok[OF inv] by simp
  next
    case (closure_end t)
    then show ?thesis using closure_step_ok[OF inv] by simp
  next
    case (sync_waited i)
    then have "lgFutures g ! i = i" using ok(4) by (metis add_0 nth_upt length_upt minus_nat.diff_0)
    then show ?thesis using sync_waited ok(3)
      by (auto intro!: main_step_ok[OF inv] simp: main_ok_def in_submit_def Let_def less_Suc_eq future_ready_def closure_over_def)
  next
    case loop_sleep
    then show ?thesis using ok(3) loops_bound(2)[OF ok(1,2)]
      by (auto intro!: main_step_ok[OF inv] simp: main_ok_def in_submit_def Let_def)
  qed (use ok(3) in \<open>auto intro!: main_step_ok[OF inv] simp: main_ok_def in_submit_def future_ready_def closure_over_def Let_def\<close>)
qed

lemma lg_new_inv:
  assumes "lg_new n = Inr g" and "n < 2 ^ 30"
  shows "group_inv g" and "numOfEventLoops g = nat n" and "0 < n"
  using assms enc_new
  by (auto simp: lg_new_def pool_new_def group_inv_def pool_ok_def loops_ok_def main_ok_def in_submit_def phase_def
      pool_sized_def bbq_new_def Let_def split: if_splits)

lemma group_steps_inv:
  "group_steps g g' \<Longrightarrow> group_inv g \<Longrightarrow> group_inv g' \<and> numOfEventLoops g' = numOfEventLoops g"
proof (induction rule: rtranclp_induct)
  case (step g1 g2)
  have "numOfEventLoops g2 = numOfEventLoops g1"
    using step(2) by cases (simp_all add: start_closures_def set_closure_def push_loop_fields)
  then show ?case using step group_step_inv by auto
qed simp

section \<open>Starting and waiting\<close>

lemma all_started:
  assumes inv: "group_inv g" and j: "numOfEventLoops g \<le> length (lgFutures g)" and t: "t < numOfEventLoops g"
  shows "lgClosures g t \<noteq> None" and "t \<notin># rejected (loopThreadPool g)"
proof -
  let ?n = "numOfEventLoops g"
  obtain k x where k: "phase ?n k x (loopThreadPool g)" "?n \<le> k"
    using inv j by (auto simp: group_inv_def pool_ok_def Let_def split: if_splits)
  show "lgClosures g t \<noteq> None" using inv phase_started[OF k(1), of t] k(2) t by (simp add: group_inv_def loops_ok_def)
  show "t \<notin># rejected (loopThreadPool g)" using k(1) t by (auto simp: phase_def pool_sized_def)
qed

lemma full_group:
  assumes inv: "group_inv g" and "length (lgLoops g) = numOfEventLoops g"
  shows "set (lgLoops g) = {..<numOfEventLoops g}"
proof (rule card_subset_eq)
  have ok: "pool_ok g" "loops_ok g" using inv by (auto simp: group_inv_def)
  then show "set (lgLoops g) \<subseteq> {..<numOfEventLoops g}" by (rule loops_bound)
  show "card (set (lgLoops g)) = card {..<numOfEventLoops g}"
    using ok(2) assms(2) by (simp add: loops_ok_def distinct_card)
qed simp

text \<open>
  C28. \<^verbatim>\<open>loopEach\<close> returns exactly when all loops exist. In every run of a group of \<open>n\<close> loops on its own
  thread pool: once a call has returned, the group has \<open>n\<close> different loops, made by the first \<open>n\<close>
  tasks, so \<^verbatim>\<open>next\<close> never reads outside the vector; a second call (from \<^verbatim>\<open>connect\<close> after \<^verbatim>\<open>bind\<close>) makes no
  more of them; and the caller never sleeps for ever without cause: while it waits, some closure has
  still to construct or to register its loop, and the last one wakes it, unless a constructor threw.
\<close>

theorem loopEach_starts_all:
  assumes "lg_new n = Inr g0" and "n < 2 ^ 30" and "group_steps g0 g"
  shows "((lgMain g = MIdle \<or> lgMain g = MSync i) \<and> lgFutures g \<noteq> [] \<longrightarrow>
           distinct (lgLoops g) \<and> set (lgLoops g) = {..<nat n} \<and>
           (\<forall>k<nat n. group_next \<lparr>nextLoop = k, eventLoops = lgLoops g\<rparr> \<noteq> Inl Undefined)) \<and>
         (lgMain g = MWaiting \<longrightarrow>
           (\<exists>t<nat n. lgClosures g t = Some TNew \<or> lgClosures g t = Some TPush \<or> lgClosures g t = Some TFailed))"
proof -
  note new = lg_new_inv[OF assms(1,2)]
  have inv: "group_inv g" and n: "numOfEventLoops g = nat n"
    using group_steps_inv[OF assms(3) new(1)] new(2) by auto
  then have ok: "main_ok g" "loops_ok g" "pool_ok g" by (auto simp: group_inv_def)
  have "distinct (lgLoops g) \<and> set (lgLoops g) = {..<nat n} \<and> length (lgLoops g) = nat n"
    if "lgMain g = MIdle \<or> lgMain g = MSync i" "lgFutures g \<noteq> []"
    using that ok full_group[OF inv] n by (auto simp: main_ok_def loops_ok_def Let_def)
  moreover have "\<exists>t<nat n. lgClosures g t = Some TNew \<or> lgClosures g t = Some TPush \<or> lgClosures g t = Some TFailed"
    if w: "lgMain g = MWaiting"
  proof -
    have j: "nat n \<le> length (lgFutures g)" and l: "length (lgLoops g) < nat n" using ok(1) w n by (auto simp: main_ok_def Let_def)
    have "card (set (lgLoops g)) < card {..<nat n}" using l card_length[of "lgLoops g"] by simp
    then obtain t where t: "t < nat n" "t \<notin> set (lgLoops g)"
      by (metis card_mono finite_set lessThan_iff not_less subsetI)
    have "lgClosures g t \<noteq> None" using all_started(1)[OF inv, of t] j n t(1) by simp
    then obtain c where c: "lgClosures g t = Some c" by auto
    then have "c \<noteq> TRun \<and> c \<noteq> TEnded" using t(2) ok(2) by (auto simp: loops_ok_def)
    then have "c = TNew \<or> c = TPush \<or> c = TFailed" by (cases c) auto
    then show ?thesis using t(1) c by auto
  qed
  ultimately show ?thesis by (auto simp: group_next_def Let_def)
qed

text \<open>\<^verbatim>\<open>syncEach\<close> returns only when every loop has ended.\<close>

lemma sync_over:
  assumes inv: "group_inv g" and "lgFutures g \<noteq> []" and "lgMain g = MSync i" and "i \<ge> length (lgFutures g)"
    and t: "t < numOfEventLoops g"
  shows "lgClosures g t = Some TEnded"
proof -
  have ok: "main_ok g" "loops_ok g" "pool_ok g" using inv by (auto simp: group_inv_def)
  have l: "length (lgLoops g) = numOfEventLoops g" and r: "\<And>k. k < length (lgFutures g) \<Longrightarrow> future_ready g k"
    using ok(1) assms(2,3,4) by (auto simp: main_ok_def Let_def)
  have s: "set (lgLoops g) = {..<numOfEventLoops g}" using full_group[OF inv] l by simp
  have st: "u \<in># started (loopThreadPool g)" if "u < numOfEventLoops g" for u
    using that s ok(2) by (auto simp: loops_ok_def)
  obtain k x where k: "phase (numOfEventLoops g) k x (loopThreadPool g)" "k = length (lgFutures g)"
    using ok(3) assms(3) by (auto simp: pool_ok_def in_submit_def Let_def)
  have "t < length (lgFutures g)" using st[OF t] phase_started[OF k(1)] k(2) by simp
  moreover have "t \<notin># rejected (loopThreadPool g)" using k(1) t by (auto simp: phase_def pool_sized_def)
  ultimately have "closure_over g t" using r[of t] by (simp add: future_ready_def)
  moreover have "t \<in> set (lgLoops g)" using s t by simp
  ultimately show ?thesis using ok(2) by (auto simp: loops_ok_def closure_over_def)
qed

lemma syncEach_waits_for_all:
  assumes "lg_new n = Inr g0" and "n < 2 ^ 30" and "group_steps g0 g" and "lgFutures g \<noteq> []"
    and "lgMain g = MSync i" and "i \<ge> length (lgFutures g)" and "t < nat n"
  shows "lgClosures g t = Some TEnded"
  using sync_over[OF _ assms(4-6)] group_steps_inv[OF assms(3)] lg_new_inv[OF assms(1,2)] assms(7) by simp

text \<open>If a constructor throws, the first call of \<^verbatim>\<open>loopEach\<close> never returns.\<close>

lemma loop_failure_hangs:
  assumes inv: "group_inv g" and f: "lgClosures g t = Some TFailed" and m: "lgMain g \<noteq> MIdle" "\<forall>i. lgMain g \<noteq> MSync i"
    and "group_steps g g'"
  shows "lgMain g' \<noteq> MIdle"
proof -
  from assms(5) have "group_inv g' \<and> lgClosures g' t = Some TFailed \<and> lgMain g' \<noteq> MIdle \<and> (\<forall>i. lgMain g' \<noteq> MSync i)"
  proof (induction rule: rtranclp_induct)
    case (step g1 g2)
    then have i1: "group_inv g1" and f1: "lgClosures g1 t = Some TFailed" and m1: "lgMain g1 \<noteq> MIdle" "\<forall>i. lgMain g1 \<noteq> MSync i"
      by auto
    have short: "length (lgLoops g1) \<noteq> numOfEventLoops g1"
    proof
      assume "length (lgLoops g1) = numOfEventLoops g1"
      then have "t \<in> set (lgLoops g1)" using full_group[OF i1] i1 f1 pool_ok_started[of g1 t]
        by (auto simp: group_inv_def loops_ok_def)
      then show False using i1 f1 by (auto simp: group_inv_def loops_ok_def)
    qed
    have old: "t \<in># started (loopThreadPool g1)" using i1 f1 by (auto simp: group_inv_def loops_ok_def)
    from step(2) have "lgClosures g2 t = Some TFailed \<and> lgMain g2 \<noteq> MIdle \<and> (\<forall>i. lgMain g2 \<noteq> MSync i)"
      by cases (use short old f1 m1 in \<open>auto simp: start_closures_def set_closure_def push_loop_fields\<close>)
    then show ?case using group_step_inv[OF step(2) i1] by simp
  qed (use assms in auto)
  then show ?thesis by simp
qed

text \<open>
  The server accepts from \<^verbatim>\<open>bind\<close> on, but the loops for its connections are only started by \<^verbatim>\<open>sync\<close>: for a
  connection that comes in between, \<^verbatim>\<open>next\<close> reads an element of the empty vector.
\<close>

lemma next_before_loopEach_undefined:
  assumes "lg_new n = Inr g"
  shows "group_next \<lparr>nextLoop = 0, eventLoops = lgLoops g\<rparr> = Inl Undefined"
  using assms by (auto simp: lg_new_def group_next_def ebind_eq_Inr)

text \<open>
  \<^verbatim>\<open>loopEach\<close> may return before a loop is in \<^verbatim>\<open>run\<close>; such a group counts as shut down, and shutting it
  down changes nothing.
\<close>

lemma group_shutdown_before_run:
  assumes "\<forall>s\<in>set (eventLoops g). \<not> running s"
  shows "group_isShutdown g" and "group_shutdown g = g"
  using assms by (auto simp: group_isShutdown_def group_shutdown_def list_all_iff map_idI)

section \<open>A concrete start\<close>

text \<open>A group of one loop, during its first \<^verbatim>\<open>loopEach\<close>.\<close>

definition one_pool :: "32 word \<Rightarrow> worker multiset \<Rightarrow> client multiset \<Rightarrow> nat multiset \<Rightarrow> nat multiset \<Rightarrow> pool" where
  "one_pool c W C sub sta =
     \<lparr>corePoolSize = 1, maximumPoolSize = 1, taskQueue = \<lparr>maxQueueSize = 0, queue = []\<rparr>, queueLocked = False,
      ctl = c, workers = W, clients = C, stoppers = {#}, submitted = sub, accepted = sta, rejected = {#},
      started = sta, discarded = {#}\<rparr>"

definition one_group :: "pool \<Rightarrow> nat list \<Rightarrow> nat list \<Rightarrow> group_main \<Rightarrow> closure option \<Rightarrow> loop_group" where
  "one_group p ls fs m c = \<lparr>numOfEventLoops = 1, loopThreadPool = p, lgLoops = ls, lgFutures = fs, lgMain = m,
     lgClosures = (\<lambda>t. if t = 0 then c else None)\<rparr>"

lemmas one_simps = one_pool_def enc_ones execute_first_def addThreadTask_try_def

abbreviation pool_in :: "client \<Rightarrow> pool" where "pool_in c \<equiv> one_pool (enc True 0) {#} {#c#} {#0#} {#}"

lemma one_pool_steps:
  "pool_step (pool_in (CExec 0)) (pool_in (CAdd True 0))"
  "pool_step (pool_in (CAdd True 0)) (pool_in (CAddCas True 0 (enc True 0)))"
  "pool_step (pool_in (CAddCas True 0 (enc True 0))) (one_pool (enc True 1) {#} {#CCommit True 0#} {#0#} {#})"
  "pool_step (one_pool (enc True 1) {#} {#CCommit True 0#} {#0#} {#})
     (one_pool (enc True 1) {#WRunning True 0#} {#} {#0#} {#0#})"
  using exec_first[of "pool_in (CExec 0)" 0 "{#}"] add_load[of "pool_in (CAdd True 0)" True 0 "{#}"]
    add_cas[of "pool_in (CAddCas True 0 (enc True 0))" True 0 "enc True 0" "{#}"]
    add_commit[of "one_pool (enc True 1) {#} {#CCommit True 0#} {#0#} {#}" True 0 "{#}"]
  by (simp_all add: one_simps)

lemma one_pool_moved:
  assumes "pool_step (one_pool c {#} C {#0#} {#}) (one_pool c' W C' {#0#} S)" and that: "\<forall>t\<in>#S. t = 0"
  shows "group_step (one_group (one_pool c {#} C {#0#} {#}) [] [] m None)
    (one_group (one_pool c' W C' {#0#} S) [] [] m (if 0 \<in># S then Some TNew else None))"
proof -
  let ?g = "one_group (one_pool c {#} C {#0#} {#}) [] [] m None"
  have "group_step ?g (start_closures (one_pool c' W C' {#0#} S) ?g)"
    by (rule pool_moved) (use assms in \<open>simp_all add: one_group_def pool_moves_def one_pool_def\<close>)
  moreover have "start_closures (one_pool c' W C' {#0#} S) ?g =
      one_group (one_pool c' W C' {#0#} S) [] [] m (if 0 \<in># S then Some TNew else None)"
    using that by (cases S) (auto simp: start_closures_def one_group_def one_pool_def fun_eq_iff)
  ultimately show ?thesis by simp
qed

text \<open>A step inside a call, and a step of a group that does not begin a call.\<close>

definition group_works :: "loop_group \<Rightarrow> loop_group \<Rightarrow> bool" where
  "group_works g g' \<longleftrightarrow> group_step g g' \<and> (lgMain g = MIdle \<longrightarrow> lgMain g' = MIdle)"

abbreviation empty_group :: "group_main \<Rightarrow> loop_group" where
  "empty_group m \<equiv> one_group (one_pool (enc True 0) {#} {#} {#} {#}) [] [] m None"

abbreviation full_one :: "group_main \<Rightarrow> closure \<Rightarrow> loop_group" where
  "full_one m c \<equiv> one_group (one_pool (enc True 1) {#WRunning True 0#} {#} {#0#} {#0#}) [0] [0] m (Some c)"

lemma one_group_main [simp]: "lgMain (one_group p ls fs m c) = m"
  by (simp add: one_group_def)

lemma group_via:
  "group_step (one_group p ls fs m c) g \<Longrightarrow> m \<noteq> MIdle \<Longrightarrow> group_works\<^sup>*\<^sup>* g g' \<Longrightarrow> group_works\<^sup>*\<^sup>* (one_group p ls fs m c) g'"
  by (rule converse_rtranclp_into_rtranclp) (simp_all add: group_works_def)

lemma one_upd: "(\<lambda>t. if t = 0 then a else None)(0 \<mapsto> c) = (\<lambda>t. if t = (0::nat) then Some (c::closure) else None)"
  by auto

lemma one_group_works: "group_works\<^sup>*\<^sup>* (empty_group (MSubmit 0)) (full_one MIdle TRun)"
proof -
  let ?P = "one_pool (enc True 0) {#} {#} {#} {#}" and ?Q = "one_pool (enc True 1) {#WRunning True 0#} {#} {#0#} {#0#}"
  have 2: "group_step (one_group ?P [] [] (MSubmit 0) None) (one_group (pool_in (CExec 0)) [] [] (MIn 0) None)"
    using loop_submit[of "one_group ?P [] [] (MSubmit 0) None" 0 0 ?P] by (simp add: one_group_def one_pool_def)
  note 3 = one_pool_moved[OF one_pool_steps(1), of "MIn 0", simplified]
  note 4 = one_pool_moved[OF one_pool_steps(2), of "MIn 0", simplified]
  let ?R = "one_pool (enc True 1) {#} {#CCommit True 0#} {#0#} {#}"
  have 5: "group_step (one_group (pool_in (CAddCas True 0 (enc True 0))) [] [] (MIn 0) None) (one_group ?R [] [] (MIn 0) None)"
    using one_pool_moved[OF one_pool_steps(3), of "MIn 0"] by simp
  have 6: "group_step (one_group ?R [] [] (MIn 0) None) (one_group ?Q [] [] (MIn 0) (Some TNew))"
    using one_pool_moved[OF one_pool_steps(4), of "MIn 0"] by simp
  have 7: "group_step (one_group ?Q [] [] (MIn 0) (Some TNew)) (one_group ?Q [] [0] (MSubmit 1) (Some TNew))"
    using loop_submitted[of "one_group ?Q [] [] (MIn 0) (Some TNew)" 0] by (simp add: one_group_def one_pool_def)
  have 8: "group_step (one_group ?Q [] [0] (MSubmit 1) (Some TNew)) (one_group ?Q [] [0] MLock (Some TNew))"
    using loop_wait[of "one_group ?Q [] [0] (MSubmit 1) (Some TNew)" 1] by (simp add: one_group_def)
  have 9: "group_step (one_group ?Q [] [0] MLock (Some TNew)) (one_group ?Q [] [0] MWaiting (Some TNew))"
    using loop_sleep[of "one_group ?Q [] [0] MLock (Some TNew)"] by (simp add: one_group_def)
  have 10: "group_step (one_group ?Q [] [0] MWaiting (Some TNew)) (one_group ?Q [] [0] MWaiting (Some TPush))"
    using closure_made[of "one_group ?Q [] [0] MWaiting (Some TNew)" 0] by (simp add: one_group_def set_closure_def one_upd)
  have 11: "group_step (one_group ?Q [] [0] MWaiting (Some TPush)) (one_group ?Q [0] [0] MLock (Some TRun))"
    using closure_push[of "one_group ?Q [] [0] MWaiting (Some TPush)" 0]
    by (simp add: one_group_def set_closure_def push_loop_def one_upd Let_def)
  have 12: "group_step (one_group ?Q [0] [0] MLock (Some TRun)) (one_group ?Q [0] [0] MIdle (Some TRun))"
    using loop_return[of "one_group ?Q [0] [0] MLock (Some TRun)"] by (simp add: one_group_def)
  show ?thesis
    by (intro group_via[OF 2] group_via[OF 3] group_via[OF 4] group_via[OF 5] group_via[OF 6] group_via[OF 7]
      group_via[OF 8] group_via[OF 9] group_via[OF 10] group_via[OF 11] group_via[OF 12] rtranclp.rtrancl_refl) simp_all
qed

lemma one_group_run: "group_steps (empty_group MIdle) (full_one MIdle TRun)"
proof -
  have "group_step (empty_group MIdle) (empty_group (MSubmit 0))"
    using loop_call[of "empty_group MIdle"] by (simp add: one_group_def)
  moreover have "group_steps (empty_group (MSubmit 0)) (full_one MIdle TRun)"
    by (rule rtranclp_mono[THEN predicate2D, OF _ one_group_works]) (auto simp: group_works_def)
  ultimately show ?thesis by (rule converse_rtranclp_into_rtranclp)
qed

text \<open>The loop of the group ends while the caller is in \<^verbatim>\<open>syncEach\<close>.\<close>

lemma one_group_sync: "group_works\<^sup>*\<^sup>* (full_one (MSync 0) TRun) (full_one MIdle TEnded)"
proof -
  have 1: "group_step (full_one (MSync 0) TRun) (full_one (MSync 0) TEnded)"
    using closure_end[of "full_one (MSync 0) TRun" 0] by (simp add: one_group_def set_closure_def one_upd)
  have 2: "group_step (full_one (MSync 0) TEnded) (full_one (MSync 1) TEnded)"
    using sync_waited[of "full_one (MSync 0) TEnded" 0] by (simp add: one_group_def future_ready_def closure_over_def)
  have 3: "group_step (full_one (MSync 1) TEnded) (full_one MIdle TEnded)"
    using sync_return[of "full_one (MSync 1) TEnded" 1] by (simp add: one_group_def)
  show ?thesis by (intro group_via[OF 1] group_via[OF 2] group_via[OF 3] rtranclp.rtrancl_refl) simp_all
qed

lemma one_group_new: "lg_new 1 = Inr (empty_group MIdle)"
  by (simp add: lg_new_def pool_new_def one_group_def one_pool_def bbq_new_def enc_new)

theorem loopEach_starts_all_witness:
  "\<exists>g0 g. lg_new 1 = Inr g0 \<and> group_steps g0 g \<and> lgMain g = MIdle \<and> lgFutures g = [0] \<and> set (lgLoops g) = {..<1} \<and>
     group_next \<lparr>nextLoop = 0, eventLoops = lgLoops g\<rparr> \<noteq> Inl Undefined"
proof -
  let ?g = "full_one MIdle TRun"
  have "lgMain ?g = MIdle" "lgFutures ?g = [0]" by (simp_all add: one_group_def)
  with loopEach_starts_all[OF one_group_new _ one_group_run] one_group_new one_group_run show ?thesis by fastforce
qed

end
