(* ===== verification/Connection.thy ===== *)
theory Connection
  imports Socket_Channel "HOL-Library.Sublist"
begin

text \<open>
  \<^verbatim>\<open>nets/net/core/SocketChannelContext\<close>, the face of a socket channel towards the handlers, and a
  whole connection: two socket channels, each in its own event loop, joined by TCP. The channels
  are those of \<open>Socket_Channel\<close>, with all their buffering; TCP is the kernels' part and a
  parameter. What is shown is the promise the library makes to its user from end to end.
\<close>

section \<open>SocketChannelContext\<close>

text \<open>A context holds the channel and nothing else; every function forwards to it.\<close>

definition ctx_write_raw ::
    "'k sys \<Rightarrow> 'k app \<Rightarrow> bool \<Rightarrow> byte list \<Rightarrow> nat \<Rightarrow> nat option \<Rightarrow> 'k sc_world \<Rightarrow> 'k sc_world res" where
  "ctx_write_raw S app inLoop message len cb w = writeRawMessage S app inLoop message len cb w"

definition ctx_write_string ::
    "'k sys \<Rightarrow> 'k app \<Rightarrow> bool \<Rightarrow> byte list \<Rightarrow> nat option \<Rightarrow> 'k sc_world \<Rightarrow> 'k sc_world res" where
  "ctx_write_string S app inLoop message cb w = writeStringMessage S app inLoop message cb w"

definition ctx_write_buffer ::
    "'k sys \<Rightarrow> 'k app \<Rightarrow> bool \<Rightarrow> byte_buffer \<Rightarrow> nat option \<Rightarrow> 'k sc_world \<Rightarrow> 'k sc_world res" where
  "ctx_write_buffer S app inLoop message cb w = writeBufferMessage S app inLoop message cb w"

definition ctx_isActive :: "'k sc_world \<Rightarrow> bool" where
  "ctx_isActive w \<longleftrightarrow> state (chan w) = ACTIVE"

definition ctx_shutdown :: "'k sys \<Rightarrow> 'k app \<Rightarrow> 'k sc_world \<Rightarrow> 'k sc_world" where
  "ctx_shutdown S app w = sc_shutdown S app w"

definition ctx_disconnect :: "'k sys \<Rightarrow> 'k app \<Rightarrow> 'k sc_world \<Rightarrow> 'k sc_world" where
  "ctx_disconnect S app w = ctx_shutdown S app w"

definition ctx_shutdownRead :: "'k sys \<Rightarrow> 'k sc_world \<Rightarrow> 'k sc_world" where
  "ctx_shutdownRead S w = sc_shutdownRead S w"

definition ctx_shutdownWrite :: "'k sys \<Rightarrow> 'k sc_world \<Rightarrow> 'k sc_world" where
  "ctx_shutdownWrite S w = sc_shutdownWrite S w"

section \<open>TCP\<close>

text \<open>
  What can be observed of a kernel for a descriptor: the bytes it took, the bytes it delivered, and
  the bytes that have arrived and wait to be read. The calls of the library on one end touch these
  as the manual pages say: a read moves bytes from the waiting to the delivered, a write appends to
  the taken, \<^verbatim>\<open>epoll_ctl\<close> touches none, and \<^verbatim>\<open>shutdown\<close> at most drops waiting bytes from the end.
\<close>

record 'k view =
  vSent :: "'k \<Rightarrow> FdType \<Rightarrow> byte list"
  vRcvd :: "'k \<Rightarrow> FdType \<Rightarrow> byte list"
  vReady :: "'k \<Rightarrow> FdType \<Rightarrow> byte list"

definition kept :: "('k \<Rightarrow> 'a) \<Rightarrow> 'k \<Rightarrow> 'k \<Rightarrow> bool" where
  "kept obs k k' \<longleftrightarrow> obs k' = obs k"

definition sends_keep :: "'k sys \<Rightarrow> ('k \<Rightarrow> 'a) \<Rightarrow> bool" where
  "sends_keep S obs \<longleftrightarrow>
     (\<forall>k fd bs. kept obs k (snd (sys_write S k fd bs))) \<and> (\<forall>k fd bss. kept obs k (snd (sys_writev S k fd bss))) \<and>
     (\<forall>k op fd ev. kept obs k (snd (sys_epoll_ctl S k op fd ev)))"

definition reads_keep :: "'k sys \<Rightarrow> ('k \<Rightarrow> 'a) \<Rightarrow> bool" where
  "reads_keep S obs \<longleftrightarrow> (\<forall>k fd n. kept obs k (snd (sys_read S k fd n)))"

definition tcp_spec :: "'k sys \<Rightarrow> 'k view \<Rightarrow> bool" where
  "tcp_spec S V \<longleftrightarrow> stream_spec S (vSent V) \<and> soft_errors S \<and> read_spec S (vRcvd V) (\<lambda>k f. length (vReady V k f)) \<and>
     (\<forall>f. sends_keep S (\<lambda>k. vRcvd V k f) \<and> sends_keep S (\<lambda>k. vReady V k f) \<and> reads_keep S (\<lambda>k. vSent V k f) \<and>
          reads_keep S (\<lambda>k. vRcvd V k f @ vReady V k f)) \<and>
     (\<forall>k fd how f. let k' = sys_shutdown S k fd how
        in vSent V k' f = vSent V k f \<and> vRcvd V k' f = vRcvd V k f \<and> prefix (vReady V k' f) (vReady V k f))"

text \<open>What the write and read paths do not touch, from what their calls do not touch.\<close>

lemma sends_keep_stream:
  assumes "stream_spec S snt" and "sends_keep S obs"
  shows "stream_spec S (\<lambda>k f. obs k @ snt k f)"
proof -
  have "\<And>k fd bs r k'. sys_write S k fd bs = (r, k') \<Longrightarrow> obs k' = obs k"
    "\<And>k fd bss r k'. sys_writev S k fd bss = (r, k') \<Longrightarrow> obs k' = obs k"
    "\<And>k op fd ev. obs (snd (sys_epoll_ctl S k op fd ev)) = obs k"
    using assms(2) unfolding sends_keep_def kept_def by (metis snd_conv)+
  then show ?thesis using assms(1) unfolding stream_spec_def by simp
qed

lemma reads_keep_read:
  assumes "read_spec S rcv avl" and "reads_keep S obs"
  shows "read_spec S (\<lambda>k f. obs k @ rcv k f) avl"
proof -
  have "\<And>k fd n r k'. sys_read S k fd n = (r, k') \<Longrightarrow> obs k' = obs k"
    using assms(2) by (metis reads_keep_def kept_def snd_conv)
  then show ?thesis using assms(1) by (simp add: read_spec_def)
qed


section \<open>The two ends\<close>

text \<open>
  The user's handlers write through the context: what they answer to delivered bytes, as messages
  with their callbacks. They do not write while the channel connects, closes or completes a write.
\<close>

fun ctx_writes :: "'k sys \<Rightarrow> (byte list \<times> nat option) list \<Rightarrow> 'k sc_world \<Rightarrow> 'k sc_world res" where
  "ctx_writes S [] w = Inr w"
| "ctx_writes S ((data, cb) # ms) w = ebind (ctx_write_string S (\<lambda>e w. w) True data cb w) (ctx_writes S ms)"

type_synonym replies = "byte list \<Rightarrow> (byte list \<times> nat option) list"

definition answering :: "'k sys \<Rightarrow> replies \<Rightarrow> 'k app" where
  "answering S reply e w =
     (case e of EvRead bs \<Rightarrow> (case ctx_writes S (reply bs) w of Inr w' \<Rightarrow> w' | Inl f \<Rightarrow> w) | _ \<Rightarrow> w)"

definition texts_of :: "(byte list \<times> nat option) list \<Rightarrow> byte list" where
  "texts_of ms = concat (map fst ms)"

definition received :: "sc_event list \<Rightarrow> byte list" where
  "received es = concat (map (\<lambda>e. case e of EvRead bs \<Rightarrow> bs | _ \<Rightarrow> []) es)"

definition answers :: "replies \<Rightarrow> sc_event list \<Rightarrow> byte list" where
  "answers reply es = concat (map (\<lambda>e. case e of EvRead bs \<Rightarrow> texts_of (reply bs) | _ \<Rightarrow> []) es)"

text \<open>
  A connection: the two ends, named \<open>True\<close> and \<open>False\<close>, and what the user of each has written so far.
  A step is a write in the loop, a write from another thread, the next task of the loop, a write
  event, a read event, or the arrival of bytes that the other end has sent. Two bounds are those of
  the code: messages of a possible size, and no more waiting buffers than \<^verbatim>\<open>writev\<close> handles.
\<close>

record 'k conn =
  ends :: "bool \<Rightarrow> 'k sc_world"
  wrote :: "bool \<Rightarrow> byte list"

definition set_end :: "bool \<Rightarrow> 'k sc_world \<Rightarrow> byte list \<Rightarrow> 'k conn \<Rightarrow> 'k conn" where
  "set_end i w data c = c\<lparr>ends := (ends c)(i := w), wrote := (wrote c)(i := wrote c i @ data)\<rparr>"

definition room :: "'k sc_world \<Rightarrow> nat \<Rightarrow> bool" where
  "room w n \<longleftrightarrow> length (writeBuffer (chan w)) + n \<le> 2 * kMaxCountOfWriteVOnce"

definition small :: "(byte list \<times> nat option) list \<Rightarrow> bool" where
  "small ms \<longleftrightarrow> list_all (\<lambda>m. length (fst m) \<le> 2 ^ 62) ms"

fun task_text :: "sc_task \<Rightarrow> byte list" where
  "task_text (DoWriteTask data cb) = data"
| "task_text _ = []"

inductive conn_step :: "'k sys \<Rightarrow> 'k view \<Rightarrow> (bool \<Rightarrow> replies) \<Rightarrow> 'k conn \<Rightarrow> 'k conn \<Rightarrow> bool"
  for S V reply where
  conn_write: "w = ends c i \<Longrightarrow> state (chan w) \<noteq> INACTIVE \<Longrightarrow> length data \<le> 2 ^ 62 \<Longrightarrow>
    ctx_write_string S (answering S (reply i)) True data cb w = Inr w' \<Longrightarrow> conn_step S V reply c (set_end i w' data c)"
| conn_post: "w = ends c i \<Longrightarrow> length data \<le> 2 ^ 62 \<Longrightarrow>
    ctx_write_string S (answering S (reply i)) False data cb w = Inr w' \<Longrightarrow> conn_step S V reply c (set_end i w' [] c)"
| conn_task: "w = ends c i \<Longrightarrow> tasks w = t # ts \<Longrightarrow> sc_runTask S (answering S (reply i)) t (w\<lparr>tasks := ts\<rparr>) = Inr w' \<Longrightarrow>
    conn_step S V reply c (set_end i w' (if state (chan w) = INACTIVE then [] else task_text t) c)"
| conn_flush: "w = ends c i \<Longrightarrow> state (chan w) = ACTIVE \<Longrightarrow> room w 0 \<Longrightarrow>
    sc_handleWriteEvent S (answering S (reply i)) w = Inr w' \<Longrightarrow> conn_step S V reply c (set_end i w' [] c)"
| conn_read: "w = ends c i \<Longrightarrow> length (vReady V (kern w) (fd (chan w))) + kRecvBufferSize \<le> 2 ^ 30 \<Longrightarrow>
    sc_handleReadEvent S (answering S (reply i)) w = Inr w' \<Longrightarrow>
    conn_step S V reply c (set_end i w' (answers (reply i) (drop (length (fired w)) (fired w'))) c)"
| conn_net: "w = ends c i \<Longrightarrow> f = fd (chan w) \<Longrightarrow> v = ends c (\<not> i) \<Longrightarrow>
    vSent V k f = vSent V (kern w) f \<Longrightarrow> vRcvd V k f = vRcvd V (kern w) f \<Longrightarrow>
    prefix (vRcvd V k f @ vReady V k f) (vSent V (kern v) (fd (chan v))) \<Longrightarrow>
    conn_step S V reply c (set_end i (w\<lparr>kern := k\<rparr>) [] c)"

text \<open>
  While an end is open, what TCP took of its bytes and what waits in the channel is what the user
  wrote, and what TCP delivered is what the handlers saw. A closed end is only behind.
\<close>

definition end_ok :: "'k view \<Rightarrow> 'k sc_world \<Rightarrow> byte list \<Rightarrow> bool" where
  "end_ok V w wr \<longleftrightarrow>
     (let snt = vSent V (kern w) (fd (chan w)); rcv = vRcvd V (kern w) (fd (chan w))
      in prefix snt wr \<and> prefix (received (fired w)) rcv \<and>
         (state (chan w) \<noteq> INACTIVE \<longrightarrow> sc_inv (chan w) \<and> snt @ pending (chan w) = wr \<and> received (fired w) = rcv)) \<and>
     (\<forall>data cb. DoWriteTask data cb \<in> set (tasks w) \<longrightarrow> length data \<le> 2 ^ 62)"

definition arrived :: "'k view \<Rightarrow> 'k sc_world \<Rightarrow> byte list" where
  "arrived V w = vRcvd V (kern w) (fd (chan w)) @ vReady V (kern w) (fd (chan w))"

definition conn_inv :: "'k view \<Rightarrow> 'k conn \<Rightarrow> bool" where
  "conn_inv V c \<longleftrightarrow> (\<forall>i. end_ok V (ends c i) (wrote c i) \<and> prefix (arrived V (ends c i)) (wrote c (\<not> i)))"

lemma conn_inv_set_end:
  assumes inv: "conn_inv V c" and ok: "end_ok V w' (wrote c i @ data)"
    and into: "prefix (arrived V w') (wrote c (\<not> i))"
  shows "conn_inv V (set_end i w' data c)"
proof -
  have e: "end_ok V (ends c j) (wrote c j)" and a: "prefix (arrived V (ends c j)) (wrote c (\<not> j))" for j
    using inv by (simp_all add: conn_inv_def)
  have "prefix (arrived V (ends c (\<not> i))) (wrote c i @ data)" using a[of "\<not> i"] by (auto intro: prefix_prefix)
  then show ?thesis using into ok e by (auto simp: conn_inv_def set_end_def)
qed

lemma conn_inv_moves:
  assumes "conn_inv V c" and "end_ok V w' (wrote c i @ data)" and "prefix (arrived V w') (arrived V (ends c i))"
  shows "conn_inv V (set_end i w' data c)"
  using conn_inv_set_end[OF assms(1,2)] assms(1,3) by (auto simp: conn_inv_def intro: prefix_order.trans)

section \<open>The steps of an end\<close>

text \<open>A write, a write event and a read, with what their calls do not touch.\<close>

lemma doWrite_keeps:
  fixes obs :: "'k \<Rightarrow> byte list"
  assumes "stream_spec S snt" "soft_errors S" "sends_keep S obs" and "sc_inv (chan w)"
    and "state (chan w) \<noteq> INACTIVE" and "length data \<le> 2 ^ 62" and run: "doWrite S app data cb w = Inr w'"
  shows "obs (kern w') = obs (kern w)"
proof -
  obtain v where "doWrite S app data cb w = Inr v"
    "snt (kern v) (fd (chan w)) @ pending (chan v) = snt (kern w) (fd (chan w)) @ pending (chan w) @ data"
    by (rule doWrite_ok[OF assms(1,2,4-6)]) blast
  moreover obtain u where "doWrite S app data cb w = Inr u"
    "(obs (kern u) @ snt (kern u) (fd (chan w))) @ pending (chan u)
       = (obs (kern w) @ snt (kern w) (fd (chan w))) @ pending (chan w) @ data"
    by (rule doWrite_ok[OF sends_keep_stream[OF assms(1,3)] assms(2,4-6)]) blast
  ultimately show ?thesis using run by simp
qed

lemma flush_keeps:
  fixes obs :: "'k \<Rightarrow> byte list"
  assumes "stream_spec S snt" "soft_errors S" "sends_keep S obs" and "sc_inv (chan w)" and "state (chan w) = ACTIVE"
    and "length (writeBuffer (chan w)) \<le> 2 * kMaxCountOfWriteVOnce" and run: "sc_handleWriteEvent S app w = Inr w'"
  shows "obs (kern w') = obs (kern w)"
proof -
  obtain v where "sc_handleWriteEvent S app w = Inr v"
    "snt (kern v) (fd (chan w)) @ pending (chan v) = snt (kern w) (fd (chan w)) @ pending (chan w)"
    by (rule sc_handleWriteEvent_ok[OF assms(1,2,4-6)]) blast
  moreover obtain u where "sc_handleWriteEvent S app w = Inr u"
    "(obs (kern u) @ snt (kern u) (fd (chan w))) @ pending (chan u)
       = (obs (kern w) @ snt (kern w) (fd (chan w))) @ pending (chan w)"
    by (rule sc_handleWriteEvent_ok[OF sends_keep_stream[OF assms(1,3)] assms(2,4-6)]) blast
  ultimately show ?thesis using run by simp
qed

lemma doRead_keeps:
  fixes obs :: "'k \<Rightarrow> byte list"
  assumes "read_spec S rcv avl" "reads_keep S obs" and "avl k f + kRecvBufferSize \<le> 2 ^ 30"
    and "bb_new kRecvBufferSize = Inr b" and run: "doRead S f b k = Inr (r, b', k')"
  shows "obs k' = obs k"
proof -
  obtain r1 b1 k1 where "doRead S f b k = Inr (r1, b1, k1)" "rcv k1 f = rcv k f @ content b1"
    by (rule doRead_ok[OF assms(1,3,4)]) blast
  moreover obtain r2 b2 k2 where "doRead S f b k = Inr (r2, b2, k2)"
    "obs k2 @ rcv k2 f = (obs k @ rcv k f) @ content b2"
    by (rule doRead_ok[OF reads_keep_read[OF assms(1,2)] assms(3,4)]) blast
  ultimately show ?thesis using run by simp
qed

lemma write_end:
  assumes tcp: "tcp_spec S V" and ok: "end_ok V w wr" and st: "state (chan w) \<noteq> INACTIVE" and len: "length data \<le> 2 ^ 62"
  obtains w' where "doWrite S app data cb w = Inr w'" "end_ok V w' (wr @ data)" "arrived V w' = arrived V w"
    "state (chan w') = state (chan w)" "fired w' = fired w"
proof -
  let ?f = "fd (chan w)"
  have s: "stream_spec S (vSent V)" "soft_errors S" "sends_keep S (\<lambda>k. vRcvd V k ?f)" "sends_keep S (\<lambda>k. vReady V k ?f)"
    using tcp by (simp_all add: tcp_spec_def)
  have inv: "sc_inv (chan w)" using ok st by (simp add: end_ok_def Let_def)
  obtain w' where w': "doWrite S app data cb w = Inr w'" "sc_inv (chan w')"
    "vSent V (kern w') ?f @ pending (chan w') = vSent V (kern w) ?f @ pending (chan w) @ data"
    "fd (chan w') = ?f" "state (chan w') = state (chan w)" "fired w' = fired w"
    "data \<noteq> [] \<longrightarrow> (if pending (chan w') = []
       then tasks w' = tasks w @ (case cb of None \<Rightarrow> [] | Some c \<Rightarrow> [WriteCompleteTask c]) \<and>
            writeCompleteCallbacks (chan w') = writeCompleteCallbacks (chan w)
       else tasks w' = tasks w \<and> writeCompleteCallbacks (chan w') = writeCompleteCallbacks (chan w) @ [cb])"
    by (rule doWrite_ok[OF s(1,2) inv st len]) blast
  have k: "vRcvd V (kern w') ?f = vRcvd V (kern w) ?f" "vReady V (kern w') ?f = vReady V (kern w) ?f"
    using doWrite_keeps[OF s(1,2,3) inv st len w'(1)] doWrite_keeps[OF s(1,2,4) inv st len w'(1)] by blast+
  have t: "DoWriteTask d c \<in> set (tasks w') \<Longrightarrow> DoWriteTask d c \<in> set (tasks w)" for d c
    using w'(1,7) st by (cases "data = []") (auto simp: doWrite_def split: if_splits option.splits)
  have eq: "vSent V (kern w) ?f @ pending (chan w) = wr" "received (fired w) = vRcvd V (kern w) ?f"
    using ok st by (simp_all add: end_ok_def Let_def)
  have all: "vSent V (kern w') ?f @ pending (chan w') = wr @ data" using w'(3) eq(1) by (metis append_assoc)
  have "end_ok V w' (wr @ data)"
    unfolding end_ok_def Let_def w'(4) k(1) w'(6) eq(2)
    using ok t w'(2) all by (auto simp: end_ok_def intro: prefixI[OF all[symmetric]])
  moreover have "arrived V w' = arrived V w" using w'(4) k by (simp add: arrived_def)
  ultimately show thesis using w'(1,5,6) that by blast
qed

lemma flush_end:
  assumes tcp: "tcp_spec S V" and ok: "end_ok V w wr" and st: "state (chan w) = ACTIVE" and r: "room w 0"
  obtains w' where "sc_handleWriteEvent S app w = Inr w'" "end_ok V w' wr" "arrived V w' = arrived V w"
    "state (chan w') = ACTIVE" "fired w' = fired w"
proof -
  let ?f = "fd (chan w)"
  have s: "stream_spec S (vSent V)" "soft_errors S" "sends_keep S (\<lambda>k. vRcvd V k ?f)" "sends_keep S (\<lambda>k. vReady V k ?f)"
    using tcp by (simp_all add: tcp_spec_def)
  have inv: "sc_inv (chan w)" using ok st by (simp add: end_ok_def Let_def)
  have few: "length (writeBuffer (chan w)) \<le> 2 * kMaxCountOfWriteVOnce" using r by (simp add: room_def)
  obtain w' where w': "sc_handleWriteEvent S app w = Inr w'" "sc_inv (chan w')"
    "vSent V (kern w') ?f @ pending (chan w') = vSent V (kern w) ?f @ pending (chan w)"
    "fd (chan w') = ?f" "state (chan w') = ACTIVE" "fired w' = fired w"
    "if pending (chan w') = []
     then tasks w' = tasks w @ map WriteCompleteTask (List.map_filter id (writeCompleteCallbacks (chan w))) \<and>
          writeCompleteCallbacks (chan w') = [] \<and> events (chan w') = kReadEvent
     else tasks w' = tasks w \<and> writeCompleteCallbacks (chan w') = writeCompleteCallbacks (chan w) \<and>
          events (chan w') = events (chan w)"
    by (rule sc_handleWriteEvent_ok[OF s(1,2) inv st few]) blast
  have k: "vRcvd V (kern w') ?f = vRcvd V (kern w) ?f" "vReady V (kern w') ?f = vReady V (kern w) ?f"
    using flush_keeps[OF s(1,2,3) inv st few w'(1)] flush_keeps[OF s(1,2,4) inv st few w'(1)] by blast+
  have t: "DoWriteTask d c \<in> set (tasks w') \<Longrightarrow> DoWriteTask d c \<in> set (tasks w)" for d c
    using w'(7) by (auto split: if_splits)
  have eq: "vSent V (kern w) ?f @ pending (chan w) = wr" "received (fired w) = vRcvd V (kern w) ?f"
    using ok st by (simp_all add: end_ok_def Let_def)
  have all: "vSent V (kern w') ?f @ pending (chan w') = wr" using w'(3) eq(1) by simp
  have "end_ok V w' wr"
    unfolding end_ok_def Let_def w'(4) k(1) w'(6) eq(2)
    using ok t w'(2) all by (auto simp: end_ok_def intro: prefixI[OF all[symmetric]])
  moreover have "arrived V w' = arrived V w" using w'(4) k by (simp add: arrived_def)
  ultimately show thesis using w'(1,5,6) that by blast
qed

lemma writes_end:
  assumes tcp: "tcp_spec S V"
  shows "end_ok V w wr \<Longrightarrow> state (chan w) \<noteq> INACTIVE \<Longrightarrow> small ms \<Longrightarrow>
    \<exists>w'. ctx_writes S ms w = Inr w' \<and> end_ok V w' (wr @ texts_of ms) \<and> arrived V w' = arrived V w \<and>
      state (chan w') = state (chan w) \<and> fired w' = fired w"
proof (induction ms arbitrary: w wr)
  case (Cons m ms)
  obtain data cb where m: "m = (data, cb)" by force
  have len: "length data \<le> 2 ^ 62" using Cons.prems(3) m by (simp add: small_def)
  obtain w1 where w1: "doWrite S (\<lambda>e w. w) data cb w = Inr w1" "end_ok V w1 (wr @ data)" "arrived V w1 = arrived V w"
    "state (chan w1) = state (chan w)" "fired w1 = fired w"
    by (rule write_end[OF tcp Cons.prems(1,2) len]) blast
  from Cons.IH[OF w1(2)] Cons.prems w1 m show ?case
    by (auto simp: ctx_write_string_def writeStringMessage_def small_def texts_of_def)
qed (simp add: texts_of_def)

text \<open>The poller's calls, the end of a channel, and the outcomes of a read event.\<close>

lemma same_streams_keeps:
  fixes obs :: "'k \<Rightarrow> byte list"
  assumes "same_streams S w w'" and "stream_spec S snt" and "sends_keep S obs"
  shows "obs (kern w') = obs (kern w)"
  using same_streamsD[OF assms(1,2)] same_streamsD[OF assms(1) sends_keep_stream[OF assms(2,3)]] by simp

lemma deregister_frame:
  "quiet (w\<lparr>inChannels := False\<rparr>) (sc_deregister S w)" "same_streams S w (sc_deregister S w)"
  "writeBuffer (chan (sc_deregister S w)) = writeBuffer (chan w)" "events (chan (sc_deregister S w)) = events (chan w)"
proof -
  obtain ok c k where m: "poller_deregisterChannel S (chan w) (kern w) = (ok, c, k)" by (metis prod_cases3)
  have call: "poller_call S (poller_deregisterChannel S :: socket_channel \<Rightarrow> _)" by (simp add: poller_call_def)
  note f = poller_call_fields[OF call m] and more = channel_more_fields[OF poller_call_fields(4)[OF call m]]
  show "quiet (w\<lparr>inChannels := False\<rparr>) (sc_deregister S w)" using m f(1) more by (simp add: sc_deregister_def quiet_def)
  show "same_streams S w (sc_deregister S w)" using m poller_call_stream[OF call m] by (auto simp: sc_deregister_def same_streams_def)
  show "writeBuffer (chan (sc_deregister S w)) = writeBuffer (chan w)" "events (chan (sc_deregister S w)) = events (chan w)"
    using m f(2) more by (simp_all add: sc_deregister_def)
qed

lemma poller_end:
  assumes tcp: "tcp_spec S V" and "same_streams S w w'" and "end_ok V w wr" and "fd (chan w') = fd (chan w)"
    and "state (chan w') = state (chan w)" and "fired w' = fired w" and "tasks w' = tasks w"
    and "writeBuffer (chan w') = writeBuffer (chan w)" and "events (chan w') = events (chan w)"
  shows "end_ok V w' wr" and "arrived V w' = arrived V w"
proof -
  have s: "stream_spec S (vSent V)" "sends_keep S (\<lambda>k. vRcvd V k f)" "sends_keep S (\<lambda>k. vReady V k f)" for f
    using tcp by (simp_all add: tcp_spec_def)
  note keep = same_streams_keeps[OF assms(2) s(1)]
  show "arrived V w' = arrived V w" using keep[OF s(2)] keep[OF s(3)] assms(4) by (simp add: arrived_def)
  show "end_ok V w' wr"
    using keep[OF s(2)] same_streamsD[OF assms(2) s(1)] assms(3-) by (simp add: end_ok_def sc_inv_def pending_def)
qed

lemma answering_simps [simp]:
  "answering S reply EvDisconnect w = w" "answering S reply (EvWriteComplete cb) w = w" "answering S reply EvConnect w = w"
  by (simp_all add: answering_def)

lemma received_simps [simp]:
  "received (es @ es') = received es @ received es'" "received [EvRead bs] = bs" "received [EvDisconnect] = []"
  "received [EvWriteComplete cb] = []"
  by (simp_all add: received_def)

lemma answers_simps [simp]:
  "answers reply [] = []" "answers reply [EvRead bs] = texts_of (reply bs)" "answers reply [EvDisconnect] = []"
  by (simp_all add: answers_def)

lemma read_end:
  assumes tcp: "tcp_spec S V" and ok: "end_ok V w wr"
    and few: "length (vReady V (kern w) (fd (chan w))) + kRecvBufferSize \<le> 2 ^ 30"
    and sm: "\<forall>bs. length bs \<le> 2 ^ 30 \<longrightarrow> small (reply bs)"
  obtains w' where "sc_handleReadEvent S (answering S reply) w = Inr w'" "prefix (arrived V w') (arrived V w)"
    "end_ok V w' (wr @ answers reply (drop (length (fired w)) (fired w')))"
proof (cases "state (chan w) = INACTIVE")
  case True
  then show thesis using ok by (intro that[of w]) (simp_all add: sc_handleReadEvent_def)
next
  case st: False
  let ?f = "fd (chan w)" and ?app = "answering S reply"
  have s: "read_spec S (vRcvd V) (\<lambda>k f. length (vReady V k f))" "reads_keep S (\<lambda>k. vSent V k ?f)"
    "reads_keep S (\<lambda>k. vRcvd V k ?f @ vReady V k ?f)" "stream_spec S (vSent V)"
    using tcp by (simp_all add: tcp_spec_def)
  have shut: "vSent V (sys_shutdown S k ?f how) ?f = vSent V k ?f" "vRcvd V (sys_shutdown S k ?f how) ?f = vRcvd V k ?f"
    "prefix (vReady V (sys_shutdown S k ?f how) ?f) (vReady V k ?f)" for k how
    using tcp by (simp_all add: tcp_spec_def Let_def)
  from fresh_recv_buffer obtain b where b: "bb_new kRecvBufferSize = Inr b" by blast
  obtain r b' k where d: "doRead S ?f b (kern w) = Inr (r, b', k)" "vRcvd V k ?f = vRcvd V (kern w) ?f @ content b'"
    "case r of Inl e \<Rightarrow> e \<noteq> EAGAIN \<and> e \<noteq> EINTR | Inr n \<Rightarrow> n = length (content b')"
    by (rule doRead_ok[OF s(1) few b]) blast
  have k: "vSent V k ?f = vSent V (kern w) ?f" "vRcvd V k ?f @ vReady V k ?f = vRcvd V (kern w) ?f @ vReady V (kern w) ?f"
    using doRead_keeps[OF s(1,2) few b d(1)] doRead_keeps[OF s(1,3) few b d(1)] by blast+
  have new: "length (content b') \<le> 2 ^ 30" using arg_cong[OF k(2), of length] d(2) few by simp
  have eq: "sc_inv (chan w)" "vSent V (kern w) ?f @ pending (chan w) = wr" "received (fired w) = vRcvd V (kern w) ?f"
    "prefix (vSent V (kern w) ?f) wr"
    using ok st by (simp_all add: end_ok_def Let_def)
  note run = sc_handleReadEvent_def[of S ?app w] handleReadError_def and tk = ok[unfolded end_ok_def, THEN conjunct2]
  consider e where "r = Inl e" | "content b' \<noteq> []" "r = Inr (length (content b'))"
    | "content b' = []" "r = Inr 0" using d(3) by (cases r) auto
  then show thesis
  proof cases
    case 1
    let ?w' = "channelInActive ?app (w\<lparr>kern := k\<rparr>)"
    have "sc_handleReadEvent S ?app w = Inr ?w'" using st b d(1,3) 1 by (simp add: run)
    then show thesis using eq d(2) k tk
      by (intro that[of ?w']) (auto simp: channelInActive_def fire_def addTask_def end_ok_def Let_def arrived_def)
  next
    case 2
    let ?v = "w\<lparr>kern := k, fired := fired w @ [EvRead (content b')]\<rparr>"
    have v: "end_ok V ?v wr" "state (chan ?v) \<noteq> INACTIVE" using eq d(2) k tk st by (simp_all add: end_ok_def Let_def)
    from sm new have "small (reply (content b'))" by blast
    from writes_end[OF tcp v this] obtain w' where w': "ctx_writes S (reply (content b')) ?v = Inr w'"
      "end_ok V w' (wr @ texts_of (reply (content b')))" "arrived V w' = arrived V ?v" "fired w' = fired ?v" by blast
    have "sc_handleReadEvent S ?app w = Inr w'" using st b d(1) 2 w'(1) by (simp add: run fire_def answering_def)
    then show thesis using w' k by (intro that[of w']) (simp_all add: arrived_def)
  next
    case 3
    show thesis
    proof (cases "writeBuffer (chan w) = []")
      case True
      let ?w' = "sc_shutdown S ?app (w\<lparr>kern := k\<rparr>)"
      have "sc_handleReadEvent S ?app w = Inr ?w'" using st b d(1) 3 True by (simp add: run)
      then show thesis using eq d(2) k tk shut[of k] True 3
        by (intro that[of ?w']) (auto simp: sc_shutdown_def sc_shutdown_how_def channelInActive_def fire_def addTask_def end_ok_def Let_def arrived_def)
    next
      case False
      let ?u = "sc_shutdownRead S (w\<lparr>kern := k\<rparr>)"
      let ?v = "?u\<lparr>chan := setEvents kWriteEvent (chan ?u)\<rparr>"
      have "sc_handleReadEvent S ?app w = Inr (sc_modify S ?v)" using st b d(1) 3 False by (simp add: run Let_def)
      moreover have "end_ok V ?v wr" "prefix (arrived V ?v) (arrived V w)" "fired ?v = fired w" "fd (chan ?v) = ?f"
        using eq d(2) k tk shut[of k] 3
        by (auto simp: sc_shutdownRead_def sc_shutdown_how_def setEvents_def end_ok_def Let_def arrived_def sc_inv_def pending_def kWriteEvent_def)
      ultimately show thesis
        using poller_end[OF tcp sc_modify_frame(2)[of S ?v]] sc_modify_frame[where S = S and w = ?v]
        by (intro that[of "sc_modify S ?v"]) (simp_all add: quiet_def)
    qed
  qed
qed

lemma task_end:
  assumes tcp: "tcp_spec S V" and ok: "end_ok V w wr" and t: "tasks w = t # ts"
  obtains w' where "sc_runTask S (answering S reply) t (w\<lparr>tasks := ts\<rparr>) = Inr w'" "arrived V w' = arrived V w"
    "end_ok V w' (wr @ (if state (chan w) = INACTIVE then [] else task_text t))"
proof -
  let ?v = "w\<lparr>tasks := ts\<rparr>"
  have v: "end_ok V ?v wr" using ok t by (auto simp: end_ok_def)
  have a: "arrived V ?v = arrived V w" by (simp add: arrived_def)
  show thesis
  proof (cases t)
    case (WriteCompleteTask cb)
    then show thesis using v
      by (intro that[of "?v\<lparr>fired := fired w @ [EvWriteComplete cb]\<rparr>"]) (simp_all add: fire_def end_ok_def arrived_def Let_def)
  next
    case DeregisterTask
    then show thesis
      using poller_end[OF tcp deregister_frame(2)[where w = ?v and S = S] v] deregister_frame(1,3,4)[where w = ?v and S = S] a
      by (intro that[of "sc_deregister S ?v"]) (simp_all add: quiet_def)
  next
    case (DoWriteTask data cb)
    have len: "length data \<le> 2 ^ 62" using ok t DoWriteTask by (simp add: end_ok_def)
    show thesis
    proof (cases "state (chan w) = INACTIVE")
      case True
      then show thesis using DoWriteTask v a by (intro that[of ?v]) (simp_all add: doWrite_def)
    next
      case False
      then have st: "state (chan ?v) \<noteq> INACTIVE" by simp
      obtain w' where "doWrite S (answering S reply) data cb ?v = Inr w'" "end_ok V w' (wr @ data)" "arrived V w' = arrived V ?v"
        by (rule write_end[OF tcp v st len]) blast
      then show thesis using DoWriteTask a False by (intro that[of w']) simp_all
    qed
  qed
qed

lemma conn_step_inv:
  assumes tcp: "tcp_spec S V" and sm: "\<forall>i bs. length bs \<le> 2 ^ 30 \<longrightarrow> small (reply i bs)"
    and step: "conn_step S V reply c c'" and inv: "conn_inv V c"
  shows "conn_inv V c'"
proof -
  have ok: "end_ok V (ends c i) (wrote c i)" for i using inv by (simp add: conn_inv_def)
  from step show ?thesis
  proof cases
    case (conn_write w i data cb w')
    obtain v where "doWrite S (answering S (reply i)) data cb w = Inr v" "end_ok V v (wrote c i @ data)"
      "arrived V v = arrived V w"
      using write_end[OF tcp ok[of i] _ conn_write(4)] conn_write(2,3) by metis
    then show ?thesis unfolding conn_write(1) using conn_write(2,5)
      by (intro conn_inv_moves[OF inv]) (simp_all add: ctx_write_string_def writeStringMessage_def)
  next
    case (conn_post w i data cb w')
    then have w': "w' = addTask (DoWriteTask data cb) w" by (simp add: ctx_write_string_def writeStringMessage_def)
    have "end_ok V w' (wrote c i @ [])" using ok[of i] conn_post(2,3) w' by (auto simp: addTask_def end_ok_def)
    then show ?thesis unfolding conn_post(1) using conn_post(2) w'
      by (intro conn_inv_moves[OF inv]) (simp_all add: arrived_def addTask_def)
  next
    case (conn_task w i t ts w')
    obtain v where "sc_runTask S (answering S (reply i)) t (w\<lparr>tasks := ts\<rparr>) = Inr v" "arrived V v = arrived V w"
      "end_ok V v (wrote c i @ (if state (chan w) = INACTIVE then [] else task_text t))"
      using task_end[OF tcp ok[of i]] conn_task(2,3) by metis
    then show ?thesis unfolding conn_task(1) using conn_task(2,4) by (intro conn_inv_moves[OF inv]) simp_all
  next
    case (conn_flush w i w')
    obtain v where "sc_handleWriteEvent S (answering S (reply i)) w = Inr v" "end_ok V v (wrote c i)"
      "arrived V v = arrived V w"
      using flush_end[OF tcp ok[of i]] conn_flush(2,3,4) by metis
    then show ?thesis unfolding conn_flush(1) using conn_flush(2,5) by (intro conn_inv_moves[OF inv]) simp_all
  next
    case (conn_read w i w')
    have si: "\<forall>bs. length bs \<le> 2 ^ 30 \<longrightarrow> small (reply i bs)" using sm by blast
    obtain v where "sc_handleReadEvent S (answering S (reply i)) w = Inr v" "prefix (arrived V v) (arrived V w)"
      "end_ok V v (wrote c i @ answers (reply i) (drop (length (fired w)) (fired v)))"
      using read_end[OF tcp ok[of i] _ si] conn_read(2,3) by metis
    then show ?thesis unfolding conn_read(1) using conn_read(2,4) by (intro conn_inv_moves[OF inv]) simp_all
  next
    case (conn_net w i f v k)
    have "prefix (vSent V (kern v) (fd (chan v))) (wrote c (\<not> i))"
      using ok[of "\<not> i"] conn_net(4) by (simp add: end_ok_def Let_def)
    then have into: "prefix (arrived V (w\<lparr>kern := k\<rparr>)) (wrote c (\<not> i))"
      using conn_net(3,7) by (auto simp: arrived_def intro: prefix_order.trans)
    have "end_ok V (w\<lparr>kern := k\<rparr>) (wrote c i @ [])" using ok[of i] conn_net(2,3,5,6) by (simp add: end_ok_def Let_def)
    with into show ?thesis unfolding conn_net(1) by (intro conn_inv_set_end[OF inv])
  qed
qed

section \<open>From end to end\<close>

definition conn_start :: "'k view \<Rightarrow> 'k conn \<Rightarrow> bool" where
  "conn_start V c \<longleftrightarrow> (\<forall>i. let w = ends c i; f = fd (chan w)
     in state (chan w) = ACTIVE \<and> sc_inv (chan w) \<and> pending (chan w) = [] \<and> tasks w = [] \<and> received (fired w) = [] \<and>
        wrote c i = [] \<and> vSent V (kern w) f = [] \<and> vRcvd V (kern w) f = [] \<and> vReady V (kern w) f = [])"

lemma conn_start_inv: "conn_start V c \<Longrightarrow> conn_inv V c"
  by (simp add: conn_start_def conn_inv_def end_ok_def arrived_def Let_def)

lemma conn_steps_inv:
  assumes "tcp_spec S V" and "\<forall>i bs. length bs \<le> 2 ^ 30 \<longrightarrow> small (reply i bs)"
    and "(conn_step S V reply)\<^sup>*\<^sup>* c c'" and "conn_inv V c"
  shows "conn_inv V c'"
  using assms(3,4) by induction (use conn_step_inv[OF assms(1,2)] in auto)

text \<open>In every such state the next write, write event, task and read event has a result.\<close>

lemma conn_progress:
  assumes tcp: "tcp_spec S V" and sm: "\<forall>i bs. length bs \<le> 2 ^ 30 \<longrightarrow> small (reply i bs)" and inv: "conn_inv V c"
  shows "state (chan (ends c i)) \<noteq> INACTIVE \<Longrightarrow> length data \<le> 2 ^ 62 \<Longrightarrow>
      \<exists>w'. ctx_write_string S (answering S (reply i)) True data cb (ends c i) = Inr w'"
    and "state (chan (ends c i)) = ACTIVE \<Longrightarrow> room (ends c i) 0 \<Longrightarrow>
      \<exists>w'. sc_handleWriteEvent S (answering S (reply i)) (ends c i) = Inr w'"
    and "tasks (ends c i) = t # ts \<Longrightarrow> \<exists>w'. sc_runTask S (answering S (reply i)) t ((ends c i)\<lparr>tasks := ts\<rparr>) = Inr w'"
    and "length (vReady V (kern (ends c i)) (fd (chan (ends c i)))) + kRecvBufferSize \<le> 2 ^ 30 \<Longrightarrow>
      \<exists>w'. sc_handleReadEvent S (answering S (reply i)) (ends c i) = Inr w'"
proof -
  have ok: "end_ok V (ends c i) (wrote c i)" using inv by (simp add: conn_inv_def)
  have si: "\<forall>bs. length bs \<le> 2 ^ 30 \<longrightarrow> small (reply i bs)" using sm by blast
  show "state (chan (ends c i)) \<noteq> INACTIVE \<Longrightarrow> length data \<le> 2 ^ 62 \<Longrightarrow>
      \<exists>w'. ctx_write_string S (answering S (reply i)) True data cb (ends c i) = Inr w'"
    using write_end[OF tcp ok] by (metis ctx_write_string_def writeStringMessage_def)
  show "state (chan (ends c i)) = ACTIVE \<Longrightarrow> room (ends c i) 0 \<Longrightarrow>
      \<exists>w'. sc_handleWriteEvent S (answering S (reply i)) (ends c i) = Inr w'"
    using flush_end[OF tcp ok] by metis
  show "tasks (ends c i) = t # ts \<Longrightarrow> \<exists>w'. sc_runTask S (answering S (reply i)) t ((ends c i)\<lparr>tasks := ts\<rparr>) = Inr w'"
    using task_end[OF tcp ok] by metis
  show "length (vReady V (kern (ends c i)) (fd (chan (ends c i)))) + kRecvBufferSize \<le> 2 ^ 30 \<Longrightarrow>
      \<exists>w'. sc_handleReadEvent S (answering S (reply i)) (ends c i) = Inr w'"
    using read_end[OF tcp ok _ si] by metis
qed

text \<open>What the invariant says of what the two users see.\<close>

lemma conn_inv_in_order:
  assumes "conn_inv V c" and "w = ends c i" and "v = ends c (\<not> i)"
  shows "prefix (received (fired v)) (wrote c i) \<and>
    (pending (chan w) = [] \<and> vRcvd V (kern v) (fd (chan v)) = vSent V (kern w) (fd (chan w)) \<and>
     state (chan w) \<noteq> INACTIVE \<and> state (chan v) \<noteq> INACTIVE \<longrightarrow> received (fired v) = wrote c i)"
proof -
  have w: "end_ok V w (wrote c i)" and v: "end_ok V v (wrote c (\<not> i))"
    and a: "prefix (arrived V v) (wrote c i)" using assms by (auto simp: conn_inv_def dest: spec[of _ "\<not> i"])
  have "prefix (received (fired v)) (vRcvd V (kern v) (fd (chan v)))" using v by (simp add: end_ok_def Let_def)
  also have "prefix (vRcvd V (kern v) (fd (chan v))) (arrived V v)" by (simp add: arrived_def)
  finally have "prefix (received (fired v)) (wrote c i)" using a by (rule prefix_order.trans)
  then show ?thesis using w v by (auto simp: end_ok_def Let_def)
qed

text \<open>
  C1. From end to end. Two connected channels, whose users write whenever they like, in the loop,
  from other threads and in answer to what they read, and do nothing else with them. TCP delivers a
  prefix of what it took, and a write may be short or fail for the moment, with \<^verbatim>\<open>EAGAIN\<close> or \<^verbatim>\<open>EINTR\<close>, but not
  for good; a write event finds at most 512 waiting buffers (beyond that the code itself corrupts
  the stream, theory \<open>Socket_Channel\<close>), a message has at most \<open>2 ^ 62\<close> bytes, and a read event finds less
  than 1 GiB. Then what the handlers of one end have seen is at every moment a prefix of what the user of
  the other end has written; and when nothing waits in the writing channel, TCP has delivered what it
  took and neither end is closed, it is all of it.
\<close>

theorem connection_in_order:
  assumes "tcp_spec S V" and "\<forall>i bs. length bs \<le> 2 ^ 30 \<longrightarrow> small (reply i bs)"
    and "conn_start V c" and "(conn_step S V reply)\<^sup>*\<^sup>* c c'" and "w = ends c' i" and "v = ends c' (\<not> i)"
  shows "prefix (received (fired v)) (wrote c' i) \<and>
    (pending (chan w) = [] \<and> vRcvd V (kern v) (fd (chan v)) = vSent V (kern w) (fd (chan w)) \<and>
     state (chan w) \<noteq> INACTIVE \<and> state (chan v) \<noteq> INACTIVE \<longrightarrow> received (fired v) = wrote c' i)"
  using conn_inv_in_order[OF conn_steps_inv[OF assms(1,2,4) conn_start_inv[OF assms(3)]] assms(5,6)] .

text \<open>An echo server and a client on two small kernels that take whole messages.\<close>

record duplex =
  dxOut :: "byte list"
  dxIn :: "byte list"
  dxWait :: "byte list"

definition duplex_sys :: "duplex sys" where
  "duplex_sys = \<lparr>
     sys_read = (\<lambda>k fd n. if dxWait k = [] then (Inl EAGAIN, k)
       else (Inr (take n (dxWait k)), k\<lparr>dxIn := dxIn k @ take n (dxWait k), dxWait := drop n (dxWait k)\<rparr>)),
     sys_write = (\<lambda>k fd bs. (Inr (length bs), k\<lparr>dxOut := dxOut k @ bs\<rparr>)),
     sys_writev = (\<lambda>k fd bss. (Inr (length (concat bss)), k\<lparr>dxOut := dxOut k @ concat bss\<rparr>)),
     sys_shutdown = (\<lambda>k fd how. k),
     sys_epoll_ctl = (\<lambda>k op fd ev. (True, k))\<rparr>"

definition duplex_view :: "duplex view" where
  "duplex_view = \<lparr>vSent = (\<lambda>k f. dxOut k), vRcvd = (\<lambda>k f. dxIn k), vReady = (\<lambda>k f. dxWait k)\<rparr>"

lemma duplex_tcp: "tcp_spec duplex_sys duplex_view"
  by (auto simp: tcp_spec_def duplex_sys_def duplex_view_def stream_spec_def soft_errors_def read_spec_def sends_keep_def
      reads_keep_def kept_def split: if_splits)

definition duplex_end :: "duplex sc_world" where
  "duplex_end = \<lparr>chan = (sc_new 5)\<lparr>events := kReadEvent, isRegistered := True, state := ACTIVE\<rparr>,
     kern = \<lparr>dxOut = [], dxIn = [], dxWait = []\<rparr>, inChannels = True, tasks = [], fired = [EvConnect]\<rparr>"

definition demo_conn :: "duplex conn" where
  "demo_conn = \<lparr>ends = (\<lambda>i. duplex_end), wrote = (\<lambda>i. [])\<rparr>"

definition echo :: replies where
  "echo bs = [(bs, None)]"

lemma demo_conn_start: "conn_start duplex_view demo_conn"
  by (simp add: conn_start_def demo_conn_def duplex_end_def duplex_view_def sc_new_def sc_inv_def pending_def received_def)

lemma echo_small: "\<forall>i bs. length bs \<le> 2 ^ 30 \<longrightarrow> small (echo bs)"
  by (simp add: echo_def small_def)

text \<open>The client writes three bytes, they arrive, the server reads and echoes.\<close>

definition demo_sent :: "duplex sc_world" where
  "demo_sent = duplex_end\<lparr>kern := \<lparr>dxOut = [1, 2, 3], dxIn = [], dxWait = []\<rparr>\<rparr>"

definition demo_arrived :: "duplex sc_world" where
  "demo_arrived = duplex_end\<lparr>kern := \<lparr>dxOut = [], dxIn = [], dxWait = [1, 2, 3]\<rparr>\<rparr>"

abbreviation demo_step :: "duplex conn \<Rightarrow> duplex conn \<Rightarrow> bool" where
  "demo_step \<equiv> conn_step duplex_sys duplex_view (\<lambda>i. echo)"

lemma set_end_simps [simp]:
  "ends (set_end i w data c) j = (if j = i then w else ends c j)"
  "wrote (set_end i w data c) j = (if j = i then wrote c i @ data else wrote c j)"
  by (simp_all add: set_end_def)

lemma demo_conn_ends [simp]: "ends demo_conn i = duplex_end" "wrote demo_conn i = []"
  by (simp_all add: demo_conn_def)

lemma demo_conn_write: "demo_step demo_conn (set_end True demo_sent [1, 2, 3] demo_conn)"
  by (rule conn_write[where cb = None, OF refl])
    (simp_all add: ctx_write_string_def writeStringMessage_def doWrite_def doWriteDirectly_def duplex_end_def sc_new_def
      duplex_sys_def queueCallback_def demo_sent_def)

lemma demo_conn_net: "demo_step (set_end True demo_sent [1, 2, 3] demo_conn)
    (set_end False demo_arrived [] (set_end True demo_sent [1, 2, 3] demo_conn))"
  unfolding demo_arrived_def
  by (rule conn_net[OF _ refl refl]) (simp_all add: duplex_view_def demo_sent_def duplex_end_def)

lemma demo_conn_run: "\<exists>c. demo_step\<^sup>*\<^sup>* demo_conn c \<and> prefix [1, 2, 3] (wrote c True)"
proof -
  let ?c = "set_end False demo_arrived [] (set_end True demo_sent [1, 2, 3] demo_conn)"
  have run: "demo_step\<^sup>*\<^sup>* demo_conn ?c" using r_into_rtranclp[of demo_step, OF demo_conn_write] demo_conn_net
    by (rule rtranclp.rtrancl_into_rtrancl)
  have few: "length (vReady duplex_view (kern (ends ?c False)) (fd (chan (ends ?c False)))) + kRecvBufferSize \<le> 2 ^ 30"
    by (simp add: duplex_view_def demo_arrived_def kRecvBufferSize_def)
  from conn_progress(4)[OF duplex_tcp echo_small conn_steps_inv[OF duplex_tcp echo_small run conn_start_inv[OF demo_conn_start]] few]
  obtain w' where "sc_handleReadEvent duplex_sys (answering duplex_sys echo) (ends ?c False) = Inr w'" by blast
  from conn_read[OF refl few this] have "demo_step ?c (set_end False w'
      (answers echo (drop (length (fired (ends ?c False))) (fired w'))) ?c)" .
  from rtranclp.rtrancl_into_rtrancl[OF run this]
  show ?thesis by (rule exI[of "\<lambda>c. demo_step\<^sup>*\<^sup>* demo_conn c \<and> prefix [1, 2, 3] (wrote c True)", OF conjI]) simp
qed

theorem connection_in_order_witness:
  "\<exists>c. demo_step\<^sup>*\<^sup>* demo_conn c \<and> prefix [1, 2, 3] (wrote c True) \<and>
     prefix (received (fired (ends c False))) (wrote c True)"
  using demo_conn_run connection_in_order[OF duplex_tcp echo_small demo_conn_start _ refl refl, of _ True] by auto

end
