(* ===== verification/Client_Server.thy ===== *)
theory Client_Server
  imports Connection Connector_Channel
begin

text \<open>
  A server and a client: the connections that \<^verbatim>\<open>ServerSocketChannel\<close> accepts and that
  \<^verbatim>\<open>ConnectorChannel\<close> makes, over all its retries, start in the state from which theory \<open>Connection\<close>
  shows that the bytes arrive in order. So the promise holds for the channels the library itself
  builds, from the listening socket and the connect call on.
\<close>

section \<open>New connections\<close>

text \<open>
  The user's handler does nothing on the connect event, as \<open>answering\<close> in theory \<open>Connection\<close>. A
  connection is fresh if its channel has just been activated; then its loop's view of it is
  \<open>fresh_end\<close>.
\<close>

definition quiet_connect :: "'k app \<Rightarrow> bool" where
  "quiet_connect app \<longleftrightarrow> (\<forall>w. app EvConnect w = w)"

definition fresh :: "Server_Channel.conn \<Rightarrow> bool" where
  "fresh c \<longleftrightarrow> conn_chan c =
     (sc_new (fd (conn_chan c)))\<lparr>events := kReadEvent, isRegistered := True, state := ACTIVE\<rparr>"

definition fresh_end :: "Server_Channel.conn \<Rightarrow> 'k \<Rightarrow> 'k sc_world" where
  "fresh_end c k = \<lparr>chan = conn_chan c, kern = k, inChannels = True, tasks = [], fired = [EvConnect]\<rparr>"

lemma activate_new_fresh:
  assumes "quiet_connect (env_app E)" and "activate_new E f la pa hp l k = (k', cs)"
  shows "list_all fresh cs"
proof -
  let ?c = "addEvent kReadEvent (sc_new f)"
  obtain ok c k1 where r: "poller_registerChannel (env_sys E) ?c k = (ok, c, k1)" by (metis prod_cases3)
  show ?thesis using assms r
    by (auto simp: activate_new_def channelActive_def sc_registerTo_def fire_def quiet_connect_def fresh_def
        poller_registerChannel_def poller_add_def setRegistered_def addEvent_def sc_new_def kEvent_defs sc_deregister_def
        poller_deregisterChannel_def Let_def split: prod.splits if_splits)
qed

lemma activate_new_end:
  assumes "quiet_connect (env_app E)" and "activate_new E f la pa hp l k = (k', [c])"
  shows "channelActive (env_sys E) (env_app E)
      \<lparr>chan = sc_new f, kern = k, inChannels = False, tasks = [], fired = []\<rparr> = fresh_end c k'"
  using assms
  by (auto simp: activate_new_def channelActive_def sc_registerTo_def sc_deregister_def fire_def quiet_connect_def fresh_end_def
      Let_def split: prod.splits if_splits)

section \<open>The server\<close>

lemma server_init_conns: "server_initSocketChannel E f w = (r, w') \<Longrightarrow> conns w' = conns w"
  by (auto simp: server_initSocketChannel_def Let_def split: prod.splits sum.splits option.splits)

lemma accept_error_conns: "handleAcceptError E e w = (r, w') \<Longrightarrow> conns w' = conns w"
  by (auto simp: handleAcceptError_def split: if_splits prod.splits)

definition serving :: "'k srv_env \<Rightarrow> 'k srv_world \<Rightarrow> bool" where
  "serving E w \<longleftrightarrow> quiet_connect (env_app E) \<and> list_all fresh (conns w)"

lemma read_event_serving:
  assumes inv: "serving E w" and "server_handleReadEvent E w = (r, w')"
  shows "serving E w'"
proof -
  have act: "list_all fresh (conns (server_activate E f la pa hp v))" if "list_all fresh (conns v)" for f la pa hp v
    using that activate_new_fresh[of E f la pa hp] inv
    by (auto simp: server_activate_def serving_def split: prod.split)
  show ?thesis using assms act
    by (auto simp: server_handleReadEvent_def serving_def split: prod.splits sum.splits
        dest!: server_init_conns accept_error_conns)
qed

interpretation accepted: invariant_actions "\<lambda>u :: unit. server_handleReadEvent E" "serving E" "\<lambda>u. True" "\<lambda>r. True"
  for E :: "'k srv_env"
  by unfold_locales (auto intro: read_event_serving)

section \<open>The client\<close>

definition calling :: "'k srv_env \<Rightarrow> 'k con_world \<Rightarrow> bool" where
  "calling E w \<longleftrightarrow> quiet_connect (env_app E) \<and> list_all fresh (made w)"

text \<open>Only \<^verbatim>\<open>newSocketChannel\<close> makes a connection.\<close>

lemma made_same [simp]:
  "made (con_deregister E w) = made w" "made (reconnect E w) = made w" "made (release E w) = made w"
  "made (waitConnect E w) = made w" "made (handleConnectError E e w) = made w" "made (con_handleErrorEvent w) = made w"
  "made (con_runTask E t w) = made w"
proof -
  show d: "made (con_deregister E w) = made w" for w by (simp add: con_deregister_def split: prod.split)
  show r: "made (reconnect E w) = made w" for w by (simp add: reconnect_def Let_def)
  show "made (release E w) = made w" by (simp add: release_def con_destroy_def)
  show wc: "made (waitConnect E w) = made w" for w
    by (simp add: waitConnect_def con_registerTo_def d r Let_def split: prod.split bool.split) auto
  show "made (handleConnectError E e w) = made w" by (simp add: handleConnectError_def wc r)
  show "made (con_handleErrorEvent w) = made w" by (simp add: con_handleErrorEvent_def)
  show "made (con_runTask E t w) = made w" by (simp add: con_runTask_def d r Let_def split: con_task.split)
qed

lemma runTasks_made: "made (con_runTasks E w) = made w"
proof -
  have "made (fold (con_runTask E) ts v) = made v" for ts v by (induction ts arbitrary: v) simp_all
  then show ?thesis by (simp add: con_runTasks_def)
qed

lemma con_init_made: "con_initSocketChannel E f w = (r, w') \<Longrightarrow> made w' = made w"
  by (auto simp: con_initSocketChannel_def Let_def split: prod.splits sum.splits option.splits)

lemma newSocketChannel_calling:
  assumes "calling E w" and "newSocketChannel E w = (r, w')"
  shows "calling E w'"
  using assms activate_new_fresh[of E]
  by (auto simp: newSocketChannel_def calling_def Let_def split: prod.splits sum.splits if_splits dest!: con_init_made)

lemma calling_cong: "made w' = made w \<Longrightarrow> calling E w' = calling E w"
  by (simp add: calling_def)

lemma con_connect_calling:
  assumes "calling E w" and run: "con_connect E a w = (r, w')"
  shows "calling E w'"
proof -
  have s: "made v = made w \<Longrightarrow> calling E v" for v using calling_cong[of v w E] assms(1) by simp
  have n: "newSocketChannel E v = (q, u) \<Longrightarrow> made v = made w \<Longrightarrow> calling E u" for v q u
    using newSocketChannel_calling[of E v q u] s by blast
  show ?thesis using run
    by (auto simp: con_connect_def Let_def split: prod.splits sum.splits option.splits intro: s n)
qed

lemma released_calling: "released E m w = (r, w') \<Longrightarrow> (\<And>q v. m w = (q, v) \<Longrightarrow> calling E v) \<Longrightarrow> calling E w'"
  by (auto simp: released_def calling_def split: prod.splits)

lemma con_timer_calling: "calling E w \<Longrightarrow> con_timer E w = (r, w') \<Longrightarrow> calling E w'"
  using con_connect_calling[of E "w\<lparr>conTimers := tl (conTimers w)\<rparr>" "peerAddress (con w)" r w']
    calling_cong[of "w\<lparr>conTimers := tl (conTimers w)\<rparr>" w E]
  by (auto simp: con_timer_def split: list.splits)

interpretation calls: invariant_actions "\<lambda>u :: unit. released E (con_timer E)" "calling E" "\<lambda>u. True" "\<lambda>r. True"
  for E :: "'k srv_env"
  by unfold_locales (auto intro: released_calling con_timer_calling)

lemma con_dispatch_calling:
  assumes "calling E w" and run: "con_dispatch E reported w = (r, w')"
  shows "calling E w'"
proof -
  have s: "made v = made w \<Longrightarrow> calling E v" for v using calling_cong[of v w E] assms(1) by simp
  have n: "newSocketChannel E v = (q, u) \<Longrightarrow> made v = made w \<Longrightarrow> calling E u" for v q u
    using newSocketChannel_calling[of E v q u] s by blast
  have h: "con_handleWriteEvent E v = (q, u) \<Longrightarrow> made v = made w \<Longrightarrow> calling E u" for v q u
    by (auto simp: con_handleWriteEvent_def Let_def split: if_splits prod.splits intro: s n)
  show ?thesis using run
    by (auto simp: con_dispatch_def con_handleEvent_def Let_def split: option.splits if_splits intro: s h)
qed

lemma con_turn_calling:
  assumes inv: "calling E w" and t: "con_turn E t w = (r, w')"
  shows "calling E w'"
proof -
  obtain due reported where d: "t = (due, reported)" by force
  obtain q v where tm: "con_timers E due w = (q, v)" by force
  have v: "calling E v"
    using calls.run_keeps[of E w "replicate due ()" q v] inv tm by (simp add: con_timers_def list_all_iff)
  let ?u = "release E (con_runTasks E v)"
  have u: "calling E ?u" using v calling_cong[of ?u v E] by (simp add: runTasks_made)
  show ?thesis using t d tm v released_calling[of E "con_dispatch E reported" ?u r w'] con_dispatch_calling[OF u]
    by (cases q) (auto simp: con_turn_def)
qed

interpretation turned: invariant_actions "con_turn E" "calling E" "\<lambda>t. True" "\<lambda>r. True"
  for E :: "'k srv_env"
  by unfold_locales (auto intro: con_turn_calling)

lemma con_run_calling:
  assumes "calling E w" and "con_run E a ts w = (r, w')"
  shows "calling E w'"
proof -
  obtain q v where c: "released E (con_connect E a) w = (q, v)" by force
  have v: "calling E v" by (rule released_calling[OF c]) (rule con_connect_calling[OF assms(1)])
  show ?thesis using assms(2) c v turned.run_keeps[OF v, of ts r w']
    by (cases q) (auto simp: con_run_def con_turns_def list_all_iff)
qed

section \<open>From the listening socket and the connect call on\<close>

text \<open>
  A connection of the server (end \<open>True\<close>) and one of the client (end \<open>False\<close>), each with its kernel
  as the library leaves it; nothing has been sent or received on the two sockets.
\<close>

definition joined :: "Server_Channel.conn \<Rightarrow> 'k \<Rightarrow> Server_Channel.conn \<Rightarrow> 'k \<Rightarrow> 'k Connection.conn" where
  "joined c k d k' = \<lparr>ends = (\<lambda>i. if i then fresh_end c k else fresh_end d k'), wrote = (\<lambda>i. [])\<rparr>"

definition unused :: "'k view \<Rightarrow> 'k \<Rightarrow> FdType \<Rightarrow> bool" where
  "unused V k f \<longleftrightarrow> vSent V k f = [] \<and> vRcvd V k f = [] \<and> vReady V k f = []"

lemma joined_start:
  assumes "fresh c" and "fresh d" and "unused V k (fd (conn_chan c))" and "unused V k' (fd (conn_chan d))"
  shows "conn_start V (joined c k d k')"
proof -
  have f: "state (conn_chan e) = ACTIVE" "writeBuffer (conn_chan e) = []" if "fresh e" for e
    using arg_cong[OF that[unfolded fresh_def], of state] arg_cong[OF that[unfolded fresh_def], of writeBuffer]
    by (simp_all add: sc_new_def)
  show ?thesis using f[OF assms(1)] f[OF assms(2)] assms(3,4)
    by (auto simp: conn_start_def joined_def fresh_end_def unused_def sc_inv_def pending_def received_def Let_def)
qed

lemma served_and_made:
  assumes "quiet_connect (env_app E)" and "server_reads E n w = (r, w')" and "conns w = []" and "c \<in> set (conns w')"
    and "quiet_connect (env_app E')" and "con_run E' a ts v = (q, v')" and "made v = []" and "d \<in> set (made v')"
  shows "fresh c" and "fresh d"
proof -
  have "serving E w'"
    using accepted.run_keeps[of E w "replicate n ()" r w'] assms(1-3) by (simp add: serving_def server_reads_def list_all_iff)
  then show "fresh c" using assms(4) by (simp add: serving_def list_all_iff)
  have "calling E' v'" using con_run_calling[of E' v a ts q v'] assms(5-7) by (simp add: calling_def)
  then show "fresh d" using assms(8) by (simp add: calling_def list_all_iff)
qed

text \<open>
  C2. From the listening socket and the connect call to the handlers. Take any connection that a
  server has accepted in any number of read events, and any connection that a connector has made
  with whatever refusals and retries, on sockets that nothing has gone over yet, and let TCP join
  them: over all writes, tasks, events and deliveries that follow, what one side's handlers have
  seen is a prefix of what the other side's user has written, and all of it once nothing waits. The
  steps that follow are those of theory \<open>Connection\<close>, with its bounds: no write error but
  \<^verbatim>\<open>EAGAIN\<close> and \<^verbatim>\<open>EINTR\<close>, write events with at most 512 waiting buffers, messages of at most \<open>2 ^ 62\<close> bytes, read
  events below 1 GiB.
\<close>

theorem client_server_in_order:
  assumes "tcp_spec S V" and "\<forall>i bs. length bs \<le> 2 ^ 30 \<longrightarrow> small (reply i bs)"
    and "env_sys E = S" "env_app E = answering S (reply True)" "env_sys E' = S" "env_app E' = answering S (reply False)"
    and "server_reads E n w = (r, w')" "conns w = []" "c \<in> set (conns w')"
    and "con_run E' a ts v = (q, v')" "made v = []" "d \<in> set (made v')"
    and "unused V (skern w') (fd (conn_chan c))" "unused V (ckern v') (fd (conn_chan d))"
    and "(conn_step S V reply)\<^sup>*\<^sup>* (joined c (skern w') d (ckern v')) x" and "y = ends x i" and "z = ends x (\<not> i)"
  shows "prefix (received (fired z)) (wrote x i) \<and>
    (pending (chan y) = [] \<and> vRcvd V (kern z) (fd (chan z)) = vSent V (kern y) (fd (chan y)) \<and>
     state (chan y) \<noteq> INACTIVE \<and> state (chan z) \<noteq> INACTIVE \<longrightarrow> received (fired z) = wrote x i)"
proof -
  have "quiet_connect (env_app E)" "quiet_connect (env_app E')" using assms(4,6) by (simp_all add: quiet_connect_def)
  note new = served_and_made[OF this(1) assms(7-9) this(2) assms(10-12)]
  have "conn_start V (joined c (skern w') d (ckern v'))" by (rule joined_start[OF new assms(13,14)])
  from conn_inv_in_order[OF conn_steps_inv[OF assms(1,2,15) conn_start_inv[OF this]] assms(16,17)] show ?thesis .
qed

text \<open>One accepted connection and one made at the first attempt, on two kernels as in theory \<open>Connection\<close>.\<close>

definition duplex_net :: "duplex net" where
  "duplex_net = \<lparr>net_socket = (\<lambda>a t k. (Inr 5, k)), net_fcntl = (\<lambda>f k. (True, k)), net_open_null = (\<lambda>k. (Inr 6, k)),
     net_close = (\<lambda>f k. k), net_bind = (\<lambda>f a k. (None, k)), net_listen = (\<lambda>f n k. (None, k)),
     net_accept = (\<lambda>s k. (Inr (5, []), k)), net_connect = (\<lambda>f a k. (None, k)), net_sockname = (\<lambda>f k. (Inr [], k)),
     net_sockerr = (\<lambda>f k. (Inr 0, k)), net_setsockopt = (\<lambda>f so k. k), net_sendto = (\<lambda>f bs a k. (Inr 0, k)),
     net_recvfrom = (\<lambda>f n k. (Inr ([], []), k))\<rparr>"

definition duplex_env :: "duplex srv_env" where
  "duplex_env = \<lparr>env_sys = duplex_sys, env_net = duplex_net,
     env_names = \<lparr>pton4 = (\<lambda>s. None), pton6 = (\<lambda>s. None), nametoindex = (\<lambda>s. 0)\<rparr>,
     env_app = answering duplex_sys echo, env_next = (\<lambda>n. 0)\<rparr>"

definition duplex_server :: "duplex srv_world" where
  "duplex_server = \<lparr>srv = \<lparr>fd = 3, events = kReadEvent, readyEvents = kNoneEvent, isRegistered = True,
       idleFd = 4, backlog = 4096, channelOptions = [], childOptions = [], childHandlers = [], childInitializationCallback = None\<rparr>,
     skern = \<lparr>dxOut = [], dxIn = [], dxWait = []\<rparr>, hstore = (\<lambda>h. \<lparr>name = [], kind = SocketHandler, next = None\<rparr>),
     conns = [], srvRegistered = True\<rparr>"

definition duplex_client :: "duplex con_world" where
  "duplex_client = \<lparr>con = connector_new, ckern = \<lparr>dxOut = [], dxIn = [], dxWait = []\<rparr>,
     cstore = (\<lambda>h. \<lparr>name = [], kind = SocketHandler, next = None\<rparr>), inTable = False, conTasks = [], conTimers = [],
     made = [], alive = True\<rparr>"

abbreviation no_bytes :: duplex where
  "no_bytes \<equiv> \<lparr>dxOut = [], dxIn = [], dxWait = []\<rparr>"

lemma duplex_calls:
  "sock_accept (env_net duplex_env) f k = (Inr (5, isa_default), k)"
  "getLocalAddress (env_net duplex_env) f a k = (a, k)"
  "createTcpSocket (env_net duplex_env) fam k = (Inr 5, k)"
  "setSockNonBlock (env_net duplex_env) f k = k"
  "sock_connect (env_net duplex_env) f a k = (None, k)"
  by (simp_all add: duplex_env_def duplex_net_def sock_accept_def getLocalAddress_def createTcpSocket_def setSockCloExec_def
      setSockNonBlock_def sock_connect_def)

definition duplex_conn :: "inet_sock_address \<Rightarrow> nat option \<Rightarrow> Server_Channel.conn" where
  "duplex_conn la hp = \<lparr>conn_chan = chan duplex_end, conn_local = la, conn_peer = isa_default, conn_head = hp, conn_loop = 0\<rparr>"

lemma duplex_activate: "activate_new duplex_env 5 la isa_default hp 0 no_bytes = (no_bytes, [duplex_conn la hp])"
proof -
  have "channelActive duplex_sys (answering duplex_sys echo)
      \<lparr>chan = sc_new 5, kern = no_bytes, inChannels = False, tasks = [], fired = []\<rparr> = duplex_end"
    by (simp add: channelActive_def sc_registerTo_def poller_registerChannel_def poller_add_def epollCtl_def setRegistered_def
        addEvent_def sc_new_def fire_def duplex_end_def duplex_sys_def kEvent_defs)
  then show ?thesis by (simp add: activate_new_def duplex_env_def duplex_conn_def) (simp add: duplex_end_def)
qed

lemma duplex_served:
  obtains w where "server_reads duplex_env 1 duplex_server = (Inr (), w)" "conns w = [duplex_conn isa_default None]"
    "skern w = no_bytes"
proof -
  have f: "skern duplex_server = no_bytes" "conns duplex_server = []" "env_next duplex_env n = 0" for n
    by (simp_all add: duplex_server_def duplex_env_def)
  have init: "server_initSocketChannel duplex_env 5 (duplex_server\<lparr>skern := no_bytes\<rparr>) = (Inr None, duplex_server)"
    by (simp add: server_initSocketChannel_def duplex_server_def apply_calls_def)
  let ?w = "server_activate duplex_env 5 isa_default isa_default None duplex_server"
  have "server_handleReadEvent duplex_env duplex_server = (Inr (), ?w)"
    by (simp add: server_handleReadEvent_def duplex_calls f(1) init)
  then have "server_reads duplex_env 1 duplex_server = (Inr (), ?w)" by (simp add: server_reads_def)
  moreover have "conns ?w = [duplex_conn isa_default None]" "skern ?w = no_bytes"
    by (simp_all add: server_activate_def f duplex_activate)
  ultimately show thesis by (rule that)
qed

lemma duplex_called:
  obtains v where "con_run duplex_env isa_default [] duplex_client = (Inr (), v)" "made v = [duplex_conn isa_default None]"
    "ckern v = no_bytes"
proof -
  let ?w = "duplex_client\<lparr>con := (con duplex_client)\<lparr>fd := 5, peerAddress := isa_default\<rparr>, ckern := no_bytes\<rparr>"
  let ?u = "?w\<lparr>con := (con ?w)\<lparr>cstate := CONNECTED\<rparr>\<rparr>"
  let ?v = "?u\<lparr>made := [duplex_conn isa_default None]\<rparr>"
  have f: "ckern duplex_client = no_bytes" by (simp add: duplex_client_def)
  have "newSocketChannel duplex_env ?w = (Inr (), ?v)"
    by (simp add: newSocketChannel_def duplex_calls con_initSocketChannel_def apply_calls_def)
      (simp add: duplex_client_def connector_new_def duplex_activate)
  then have c: "con_connect duplex_env isa_default duplex_client = (Inr (), ?v)"
    by (simp add: con_connect_def duplex_calls f)
  have "con_run duplex_env isa_default [] duplex_client = (Inr (), release duplex_env ?v)"
    by (simp add: con_run_def released_def c con_turns_def)
  moreover have "ckern (release duplex_env ?v) = no_bytes" by (simp add: release_def con_destroy_def)
  ultimately show thesis by (intro that) simp_all
qed

theorem client_server_in_order_witness:
  "\<exists>w v x. server_reads duplex_env 1 duplex_server = (Inr (), w) \<and> conns w = [duplex_conn isa_default None] \<and>
     con_run duplex_env isa_default [] duplex_client = (Inr (), v) \<and> made v = [duplex_conn isa_default None] \<and>
     demo_step\<^sup>*\<^sup>* (joined (duplex_conn isa_default None) (skern w) (duplex_conn isa_default None) (ckern v)) x \<and>
     prefix [1, 2, 3] (wrote x True) \<and> prefix (received (fired (ends x False))) (wrote x True)"
proof -
  obtain w where w: "server_reads duplex_env 1 duplex_server = (Inr (), w)" "conns w = [duplex_conn isa_default None]"
    "skern w = no_bytes" by (rule duplex_served)
  obtain v where v: "con_run duplex_env isa_default [] duplex_client = (Inr (), v)" "made v = [duplex_conn isa_default None]"
    "ckern v = no_bytes" by (rule duplex_called)
  have j: "joined (duplex_conn isa_default None) (skern w) (duplex_conn isa_default None) (ckern v) = demo_conn"
    by (simp add: joined_def fresh_end_def demo_conn_def w v duplex_conn_def fun_eq_iff) (simp add: duplex_end_def)
  obtain x where x: "demo_step\<^sup>*\<^sup>* demo_conn x" "prefix [1, 2, 3] (wrote x True)" using demo_conn_run by blast
  have e: "env_sys duplex_env = duplex_sys" "env_app duplex_env = answering duplex_sys echo"
    "conns duplex_server = []" "made duplex_client = []"
    by (simp_all add: duplex_env_def duplex_server_def duplex_client_def)
  have "prefix (received (fired (ends x False))) (wrote x True)"
    using client_server_in_order[OF duplex_tcp echo_small e(1,2) e(1,2) w(1) e(3) _ v(1) e(4) _ _ _ _ refl refl,
        of "duplex_conn isa_default None" "duplex_conn isa_default None" x True] w v j x
    by (simp add: unused_def duplex_view_def)
  then show ?thesis using w v j x by auto
qed

end
