(* ===== verification/Handover.thy ===== *)
theory Handover
  imports Socket_Channel
begin

text \<open>
  \<^verbatim>\<open>SocketChannel::channelActive\<close> called by a thread that is not the channel's event loop, as
  \<^verbatim>\<open>ServerSocketChannel::handleReadEvent\<close> does: the acceptor's loop activates a channel that
  belongs to a loop of the child group. From \<^verbatim>\<open>epoll_ctl\<close> on, the child's loop can be told of the
  channel while the acceptor is still in the middle of the function. The acceptor takes the
  statements of \<^verbatim>\<open>channelActive\<close> and of \<^verbatim>\<open>EventLoop::registerChannel\<close> one by one; the handlers and tasks
  of the other loop, whose operations are those of \<open>Socket_Channel\<close>, may run between any two.
\<close>

section \<open>The two threads\<close>

text \<open>
  Program points of the activating thread: before \<^verbatim>\<open>addEvent\<close>, before the poller's call, before the
  entry in the loop's table, before the state is set, before the connect event, and after the
  function with and without a registration.
\<close>

datatype activate_pc = AEvent | ARegister | AInsert | AState | AConnect | AReturned | AFailed

record 'k handover =
  hoWorld :: "'k sc_world"
  hoPc :: activate_pc

definition handover_start :: "FdType \<Rightarrow> 'k \<Rightarrow> 'k handover" where
  "handover_start f k =
     \<lparr>hoWorld = \<lparr>chan = sc_new f, kern = k, inChannels = False, tasks = [], fired = []\<rparr>, hoPc = AEvent\<rparr>"

inductive activate_step :: "'k sys \<Rightarrow> 'k app \<Rightarrow> 'k handover \<Rightarrow> 'k handover \<Rightarrow> bool" for S app where
  act_event: "hoPc h = AEvent \<Longrightarrow> w = hoWorld h \<Longrightarrow>
    activate_step S app h \<lparr>hoWorld = w\<lparr>chan := addEvent kReadEvent (chan w)\<rparr>, hoPc = ARegister\<rparr>"
| act_register: "hoPc h = ARegister \<Longrightarrow> w = hoWorld h \<Longrightarrow> poller_registerChannel S (chan w) (kern w) = (True, c, k) \<Longrightarrow>
    activate_step S app h \<lparr>hoWorld = w\<lparr>chan := c, kern := k\<rparr>, hoPc = AInsert\<rparr>"
| act_refused: "hoPc h = ARegister \<Longrightarrow> w = hoWorld h \<Longrightarrow> poller_registerChannel S (chan w) (kern w) = (False, c, k) \<Longrightarrow>
    v = w\<lparr>chan := c, kern := k\<rparr> \<Longrightarrow>
    activate_step S app h \<lparr>hoWorld = (if isRegistered c then sc_deregister S v else v), hoPc = AFailed\<rparr>"
| act_insert: "hoPc h = AInsert \<Longrightarrow> activate_step S app h \<lparr>hoWorld = (hoWorld h)\<lparr>inChannels := True\<rparr>, hoPc = AState\<rparr>"
| act_state: "hoPc h = AState \<Longrightarrow> w = hoWorld h \<Longrightarrow>
    activate_step S app h \<lparr>hoWorld = w\<lparr>chan := (chan w)\<lparr>state := ACTIVE\<rparr>\<rparr>, hoPc = AConnect\<rparr>"
| act_connect: "hoPc h = AConnect \<Longrightarrow>
    activate_step S app h \<lparr>hoWorld = fire app EvConnect (hoWorld h), hoPc = AReturned\<rparr>"

text \<open>
  The loop of the channel: epoll reports some mask for a registered channel, or the next task runs.
  Any other thread that knows the channel may write, which posts a task to that loop.
\<close>

inductive child_step :: "'k sys \<Rightarrow> 'k app \<Rightarrow> 'k sc_world \<Rightarrow> 'k sc_world \<Rightarrow> bool" for S app where
  child_event: "isRegistered (chan w) \<Longrightarrow>
    sc_handleEvent S app (w\<lparr>chan := prepareReady revents (chan w)\<rparr>) = Inr w' \<Longrightarrow> child_step S app w w'"
| child_task: "tasks w = t # ts \<Longrightarrow> sc_runTask S app t (w\<lparr>tasks := ts\<rparr>) = Inr w' \<Longrightarrow>
    call_lawful w (RunTask t) \<Longrightarrow> child_step S app w w'"
| other_write: "length data \<le> 2 ^ 62 \<Longrightarrow> writeStringMessage S app False data cb w = Inr w' \<Longrightarrow> child_step S app w w'"

inductive handover_step :: "'k sys \<Rightarrow> 'k app \<Rightarrow> 'k handover \<Rightarrow> 'k handover \<Rightarrow> bool" for S app where
  by_acceptor: "activate_step S app h h' \<Longrightarrow> handover_step S app h h'"
| by_child: "child_step S app (hoWorld h) w' \<Longrightarrow> handover_step S app h (h\<lparr>hoWorld := w'\<rparr>)"

inductive_cases activate_stepE: "activate_step S app h h'"
inductive_cases child_stepE: "child_step S app w w'"

section \<open>Undisturbed, it is \<^verbatim>\<open>channelActive\<close>\<close>

text \<open>With no step of another thread in between, the program points compose to the function.\<close>

lemma activate_alone:
  assumes "hoPc h = AEvent"
  shows "\<exists>pc. (activate_step S app)\<^sup>*\<^sup>* h \<lparr>hoWorld = channelActive S app (hoWorld h), hoPc = pc\<rparr> \<and>
    pc \<in> {AReturned, AFailed}"
proof -
  let ?w = "(hoWorld h)\<lparr>chan := addEvent kReadEvent (chan (hoWorld h))\<rparr>"
  obtain ok c k where r: "poller_registerChannel S (chan ?w) (kern ?w) = (ok, c, k)" by (metis prod_cases3)
  have 1: "activate_step S app h \<lparr>hoWorld = ?w, hoPc = ARegister\<rparr>" using assms by (rule act_event) simp
  note via = converse_rtranclp_into_rtranclp[of "activate_step S app"] and stop = rtranclp.rtrancl_refl[of "activate_step S app"]
  show ?thesis
  proof (cases ok)
    case True
    let ?v = "?w\<lparr>chan := c, kern := k\<rparr>"
    let ?u = "?v\<lparr>inChannels := True\<rparr>"
    let ?x = "?u\<lparr>chan := (chan ?u)\<lparr>state := ACTIVE\<rparr>\<rparr>"
    have 2: "activate_step S app \<lparr>hoWorld = ?w, hoPc = ARegister\<rparr> \<lparr>hoWorld = ?v, hoPc = AInsert\<rparr>"
      using act_register[where h = "\<lparr>hoWorld = ?w, hoPc = ARegister\<rparr>"] r True by simp
    have 3: "activate_step S app \<lparr>hoWorld = ?v, hoPc = AInsert\<rparr> \<lparr>hoWorld = ?u, hoPc = AState\<rparr>"
      using act_insert[where h = "\<lparr>hoWorld = ?v, hoPc = AInsert\<rparr>"] by simp
    have 4: "activate_step S app \<lparr>hoWorld = ?u, hoPc = AState\<rparr> \<lparr>hoWorld = ?x, hoPc = AConnect\<rparr>"
      using act_state[where h = "\<lparr>hoWorld = ?u, hoPc = AState\<rparr>"] by simp
    have 5: "activate_step S app \<lparr>hoWorld = ?x, hoPc = AConnect\<rparr> \<lparr>hoWorld = fire app EvConnect ?x, hoPc = AReturned\<rparr>"
      using act_connect[where h = "\<lparr>hoWorld = ?x, hoPc = AConnect\<rparr>"] by simp
    have "channelActive S app (hoWorld h) = fire app EvConnect ?x"
      using r True by (simp add: channelActive_def sc_registerTo_def)
    then show ?thesis using via[OF 1 via[OF 2 via[OF 3 via[OF 4 via[OF 5 stop]]]]] by auto
  next
    case False
    let ?v = "?w\<lparr>chan := c, kern := k\<rparr>"
    have 2: "activate_step S app \<lparr>hoWorld = ?w, hoPc = ARegister\<rparr>
        \<lparr>hoWorld = (if isRegistered c then sc_deregister S ?v else ?v), hoPc = AFailed\<rparr>"
      using act_refused[where h = "\<lparr>hoWorld = ?w, hoPc = ARegister\<rparr>"] r False by simp
    have "channelActive S app (hoWorld h) = (if isRegistered c then sc_deregister S ?v else ?v)"
      using r False by (simp add: channelActive_def sc_registerTo_def)
    then show ?thesis using via[OF 1 via[OF 2 stop]] by auto
  qed
qed

section \<open>What the handlers see\<close>

definition connects :: "'k sc_world \<Rightarrow> nat" where
  "connects w = count_list (fired w) EvConnect"

text \<open>User code does not fire connect events; only \<^verbatim>\<open>channelActive\<close> does.\<close>

definition never_connects :: "'k app \<Rightarrow> bool" where
  "never_connects app \<longleftrightarrow> (\<forall>e w. connects (app e w) = connects w)"

lemma sc_modify_fired [simp]: "fired (sc_modify S w) = fired w"
  using sc_modify_frame(1)[of w S] by (simp add: quiet_def)

lemma sc_deregister_frame:
  "fired (sc_deregister S w) = fired w" "state (chan (sc_deregister S w)) = state (chan w)"
  "tasks (sc_deregister S w) = tasks w" "writeBuffer (chan (sc_deregister S w)) = writeBuffer (chan w)"
  "\<not> isRegistered (chan (sc_deregister S w))" "\<not> inChannels (sc_deregister S w)"
  by (simp_all add: sc_deregister_def poller_deregisterChannel_def Let_def setRegistered_def socket_channel.defs
      split: prod.split)

lemma fire_connects: "never_connects app \<Longrightarrow> e \<noteq> EvConnect \<Longrightarrow> connects (fire app e w) = connects w"
  by (simp add: never_connects_def connects_def fire_def)

lemma channelInActive_connects: "never_connects app \<Longrightarrow> connects (channelInActive app w) = connects w"
  using fire_connects[of app EvDisconnect "w\<lparr>chan := (chan w)\<lparr>state := INACTIVE\<rparr>\<rparr>"]
  by (simp add: channelInActive_def addTask_def connects_def)

lemma sc_shutdown_connects: "never_connects app \<Longrightarrow> connects (sc_shutdown S app w) = connects w"
  using channelInActive_connects[of app "sc_shutdown_how S SHUT_RDWR w"] by (simp add: sc_shutdown_def connects_def)

lemma doWrite_fired: "doWrite S app data cb w = Inr w' \<Longrightarrow> fired w' = fired w"
  by (auto simp: doWrite_def doWriteDirectly_def appendBuffer_def Let_def ebind_eq_Inr
      split: if_splits prod.splits sum.splits)

lemma read_event_connects:
  assumes "never_connects app" and "sc_handleReadEvent S app w = Inr w'"
  shows "connects w' = connects w"
  using assms(2) fire_connects[OF assms(1)] channelInActive_connects[OF assms(1)] sc_shutdown_connects[OF assms(1)]
  by (auto simp: sc_handleReadEvent_def handleReadError_def sc_shutdownRead_def Let_def ebind_eq_Inr
      split: if_splits sum.splits) (simp_all add: connects_def)

lemma write_event_connects:
  assumes "never_connects app" and run: "sc_handleWriteEvent S app w = Inr w'"
  shows "connects w' = connects w"
proof (cases "state (chan w) = INACTIVE")
  case False
  note off = channelInActive_connects[OF assms(1)]
  obtain xs where x: "read_blocks (writeBuffer (chan w)) = Inr xs"
    using run False by (auto simp: sc_handleWriteEvent_def ebind_eq_Inr)
  obtain r k where wv: "writev S (fd (chan w)) xs (length (writeBuffer (chan w))) (kern w) = (r, k)" by force
  show ?thesis
  proof (cases r)
    case (Inl e)
    then show ?thesis using run False x wv off[of "w\<lparr>kern := k\<rparr>"]
      by (auto simp: sc_handleWriteEvent_def handleWriteError_def connects_def Let_def)
  next
    case (Inr n)
    let ?full = "flushCallbacks (writeCompleteCallbacks (chan w)) (w\<lparr>kern := k, chan := (chan w)\<lparr>writeBuffer := []\<rparr>\<rparr>)"
    show ?thesis using run False x wv Inr off[of ?full]
      by (auto simp: sc_handleWriteEvent_def flushCallbacks_simps connects_def Let_def split: if_splits)
  qed
qed (use run in \<open>simp add: sc_handleWriteEvent_def\<close>)

lemma event_connects:
  assumes app: "never_connects app" and run: "sc_handleEvent S app w = Inr w'"
  shows "connects w' = connects w"
proof -
  have e: "connects (sc_handleErrorEvent app v) = connects v" for v
    using channelInActive_connects[OF app] by (simp add: sc_handleErrorEvent_def)
  show ?thesis using run e read_event_connects[OF app] write_event_connects[OF app]
    by (auto simp: sc_handleEvent_def handleEvent_def ebind_eq_Inr split: if_splits)
qed

lemma child_connects:
  assumes app: "never_connects app" and "child_step S app w w'"
  shows "connects w' = connects w"
  using assms(2)
proof cases
  case (child_event revents)
  then show ?thesis using event_connects[OF app] by (fastforce simp: connects_def)
next
  case (child_task t ts)
  then show ?thesis using fire_connects[OF app]
    by (cases t) (auto simp: sc_deregister_frame connects_def dest!: doWrite_fired)
next
  case (other_write data cb)
  then show ?thesis by (auto simp: writeStringMessage_def addTask_def connects_def)
qed

section \<open>The invariant\<close>

definition untouched :: "'k sc_world \<Rightarrow> bool" where
  "untouched w \<longleftrightarrow> state (chan w) = INACTIVE \<and> fired w = [] \<and> writeBuffer (chan w) = [] \<and>
     list_all (\<lambda>t. \<exists>data cb. t = DoWriteTask data cb) (tasks w)"

definition handover_inv :: "'k handover \<Rightarrow> bool" where
  "handover_inv h \<longleftrightarrow>
     (let w = hoWorld h in
      case hoPc h of
        AConnect \<Rightarrow> sc_good w \<and> connects w = 0
      | AReturned \<Rightarrow> sc_good w \<and> connects w = 1
      | pc \<Rightarrow> untouched w \<and> inChannels w = (pc = AState) \<and> isRegistered (chan w) = (pc \<in> {AInsert, AState}))"

lemma child_untouched:
  assumes "untouched w" and "child_step S app w w'"
  shows "untouched w' \<and> inChannels w' = inChannels w \<and> isRegistered (chan w') = isRegistered (chan w)"
  using assms(2)
proof cases
  case (child_event revents)
  let ?w = "w\<lparr>chan := prepareReady revents (chan w)\<rparr>"
  note more = channel_more_fields[OF prepareReady_fields(4), of revents "chan w"]
  have "state (chan ?w) = INACTIVE" using assms(1) more by (simp add: untouched_def)
  from inactive_channel_inert[OF this] have "w' = ?w" using child_event(2) by fastforce
  then show ?thesis using assms(1) more by (simp add: untouched_def)
next
  case (child_task t ts)
  then obtain data cb where t: "t = DoWriteTask data cb" using assms(1) by (auto simp: untouched_def)
  then have "w' = w\<lparr>tasks := ts\<rparr>" using child_task assms(1) by (simp add: doWrite_def untouched_def)
  then show ?thesis using assms(1) child_task(1) by (simp add: untouched_def)
next
  case (other_write data cb)
  then show ?thesis using assms(1) by (auto simp: writeStringMessage_def addTask_def untouched_def)
qed

lemma child_good:
  assumes app: "keeps sc_good app" and good: "sc_good w" and "child_step S app w w'"
  shows "sc_good w'"
  using assms(3)
proof cases
  case (child_event revents)
  let ?w = "w\<lparr>chan := prepareReady revents (chan w)\<rparr>"
  have "sc_good ?w" using sc_good_cong[OF good, of ?w] channel_more_fields[OF prepareReady_fields(4), of revents "chan w"] by simp
  then show ?thesis using sc_good_call[OF app, of ?w Ready] child_event(2) by simp
next
  case (child_task t ts)
  have "sc_good (w\<lparr>tasks := ts\<rparr>)" by (rule sc_good_cong[OF good]) simp_all
  then show ?thesis using sc_good_call[OF app, of "w\<lparr>tasks := ts\<rparr>" "RunTask t"] child_task by (cases t) auto
next
  case (other_write data cb)
  then show ?thesis using sc_good_call[OF app good, of "WriteCall False data cb"] by simp
qed

lemma handover_step_inv:
  assumes app: "keeps sc_good app" "never_connects app" and "handover_step S app h h'" and inv: "handover_inv h"
  shows "handover_inv h'"
  using assms(3)
proof cases
  case by_acceptor
  from this inv show ?thesis
  proof (cases rule: activate_step.cases)
    case (act_event w)
    then show ?thesis using inv by (simp add: handover_inv_def untouched_def addEvent_def Let_def)
  next
    case (act_register w c k)
    then show ?thesis using inv
      by (auto simp: handover_inv_def untouched_def poller_registerChannel_def poller_add_def setRegistered_def
          socket_channel.defs Let_def split: prod.splits if_splits)
  next
    case (act_refused w c k v)
    then show ?thesis using inv
      by (auto simp: handover_inv_def untouched_def poller_registerChannel_def poller_add_def Let_def
          split: prod.splits if_splits)
  next
    case act_insert
    then show ?thesis using inv by (simp add: handover_inv_def untouched_def Let_def)
  next
    case (act_state w)
    then show ?thesis using inv
      by (simp add: handover_inv_def untouched_def sc_good_def sc_inv_def disconnects_def connects_def Let_def)
  next
    case act_connect
    then have "sc_good (hoWorld h)" "connects (hoWorld h) = 0" using inv by (simp_all add: handover_inv_def Let_def)
    then have "sc_good (fire app EvConnect (hoWorld h))" "connects (fire app EvConnect (hoWorld h)) = 1"
      using sc_good_fire[OF app(1)] app(2) by (simp_all add: never_connects_def connects_def fire_def)
    then show ?thesis using act_connect by (simp add: handover_inv_def Let_def)
  qed
next
  case (by_child w')
  then show ?thesis using inv child_untouched child_good[OF app(1)] child_connects[OF app(2)]
    unfolding handover_inv_def Let_def by (cases "hoPc h") fastforce+
qed

lemma handover_start_inv: "handover_inv (handover_start f k)"
  by (simp add: handover_inv_def handover_start_def untouched_def sc_new_def)

lemma handover_steps_inv:
  assumes "keeps sc_good app" "never_connects app" and "(handover_step S app)\<^sup>*\<^sup>* (handover_start f k) h"
  shows "handover_inv h"
  using assms(3) by induction (use handover_start_inv handover_step_inv[OF assms(1,2)] in auto)

text \<open>
  C7. A channel activated from a foreign thread is safe up to the order of the first events,
  however the two threads interleave: until the activating thread has set the state, and for ever
  if the registration failed, the handlers hear nothing, whatever epoll reports and whoever
  writes; from then on the connect event is fired exactly once, by that thread, and the disconnect
  event exactly once if the channel has become inactive, and the channel stays well formed. A
  channel whose registration failed is in neither the loop's table nor epoll.
\<close>

theorem handover_safe:
  assumes "keeps sc_good app" and "never_connects app"
    and "(handover_step S app)\<^sup>*\<^sup>* (handover_start f k) h" and "w = hoWorld h"
  shows "if hoPc h \<in> {AConnect, AReturned}
    then connects w = (if hoPc h = AReturned then 1 else 0) \<and>
         disconnects w = (if state (chan w) = INACTIVE then 1 else 0) \<and> sc_inv (chan w)
    else fired w = [] \<and> state (chan w) = INACTIVE \<and>
         (hoPc h = AFailed \<longrightarrow> \<not> inChannels w \<and> \<not> isRegistered (chan w))"
  using handover_steps_inv[OF assms(1-3)] assms(4)
  by (cases "hoPc h") (auto simp: handover_inv_def untouched_def sc_good_def Let_def)

section \<open>The order of the first events\<close>

text \<open>The acceptor on its own up to the connect event.\<close>

abbreviation script_handover :: "script handover \<Rightarrow> script handover \<Rightarrow> bool" where
  "script_handover \<equiv> handover_step script_sys (\<lambda>e w. w)"

definition demo_accepted :: "(nat + byte list) list \<Rightarrow> script handover" where
  "demo_accepted rs = handover_start 5 \<lparr>reads = rs, inp = [], writes = [], out = [], epset = (\<lambda>f. None)\<rparr>"

lemma demo_connecting:
  "script_handover\<^sup>*\<^sup>* (demo_accepted rs) \<lparr>hoWorld = demo_world rs [], hoPc = AConnect\<rparr>"
proof -
  let ?k = "\<lparr>reads = rs, inp = [], writes = [], out = [], epset = (\<lambda>f. None)\<rparr>"
  let ?w0 = "\<lparr>chan = (sc_new 5)\<lparr>events := kReadEvent\<rparr>, kern = ?k, inChannels = False, tasks = [], fired = []\<rparr>"
  let ?w1 = "?w0\<lparr>chan := (sc_new 5)\<lparr>events := kReadEvent, isRegistered := True\<rparr>, kern := ?k\<lparr>epset := [5 \<mapsto> EPOLLIN]\<rparr>\<rparr>"
  have 1: "script_handover (demo_accepted rs) \<lparr>hoWorld = ?w0, hoPc = ARegister\<rparr>"
    using act_event[where h = "demo_accepted rs" and S = script_sys and app = "\<lambda>e w. w"]
    by (intro by_acceptor) (simp add: demo_accepted_def handover_start_def addEvent_def sc_new_def kNoneEvent_def)
  have r: "poller_registerChannel script_sys (chan ?w0) (kern ?w0) = (True, chan ?w1, kern ?w1)"
    by (simp add: poller_registerChannel_def poller_add_def epollCtl_def epoll_mask_def setRegistered_def script_ctl_def
        sc_new_def kEvent_defs EPOLLIN_def fun_eq_iff)
  have 2: "script_handover \<lparr>hoWorld = ?w0, hoPc = ARegister\<rparr> \<lparr>hoWorld = ?w1, hoPc = AInsert\<rparr>"
    using act_register[where h = "\<lparr>hoWorld = ?w0, hoPc = ARegister\<rparr>", OF _ _ r] by (intro by_acceptor) simp
  have 3: "script_handover \<lparr>hoWorld = ?w1, hoPc = AInsert\<rparr> \<lparr>hoWorld = ?w1\<lparr>inChannels := True\<rparr>, hoPc = AState\<rparr>"
    using act_insert[where h = "\<lparr>hoWorld = ?w1, hoPc = AInsert\<rparr>"] by (intro by_acceptor) simp
  have 4: "script_handover \<lparr>hoWorld = ?w1\<lparr>inChannels := True\<rparr>, hoPc = AState\<rparr> \<lparr>hoWorld = demo_world rs [], hoPc = AConnect\<rparr>"
    using act_state[where h = "\<lparr>hoWorld = ?w1\<lparr>inChannels := True\<rparr>, hoPc = AState\<rparr>" and S = script_sys and app = "\<lambda>e w. w"]
    by (intro by_acceptor) (simp add: demo_world_def)
  show ?thesis using 1 2 3 4 by (meson converse_rtranclp_into_rtranclp rtranclp.rtrancl_refl)
qed

text \<open>Whatever the loop does in that window comes before the connect event.\<close>

lemma before_connect:
  assumes "child_step S app w w'"
  shows "(handover_step S app)\<^sup>*\<^sup>* \<lparr>hoWorld = w, hoPc = AConnect\<rparr> \<lparr>hoWorld = fire app EvConnect w', hoPc = AReturned\<rparr>"
proof -
  have "handover_step S app \<lparr>hoWorld = w, hoPc = AConnect\<rparr> \<lparr>hoWorld = w', hoPc = AConnect\<rparr>"
    using by_child[of S app "\<lparr>hoWorld = w, hoPc = AConnect\<rparr>"] assms by simp
  moreover have "handover_step S app \<lparr>hoWorld = w', hoPc = AConnect\<rparr> \<lparr>hoWorld = fire app EvConnect w', hoPc = AReturned\<rparr>"
    using act_connect[where h = "\<lparr>hoWorld = w', hoPc = AConnect\<rparr>"] by (intro by_acceptor) simp
  ultimately show ?thesis by (meson converse_rtranclp_into_rtranclp rtranclp.rtrancl_refl)
qed

lemma demo_read_first:
  obtains bs h where "bs \<noteq> []" "script_handover\<^sup>*\<^sup>* (demo_accepted [Inr [1, 2]]) h" "hoPc h = AReturned"
    "fired (hoWorld h) = [EvRead bs, EvConnect]" "state (chan (hoWorld h)) = ACTIVE"
proof -
  let ?w = "demo_world [Inr [1, 2]] []"
  from fresh_recv_buffer obtain b where b: "bb_new kRecvBufferSize = Inr b" "bb_ok b" "content b = []"
    "writableBytes b = kRecvBufferSize" "capacity b \<le> kMaxCapacity" "writerIndex b = 0" by blast
  have n: "\<not> growth_refused kRecvBufferSize b" "kRecvBufferSize \<le> 2 ^ 62" "length [1, 2 :: byte] \<le> kRecvBufferSize"
    using b(2,4) by (simp_all add: growth_refused_def bb_ok_def writableBytes_inv kRecvBufferSize_def)
  obtain b1 where b1: "writeBytesFrom kRecvBufferSize (Inr [1, 2]) b = Inr (int 2, b1)" "bb_ok b1" "content b1 = [1, 2]"
    "writerIndex b1 \<le> 2" "capacity b1 \<le> kMaxCapacity"
    by (rule writeBytesFrom_ok[OF b(2) n(2,1,3)]) (use b in \<open>auto simp: kRecvBufferSize_def\<close>)
  let ?k = "(kern ?w)\<lparr>reads := [], inp := [1, 2]\<rparr>"
  have few: "writerIndex b1 + script_avail ?k + kRecvBufferSize \<le> 2 ^ 30"
    using b1(4) by (simp add: script_avail_def kRecvBufferSize_def)
  have "\<not> growth_refused (kRecvBufferSize - 2) b1"
    using b1(5) few by (intro growth_not_refused) (auto simp: script_avail_def)
  moreover have "kRecvBufferSize - 2 \<le> 2 ^ 62" by (simp add: kRecvBufferSize_def)
  ultimately obtain b2 where b2: "writeBytesFrom (kRecvBufferSize - 2) (Inl EAGAIN) b1 = Inr (- 1, b2)" "bb_ok b2"
    "content b2 = [1, 2]" using writeBytesFrom_error[OF b1(2)] b1(3) by metis
  have "doReadLoop script_sys 5 (kRecvBufferSize - 2) b1 ?k = Some (Inr (Inr 2, b2, ?k))"
    using b2 by (subst doReadLoop.simps)
      (simp add: script_recv_def errno_of_def bb_ok_def readableBytes_content Let_def demo_world_def)
  then have "doRead script_sys 5 b (kern ?w) = Inr (Inr 2, b2, ?k)"
    unfolding doRead_def b(4) using b1
    by (subst doReadLoop.simps) (simp add: script_recv_def Let_def demo_world_def kRecvBufferSize_def)
  then have "sc_handleReadEvent script_sys (\<lambda>e w. w) (?w\<lparr>chan := prepareReady EPOLLIN (chan ?w)\<rparr>) =
      Inr (?w\<lparr>chan := prepareReady EPOLLIN (chan ?w), kern := ?k, fired := [EvRead [1, 2]]\<rparr>)"
    using b(1) b2(3) channel_more_fields[OF prepareReady_fields(4), of EPOLLIN "chan ?w"]
    by (simp add: sc_handleReadEvent_def fire_def)
  moreover have "readyEvents (prepareReady EPOLLIN (chan ?w)) = kReadEvent"
    by (simp add: prepareReady_def setReadyEvents_def addReadyEvent_def EPOLL_defs kEvent_defs)
  ultimately have "sc_handleEvent script_sys (\<lambda>e w. w) (?w\<lparr>chan := prepareReady EPOLLIN (chan ?w)\<rparr>) =
      Inr (?w\<lparr>chan := prepareReady EPOLLIN (chan ?w), kern := ?k, fired := [EvRead [1, 2]]\<rparr>)"
    by (simp add: sc_handleEvent_def handleEvent_def kEvent_defs)
  from child_event[OF _ this] have "child_step script_sys (\<lambda>e w. w) ?w
      (?w\<lparr>chan := prepareReady EPOLLIN (chan ?w), kern := ?k, fired := [EvRead [1, 2]]\<rparr>)" by (simp add: demo_world_def)
  from rtranclp_trans[OF demo_connecting before_connect[OF this]] show thesis
    using channel_more_fields[OF prepareReady_fields(4), of EPOLLIN "chan ?w"] that[of "[1, 2]"] by (simp add: fire_def)
qed

lemma demo_disconnect_first:
  obtains h where "script_handover\<^sup>*\<^sup>* (demo_accepted []) h" "hoPc h = AReturned"
    "fired (hoWorld h) = [EvDisconnect, EvConnect]" "state (chan (hoWorld h)) = INACTIVE"
proof -
  let ?w = "demo_world [] []" and ?m = "EPOLLIN OR EPOLLERR"
  let ?v = "?w\<lparr>chan := prepareReady ?m (chan ?w)\<rparr>"
  have m: "readyEvents (prepareReady ?m (chan ?w)) = kErrorEvent OR kReadEvent"
    by (simp add: prepareReady_def setReadyEvents_def addReadyEvent_def EPOLL_defs kEvent_defs)
  have st: "state (chan ?v) = ACTIVE" using channel_more_fields[OF prepareReady_fields(4), of ?m "chan ?w"] by simp
  let ?off = "channelInActive (\<lambda>e w. w) ?v"
  have "sc_handleEvent script_sys (\<lambda>e w. w) ?v = Inr ?off"
    using m st by (simp add: sc_handleEvent_def handleEvent_def sc_handleErrorEvent_def sc_handleReadEvent_def
        channelInActive_def fire_def addTask_def kEvent_defs)
  from child_event[OF _ this] have "child_step script_sys (\<lambda>e w. w) ?w ?off" by (simp add: demo_world_def)
  from rtranclp_trans[OF demo_connecting before_connect[OF this]] show thesis
    using that by (simp add: fire_def channelInActive_def addTask_def)
qed

theorem handover_safe_witness:
  "\<exists>h. script_handover\<^sup>*\<^sup>* (demo_accepted [Inr [1, 2]]) h \<and> hoPc h = AReturned \<and>
     connects (hoWorld h) = 1 \<and> disconnects (hoWorld h) = 0"
proof -
  obtain bs h where h: "script_handover\<^sup>*\<^sup>* (demo_accepted [Inr [1, 2]]) h" "hoPc h = AReturned"
    "state (chan (hoWorld h)) = ACTIVE" by (rule demo_read_first)
  from handover_safe[OF _ _ h(1)[unfolded demo_accepted_def] refl] h show ?thesis
    by (auto simp: keeps_def never_connects_def)
qed

text \<open>
  The order of the first events is not safe: bytes can reach the handlers before the connect event,
  and a connection that has ended is announced after its end.
\<close>

lemma events_before_connect:
  "\<exists>rs bs h h'. bs \<noteq> [] \<and> script_handover\<^sup>*\<^sup>* (demo_accepted rs) h \<and> fired (hoWorld h) = [EvRead bs, EvConnect] \<and>
     script_handover\<^sup>*\<^sup>* (demo_accepted []) h' \<and> fired (hoWorld h') = [EvDisconnect, EvConnect] \<and>
     state (chan (hoWorld h')) = INACTIVE"
  using demo_read_first demo_disconnect_first by metis

end
