(* ===== verification/Channel_Interest.thy ===== *)
theory Channel_Interest
  imports Socket_Channel
begin

text \<open>
  A socket channel and the kernel's interest set: whatever a channel does, its descriptor is in the
  set of \<^verbatim>\<open>epoll\<close> exactly while the channel is marked registered. The events it asks for may differ
  from those in the set (a refused \<^verbatim>\<open>EPOLL_CTL_MOD\<close> is not undone); its presence may not.
\<close>

section \<open>Presence in the interest set\<close>

definition listed :: "('k \<Rightarrow> FdType \<rightharpoonup> 32 word) \<Rightarrow> 'k sc_world \<Rightarrow> bool" where
  "listed I w \<longleftrightarrow> (I (kern w) (fd (chan w)) \<noteq> None) = isRegistered (chan w)"

text \<open>
  The calls on a socket do not touch the interest set, and a descriptor that is in it can be taken
  out: \<^verbatim>\<open>epoll_ctl(2)\<close> names no error for \<^verbatim>\<open>EPOLL_CTL_DEL\<close> of a registered descriptor.
\<close>

definition interest_kept :: "'k sys \<Rightarrow> ('k \<Rightarrow> FdType \<rightharpoonup> 32 word) \<Rightarrow> bool" where
  "interest_kept S I \<longleftrightarrow>
     (\<forall>k f n. I (snd (sys_read S k f n)) = I k) \<and> (\<forall>k f bs. I (snd (sys_write S k f bs)) = I k) \<and>
     (\<forall>k f bss. I (snd (sys_writev S k f bss)) = I k) \<and> (\<forall>k f how. I (sys_shutdown S k f how) = I k) \<and>
     (\<forall>k f ev. I k f = None \<or> fst (sys_epoll_ctl S k EPOLL_CTL_DEL f ev))"

lemma interest_keptD:
  assumes "interest_kept S I"
  shows "sys_read S k f n = (r, k') \<Longrightarrow> I k' = I k" "sys_write S k f bs = (q, k') \<Longrightarrow> I k' = I k"
    "sys_writev S k f bss = (q, k') \<Longrightarrow> I k' = I k" "I (sys_shutdown S k f how) = I k"
    "sys_epoll_ctl S k EPOLL_CTL_DEL f ev = (False, k') \<Longrightarrow> I k f = None"
  using assms unfolding interest_kept_def by (metis snd_conv fst_conv)+

lemma listed_cong:
  "listed I w \<Longrightarrow> I (kern w') = I (kern w) \<Longrightarrow> fd (chan w') = fd (chan w) \<Longrightarrow>
   isRegistered (chan w') = isRegistered (chan w) \<Longrightarrow> listed I w'"
  by (simp add: listed_def)

lemma listed_poller:
  fixes c c' :: "'a channel_scheme"
  assumes "epoll_spec S I" and "interest_kept S I" and "poller_call S f" and "f c k = (ok, c', k')"
    and "(I k (fd c) \<noteq> None) = isRegistered c"
  shows "(I k' (fd c') \<noteq> None) = isRegistered c'"
proof -
  note answer = epollCtl_answer[OF assms(1)]
  from poller_call_cases[OF assms(3,4)] consider
    (add) "poller_add S c k = (ok, c', k')" "\<not> isRegistered c" | (del) "poller_deregisterChannel S c k = (ok, c', k')"
    | (change) "isRegistered c" "c' = c" "epollCtl S EPOLL_CTL_MOD c k = (ok, k')"
    using assms(4) by auto
  then show ?thesis
  proof cases
    case add
    then show ?thesis using assms(5) by (auto simp: poller_add_def split: prod.splits if_splits dest!: answer)
  next
    case del
    let ?c = "setRegistered False c"
    have d: "epollCtl S EPOLL_CTL_DEL ?c k = (ok, k')" "c' = ?c"
      using del by (auto simp: poller_deregisterChannel_def Let_def split: prod.splits)
    have "I k' (fd c) = None"
    proof (cases ok)
      case False
      then have "I k (fd c) = None" using d(1) interest_keptD(5)[OF assms(2)] by (auto simp: epollCtl_def)
      then show ?thesis using answer[OF d(1)] False by simp
    qed (use answer[OF d(1)] in simp)
    then show ?thesis using d(2) by simp
  next
    case change
    then show ?thesis using answer[OF change(3)] assms(5) by (auto split: if_splits)
  qed
qed

section \<open>The operations of the channel\<close>

lemma listed_modify:
  assumes "epoll_spec S I" "interest_kept S I" and "listed I w"
  shows "listed I (sc_modify S w)"
proof -
  obtain ok c k where m: "poller_modifyChannel S (chan w) (kern w) = (ok, c, k)" by (metis prod_cases3)
  have "poller_call S (poller_modifyChannel S :: socket_channel \<Rightarrow> _)" by (simp add: poller_call_def)
  from listed_poller[OF assms(1,2) this m] assms(3) m show ?thesis by (simp add: listed_def sc_modify_def)
qed

lemma listed_deregister:
  assumes "epoll_spec S I" "interest_kept S I" and "listed I w"
  shows "listed I (sc_deregister S w)"
proof -
  obtain ok c k where m: "poller_deregisterChannel S (chan w) (kern w) = (ok, c, k)" by (metis prod_cases3)
  have "poller_call S (poller_deregisterChannel S :: socket_channel \<Rightarrow> _)" by (simp add: poller_call_def)
  from listed_poller[OF assms(1,2) this m] assms(3) m show ?thesis by (simp add: listed_def sc_deregister_def)
qed

lemma listed_fire: "keeps (listed I) app \<Longrightarrow> listed I w \<Longrightarrow> listed I (fire app e w)"
  using listed_cong[of I w "w\<lparr>fired := fired w @ [e]\<rparr>"] by (simp add: keeps_def fire_def)

lemma listed_channelInActive:
  assumes "keeps (listed I) app" and "listed I w"
  shows "listed I (channelInActive app w)"
proof -
  have "listed I (w\<lparr>chan := (chan w)\<lparr>state := INACTIVE\<rparr>\<rparr>)" using assms(2) by (simp add: listed_def)
  from listed_fire[OF assms(1) this, of EvDisconnect] show ?thesis by (simp add: channelInActive_def addTask_def listed_def)
qed

lemma listed_shutdown_how: "interest_kept S I \<Longrightarrow> listed I w \<Longrightarrow> listed I (sc_shutdown_how S how w)"
  using interest_keptD(4)[where S = S and I = I] by (cases how) (auto simp: sc_shutdown_how_def listed_def Let_def)

lemma listed_shutdowns:
  assumes "interest_kept S I" and "listed I w"
  shows "keeps (listed I) app \<Longrightarrow> listed I (sc_shutdown S app w)" "listed I (sc_shutdownRead S w)" "listed I (sc_shutdownWrite S w)"
  using listed_shutdown_how[OF assms] listed_channelInActive[of I app]
  by (auto simp: sc_shutdown_def sc_shutdownRead_def sc_shutdownWrite_def Let_def listed_def)

lemma listed_appendBuffer:
  assumes spec: "epoll_spec S I" "interest_kept S I" and "listed I w" and run: "appendBuffer S data w = Inr w'"
  shows "listed I w'"
proof -
  obtain wb where w': "(let v = w\<lparr>chan := (chan w)\<lparr>writeBuffer := wb\<rparr>\<rparr>
      in if \<not> hasWriteEvent (chan v) then Inr (sc_modify S (v\<lparr>chan := addEvent kWriteEvent (chan v)\<rparr>)) else Inr v) = (Inr w' :: _ res)"
    using run unfolding appendBuffer_def ebind_eq_Inr by blast
  define v where "v = w\<lparr>chan := (chan w)\<lparr>writeBuffer := wb\<rparr>\<rparr>"
  have v: "listed I v" "listed I (v\<lparr>chan := addEvent kWriteEvent (chan v)\<rparr>)" using assms(3) by (simp_all add: v_def listed_def)
  have "w' = v \<or> w' = sc_modify S (v\<lparr>chan := addEvent kWriteEvent (chan v)\<rparr>)"
    using w' unfolding v_def[symmetric] Let_def by (metis Inr_inject)
  then show ?thesis using v listed_modify[OF spec] by blast
qed

lemma listed_pushCallback: "listed I (pushCallback cb w) = listed I w"
  by (simp add: listed_def pushCallback_def)

lemma listed_doWrite:
  assumes spec: "epoll_spec S I" "interest_kept S I" and "listed I w" and run: "doWrite S app data cb w = Inr w'"
  shows "listed I w'"
proof (cases "state (chan w) = INACTIVE \<or> data = []")
  case True
  then show ?thesis using assms(3) run by (auto simp: doWrite_def split: if_splits)
next
  case False
  obtain r k where sw: "sys_write S (kern w) (fd (chan w)) data = (r, k)" by force
  have w: "listed I (w\<lparr>kern := k\<rparr>)" using assms(3) interest_keptD(2)[OF spec(2) sw] by (simp add: listed_def)
  have "listed I (queueCallback cb (w\<lparr>kern := k\<rparr>))"
    using w by (simp add: queueCallback_def addTask_def listed_def split: option.split)
  then show ?thesis
    using run False sw listed_appendBuffer[OF spec w] listed_appendBuffer[OF spec assms(3)]
    by (auto simp: doWrite_def doWriteDirectly_def ebind_eq_Inr Let_def listed_pushCallback split: sum.splits if_splits)
qed

text \<open>The two loops over the kernel.\<close>

lemma writevLoop_interest:
  assumes spec: "interest_kept S I"
  shows "writevLoop S f iovs count wb n k = (r, k') \<Longrightarrow> I k' = I k"
proof (induction "count - wb" arbitrary: wb n k rule: less_induct)
  case less
  show ?case
  proof (cases "wb < count")
    case False
    then show ?thesis using less.prems by (subst (asm) writevLoop.simps) simp
  next
    case True
    define blocks where "blocks = (if count - wb < kMaxCountOfWriteVOnce then count - wb else kMaxCountOfWriteVOnce)"
    obtain q k1 where w: "sys_writev S k f (take blocks (drop wb iovs)) = (q, k1)" by force
    note I1 = interest_keptD(3)[OF spec w]
    have less_blocks: "count - (wb + blocks) < count - wb" using True by (simp add: blocks_def kMaxCountOfWriteVOnce_def) linarith
    show ?thesis
    proof (cases q)
      case (Inl e)
      then show ?thesis using less.prems True w I1 by (subst (asm) writevLoop.simps) (auto simp: blocks_def Let_def split: if_splits)
    next
      case (Inr m)
      have "k' = k1 \<or> (\<exists>n'. writevLoop S f iovs count (wb + blocks) n' k1 = (r, k'))"
        using less.prems True w Inr by (subst (asm) writevLoop.simps) (auto simp: blocks_def Let_def split: if_splits)
      then show ?thesis using less.hyps[OF less_blocks] I1 by metis
    qed
  qed
qed

lemma doRead_interest:
  assumes spec: "interest_kept S I" and run: "doRead S f b k = Inr (r, b', k')"
  shows "I k' = I k"
proof -
  obtain res where l: "doReadLoop S f (writableBytes b) b k = Some res" "res = Inr (r, b', k')"
    using run by (auto simp: doRead_def split: option.splits)
  have "S = S \<longrightarrow> (\<forall>r b' k'. res = Inr (r, b', k') \<longrightarrow> I k' = I k)"
  proof (rule doReadLoop.raw_induct[where P = "\<lambda>S' f n b k res. S' = S \<longrightarrow> (\<forall>r b' k'. res = Inr (r, b', k') \<longrightarrow> I k' = I k)",
        OF _ l(1)], intro impI allI)
    fix loop S' f n b k res r b' k'
    assume IH: "\<And>S' f n b k res. loop S' f n b k = Some res \<Longrightarrow>
        S' = S \<longrightarrow> (\<forall>r b' k'. res = Inr (r, b', k') \<longrightarrow> I k' = I k)"
      and S: "S' = S" "res = Inr (r, b', k')"
      and eq: "(let (reply, k') = sys_read S' k f n
        in case writeBytesFrom n reply b of
           Inl e \<Rightarrow> Some (Inl e)
         | Inr (m, b') \<Rightarrow>
             if m > 0
             then (let adjustment = n - nat m
                   in loop S' f (if adjustment > 0 then adjustment else n) b' k')
             else if m < 0
             then (if errno_of reply \<noteq> EAGAIN \<and> errno_of reply \<noteq> EINTR
                   then Some (Inr (Inl (errno_of reply), b', k'))
                   else Some (Inr (Inr (readableBytes b'), b', k')))
             else (if readableBytes b' = 0 then Some (Inr (Inr 0, b', k'))
                   else Some (Inr (Inr (readableBytes b'), b', k')))) = Some res"
    obtain reply k1 where sr: "sys_read S k f n = (reply, k1)" by force
    note I1 = interest_keptD(1)[OF spec sr]
    from eq have "k' = k1 \<or> (\<exists>n b. loop S f n b k1 = Some (Inr (r, b', k')))"
      unfolding S sr Let_def by (auto split: sum.splits prod.splits if_splits)
    then show "I k' = I k" using IH I1 by metis
  qed
  then show ?thesis using l(2) by simp
qed

section \<open>The events and the tasks\<close>

lemma listed_read:
  assumes spec: "epoll_spec S I" "interest_kept S I" and app: "keeps (listed I) app" and ok: "listed I w"
    and run: "sc_handleReadEvent S app w = Inr w'"
  shows "listed I w'"
proof (cases "state (chan w) = INACTIVE")
  case False
  from run False obtain b0 r b k where r: "doRead S (fd (chan w)) b0 (kern w) = Inr (r, b, k)" "bb_new kRecvBufferSize = Inr b0"
    by (auto simp: sc_handleReadEvent_def ebind_eq_Inr)
  have w: "listed I (w\<lparr>kern := k\<rparr>)" using ok doRead_interest[OF spec(2) r(1)] by (simp add: listed_def)
  define v where "v = sc_shutdownRead S (w\<lparr>kern := k\<rparr>)"
  have "listed I v" using listed_shutdowns(2)[OF spec(2) w] by (simp add: v_def)
  then have "listed I (v\<lparr>chan := setEvents kWriteEvent (chan v)\<rparr>)" by (simp add: listed_def)
  from listed_modify[OF spec this] show ?thesis
    using run False r listed_channelInActive[OF app w] listed_shutdowns(1)[OF spec(2) w app] listed_fire[OF app w] w
    by (auto simp: sc_handleReadEvent_def handleReadError_def v_def Let_def split: sum.splits if_splits)
qed (use assms in \<open>simp add: sc_handleReadEvent_def\<close>)

lemma listed_write:
  assumes spec: "epoll_spec S I" "interest_kept S I" and app: "keeps (listed I) app" and ok: "listed I w"
    and run: "sc_handleWriteEvent S app w = Inr w'"
  shows "listed I w'"
proof (cases "state (chan w) = INACTIVE")
  case False
  from run False obtain bss where bss: "read_blocks (writeBuffer (chan w)) = Inr bss"
    by (auto simp: sc_handleWriteEvent_def ebind_eq_Inr)
  obtain r k where wv: "writev S (fd (chan w)) bss (length (writeBuffer (chan w))) (kern w) = (r, k)" by force
  have I: "I k = I (kern w)" using writevLoop_interest[OF spec(2)] wv by (simp add: writev_def)
  define v where "v = flushCallbacks (writeCompleteCallbacks (chan w)) (w\<lparr>kern := k, chan := (chan w)\<lparr>writeBuffer := []\<rparr>\<rparr>)"
  have w: "listed I (w\<lparr>kern := k\<rparr>)" "listed I v" "listed I (v\<lparr>chan := setEvents kReadEvent (chan v)\<rparr>)"
    "listed I (w\<lparr>kern := k, chan := (chan w)\<lparr>writeBuffer := wb\<rparr>\<rparr>)" for wb
    using ok I by (simp_all add: v_def flushCallbacks_simps listed_def)
  show ?thesis
    using run False bss wv listed_channelInActive[OF app w(1)] listed_channelInActive[OF app w(2)] listed_modify[OF spec w(3)] w
    by (auto simp: sc_handleWriteEvent_def handleWriteError_def v_def Let_def split: sum.splits if_splits)
qed (use assms in \<open>simp add: sc_handleWriteEvent_def\<close>)

lemma listed_event:
  assumes spec: "epoll_spec S I" "interest_kept S I" and app: "keeps (listed I) app" and "listed I w"
    and run: "sc_handleEvent S app w = Inr w'"
  shows "listed I w'"
proof -
  have e: "listed I v \<Longrightarrow> listed I (sc_handleErrorEvent app v)" for v
    using listed_channelInActive[OF app] by (simp add: sc_handleErrorEvent_def)
  from run[unfolded sc_handleEvent_def handleEvent_def ebind_eq_Inr] obtain w1 w2 where
    w1: "w1 = sc_handleErrorEvent app w \<or> w1 = w"
    and w2: "sc_handleReadEvent S app w1 = Inr w2 \<or> w2 = w1"
    and w': "sc_handleWriteEvent S app w2 = Inr w' \<or> w' = w2"
    by (metis Inr_inject)
  have "listed I w1" using w1 e[OF assms(4)] assms(4) by blast
  then have "listed I w2" using w2 listed_read[OF spec app] by blast
  then show ?thesis using w' listed_write[OF spec app] by blast
qed

lemma listed_call:
  assumes spec: "epoll_spec S I" "interest_kept S I" and app: "keeps (listed I) app" and ok: "listed I w"
    and run: "sc_call_step S app x w = Inr w'"
  shows "listed I w'"
proof (cases x)
  case (WriteCall inLoop data cb)
  have "listed I (addTask t w)" for t using ok by (simp add: addTask_def listed_def)
  then show ?thesis using run WriteCall listed_doWrite[OF spec ok] by (auto simp: writeStringMessage_def split: if_splits)
next
  case (RunTask t)
  then show ?thesis
    using run listed_fire[OF app ok] listed_deregister[OF spec ok] listed_doWrite[OF spec ok] by (cases t) auto
qed (use run listed_shutdowns[OF spec(2) ok] listed_event[OF spec app ok] app in auto)

text \<open>A channel that could be registered starts so.\<close>

lemma channelActive_listed:
  assumes spec: "epoll_spec S I" and app: "keeps (listed I) app" and "\<not> isRegistered (chan v)" and "\<not> inChannels v"
    and "inChannels (channelActive S app v)"
  shows "listed I (channelActive S app v)"
proof -
  define u where "u = v\<lparr>chan := addEvent kReadEvent (chan v)\<rparr>"
  obtain ok k where e: "epollCtl S EPOLL_CTL_ADD (chan u) (kern u) = (ok, k)" by force
  have c: "\<not> isRegistered (chan u)" "\<not> inChannels u" using assms(3,4) by (simp_all add: u_def)
  then have r: "sc_registerTo S u = (if ok then (True, u\<lparr>chan := setRegistered True (chan u), kern := k, inChannels := True\<rparr>)
      else (False, u\<lparr>kern := k\<rparr>))"
    using e by (simp add: sc_registerTo_def poller_registerChannel_def poller_add_def Let_def)
  show ?thesis
  proof (cases ok)
    case True
    define x where "x = u\<lparr>kern := k, inChannels := True, chan := (setRegistered True (chan u))\<lparr>state := ACTIVE\<rparr>\<rparr>"
    have "channelActive S app v = fire app EvConnect x" using r True by (simp add: channelActive_def u_def[symmetric] x_def)
    moreover have "listed I x" using epollCtl_answer[OF spec e] True by (simp add: x_def listed_def setRegistered_def)
    ultimately show ?thesis using listed_fire[OF app] by simp
  next
    case False
    then show ?thesis using r c assms(5) by (simp add: channelActive_def u_def[symmetric])
  qed
qed

end
