(* ===== verification/Channel_Life.thy ===== *)
theory Channel_Life
  imports Handover Connection Descriptors Channel_Interest
begin

text \<open>
  The life of a \<^verbatim>\<open>SocketChannel\<close> after its activation, to its destructor: the loop's channel table
  holds it, the closure of \<^verbatim>\<open>channelInActive\<close> holds it and takes it out of the table, and the closures
  of a batch of \<^verbatim>\<open>EventLoop::runPendingTasks\<close> are destroyed together when the batch is over, with the
  last pointer to the channel. Shown is that a connected channel is never let go of, that every other
  one is, by the loop alone, and where a write from another thread comes too late.
\<close>

section \<open>Held by the loop\<close>

text \<open>
  Where the one deregistration of a channel is when it is not in the task list: nowhere, nowhere yet
  (other tasks of the batch come first), about to be queued (while the handlers hear of the
  disconnect), or in the rest of the batch being run.
\<close>

datatype due = NotDue | NotYet | BeingQueued | InBatch

text \<open>
  A connected channel is in the table and in epoll, with some interest, and no deregistration is
  under way. An inactive one has exactly one, which is the last of its tasks, or is gone.
\<close>

definition last_is :: "'a \<Rightarrow> 'a list \<Rightarrow> bool" where
  "last_is x xs \<longleftrightarrow> xs \<noteq> [] \<and> last xs = x \<and> x \<notin> set (butlast xs)"

fun due_ok :: "due \<Rightarrow> bool \<Rightarrow> sc_task list \<Rightarrow> bool" where
  "due_ok NotDue present ts = (if present then last_is DeregisterTask ts else ts = [])"
| "due_ok NotYet present ts = (present \<and> last_is DeregisterTask ts)"
| "due_ok BeingQueued present ts = (present \<and> DeregisterTask \<notin> set ts)"
| "due_ok InBatch present ts = (present \<and> ts = [])"

definition held_ok :: "due \<Rightarrow> 'k sc_world \<Rightarrow> bool" where
  "held_ok d w \<longleftrightarrow> \<not> isNoneEvent (chan w) \<and> isRegistered (chan w) = inChannels w \<and>
     (state (chan w) \<noteq> INACTIVE \<longrightarrow> inChannels w \<and> d \<in> {NotDue, NotYet} \<and> DeregisterTask \<notin> set (tasks w)) \<and>
     (state (chan w) = INACTIVE \<longrightarrow> due_ok d (inChannels w) (tasks w))"

lemma last_is_simps [simp]:
  "\<not> last_is x []" "x \<notin> set xs \<Longrightarrow> last_is x (xs @ [x])" "last_is x xs \<Longrightarrow> x \<in> set xs"
  "last_is x (y # xs) = (if xs = [] then y = x else y \<noteq> x \<and> last_is x xs)"
  by (auto simp: last_is_def)

lemma last_is_count: "last_is x xs \<Longrightarrow> count_list xs x = 1"
  by (induction xs) (auto split: if_splits)

lemma held_ok_cong:
  "held_ok d w \<Longrightarrow> events (chan w') = events (chan w) \<Longrightarrow> isRegistered (chan w') = isRegistered (chan w) \<Longrightarrow>
   state (chan w') = state (chan w) \<Longrightarrow> inChannels w' = inChannels w \<Longrightarrow> tasks w' = tasks w \<Longrightarrow> held_ok d w'"
  by (simp add: held_ok_def isNoneEvent_def)

lemma held_addTask:
  "held_ok d w \<Longrightarrow> state (chan w) \<noteq> INACTIVE \<Longrightarrow> t \<noteq> DeregisterTask \<Longrightarrow> held_ok d (addTask t w)"
  by (simp add: held_ok_def addTask_def)

lemma held_kern: "held_ok d w \<Longrightarrow> held_ok d (w\<lparr>kern := k\<rparr>)"
  by (rule held_ok_cong) simp_all

text \<open>
  What is asked of the handlers: they leave this as they found it, as everything they can do through
  a context does, and do not bring an inactive channel back.
\<close>

definition orderly :: "'k app \<Rightarrow> bool" where
  "orderly app \<longleftrightarrow> (\<forall>d. keeps (held_ok d) app) \<and> keeps (\<lambda>w. state (chan w) = INACTIVE) app"

lemma held_fire: "orderly app \<Longrightarrow> held_ok d w \<Longrightarrow> held_ok d (fire app e w)"
  using held_ok_cong[of d w "w\<lparr>fired := fired w @ [e]\<rparr>"] by (simp add: orderly_def keeps_def fire_def)

text \<open>Becoming inactive queues the one deregistration.\<close>

lemma held_channelInActive:
  assumes app: "orderly app" and "held_ok d w" and "state (chan w) \<noteq> INACTIVE"
  shows "held_ok d (channelInActive app w)"
proof -
  let ?w = "w\<lparr>chan := (chan w)\<lparr>state := INACTIVE\<rparr>\<rparr>"
  have d: "d = NotDue \<or> d = NotYet" and "held_ok BeingQueued ?w" using assms(2,3) by (simp_all add: held_ok_def isNoneEvent_def)
  moreover have "state (chan (fire app EvDisconnect ?w)) = INACTIVE" using app by (simp add: orderly_def keeps_def fire_def)
  ultimately show ?thesis using held_fire[OF app, of BeingQueued ?w EvDisconnect]
    by (auto simp: channelInActive_def addTask_def held_ok_def isNoneEvent_def)
qed

text \<open>A change of interest keeps the registration as long as some interest is left.\<close>

lemma held_modify:
  assumes "held_ok d w" and "state (chan w) \<noteq> INACTIVE" and "\<not> isNoneEvent c" and "isRegistered c = isRegistered (chan w)"
    and "state c = state (chan w)"
  shows "held_ok d (sc_modify S (w\<lparr>chan := c\<rparr>))"
proof -
  have r: "isRegistered c" "\<not> isNoneEvent c" using assms by (simp_all add: held_ok_def)
  then have "held_ok d (w\<lparr>chan := c, kern := k\<rparr>)" for k using assms by (simp add: held_ok_def)
  then show ?thesis using r
    by (simp add: sc_modify_def poller_modifyChannel_def poller_change_def Let_def split: prod.split)
qed

lemma event_masks [simp]:
  "\<not> isNoneEvent (setEvents kReadEvent c)" "\<not> isNoneEvent (setEvents kWriteEvent c)"
  by (simp_all add: isNoneEvent_def setEvents_def kEvent_defs)

lemma addEvent_mask: "\<not> isNoneEvent c \<Longrightarrow> \<not> isNoneEvent (addEvent e c)"
  by (simp add: isNoneEvent_def kNoneEvent_def or_eq_0_iff)

lemma held_appendBuffer:
  assumes "held_ok d w" and "state (chan w) \<noteq> INACTIVE" and run: "appendBuffer S data w = Inr w'"
  shows "held_ok d w'"
proof -
  obtain wb where w': "(let v = w\<lparr>chan := (chan w)\<lparr>writeBuffer := wb\<rparr>\<rparr>
      in if \<not> hasWriteEvent (chan v) then Inr (sc_modify S (v\<lparr>chan := addEvent kWriteEvent (chan v)\<rparr>)) else Inr v) = (Inr w' :: _ res)"
    using run unfolding appendBuffer_def ebind_eq_Inr by blast
  define v where "v = w\<lparr>chan := (chan w)\<lparr>writeBuffer := wb\<rparr>\<rparr>"
  have v: "held_ok d v" "state (chan v) \<noteq> INACTIVE"
    using assms(2) held_ok_cong[OF assms(1), of v] by (simp_all add: v_def)
  have "w' = v \<or> w' = sc_modify S (v\<lparr>chan := addEvent kWriteEvent (chan v)\<rparr>)"
    using w' unfolding v_def[symmetric] Let_def by (metis Inr_inject)
  moreover have "held_ok d (sc_modify S (v\<lparr>chan := addEvent kWriteEvent (chan v)\<rparr>))"
    using v addEvent_mask[of "chan v" kWriteEvent]
    by (intro held_modify[OF v]) (simp_all add: held_ok_def addEvent_def)
  ultimately show ?thesis using v by blast
qed


lemma held_chan: "held_ok d w \<Longrightarrow> held_ok d (w\<lparr>chan := (chan w)\<lparr>writeBuffer := b\<rparr>\<rparr>)"
  "held_ok d w \<Longrightarrow> held_ok d (pushCallback cb w)"
  by (rule held_ok_cong, assumption, simp_all add: pushCallback_def)+

lemma held_doWrite:
  assumes "held_ok d w" and run: "doWrite S app data cb w = Inr w'"
  shows "held_ok d w'"
proof (cases "state (chan w) = INACTIVE \<or> data = []")
  case True
  then show ?thesis using assms by (auto simp: doWrite_def split: if_splits)
next
  case False
  obtain r k where sw: "sys_write S (kern w) (fd (chan w)) data = (r, k)" by force
  have app: "appendBuffer S bs (w\<lparr>kern := k\<rparr>) = Inr v \<Longrightarrow> held_ok d v" for bs v
    using held_appendBuffer[OF held_kern[OF assms(1)]] False by simp
  have "held_ok d (queueCallback cb (w\<lparr>kern := k\<rparr>))"
    using held_addTask[OF held_kern[OF assms(1)]] held_kern[OF assms(1)] False
    by (auto simp: queueCallback_def split: option.split)
  then show ?thesis
    using run False sw app held_appendBuffer[OF assms(1)]
    by (auto simp: doWrite_def doWriteDirectly_def ebind_eq_Inr Let_def intro!: held_chan(2) split: sum.splits if_splits)
qed

lemma held_shutdown_how: "held_ok d w \<Longrightarrow> held_ok d (sc_shutdown_how S how w)"
  by (cases how) (auto simp: sc_shutdown_how_def Let_def held_ok_def isNoneEvent_def)

lemma held_shutdown: "orderly app \<Longrightarrow> held_ok d w \<Longrightarrow> state (chan w) \<noteq> INACTIVE \<Longrightarrow> held_ok d (sc_shutdown S app w)"
  by (simp add: sc_shutdown_def held_channelInActive held_shutdown_how)

lemma held_half_close:
  assumes "held_ok d w" and "state (chan w) \<noteq> INACTIVE"
  shows "held_ok d (sc_shutdownRead S w)" "held_ok d (sc_shutdownWrite S w)"
  using held_shutdown_how[OF assms(1)] assms(2)
  by (auto simp: sc_shutdownRead_def sc_shutdownWrite_def Let_def held_ok_def isNoneEvent_def)

lemma held_read:
  assumes app: "orderly app" and ok: "held_ok d w" and run: "sc_handleReadEvent S app w = Inr w'"
  shows "held_ok d w'"
proof (cases "state (chan w) = INACTIVE")
  case False
  from run False obtain b0 r b k where r: "doRead S (fd (chan w)) b0 (kern w) = Inr (r, b, k)" "bb_new kRecvBufferSize = Inr b0"
    by (auto simp: sc_handleReadEvent_def ebind_eq_Inr)
  have w: "held_ok d (w\<lparr>kern := k\<rparr>)" "state (chan (w\<lparr>kern := k\<rparr>)) \<noteq> INACTIVE" using held_kern[OF ok] False by simp_all
  define v where "v = sc_shutdownRead S (w\<lparr>kern := k\<rparr>)"
  have "held_ok d v" "state (chan v) \<noteq> INACTIVE"
    using held_half_close(1)[OF w] by (simp_all add: v_def sc_shutdownRead_def Let_def)
  then have "held_ok d (sc_modify S (v\<lparr>chan := setEvents kWriteEvent (chan v)\<rparr>))"
    by (intro held_modify event_masks) (simp_all add: setEvents_def)
  then show ?thesis
    using run False r held_channelInActive[OF app w] held_shutdown[OF app w] held_fire[OF app w(1)] w(1)
    by (auto simp: sc_handleReadEvent_def handleReadError_def v_def Let_def split: sum.splits if_splits)
qed (use assms in \<open>simp add: sc_handleReadEvent_def\<close>)

lemma held_flushCallbacks:
  "held_ok d w \<Longrightarrow> state (chan w) \<noteq> INACTIVE \<Longrightarrow>
   held_ok d (flushCallbacks cbs w) \<and> state (chan (flushCallbacks cbs w)) = state (chan w)"
proof (induction cbs arbitrary: w)
  case (Cons cb cbs)
  have "held_ok d (queueCallback cb w)" "state (chan (queueCallback cb w)) = state (chan w)"
    using held_addTask[OF Cons.prems] Cons.prems(1) by (auto simp: queueCallback_def addTask_def split: option.split)
  then show ?case using Cons.IH[of "queueCallback cb w"] Cons.prems(2) by simp
qed (simp add: held_ok_def isNoneEvent_def)

lemma held_write:
  assumes app: "orderly app" and ok: "held_ok d w" and run: "sc_handleWriteEvent S app w = Inr w'"
  shows "held_ok d w'"
proof (cases "state (chan w) = INACTIVE")
  case False
  from run False obtain bss where bss: "read_blocks (writeBuffer (chan w)) = Inr bss"
    by (auto simp: sc_handleWriteEvent_def ebind_eq_Inr)
  obtain r k where wv: "writev S (fd (chan w)) bss (length (writeBuffer (chan w))) (kern w) = (r, k)" by force
  have w: "held_ok d (w\<lparr>kern := k\<rparr>)" "state (chan (w\<lparr>kern := k\<rparr>)) \<noteq> INACTIVE" using held_kern[OF ok] False by simp_all
  define u where "u = w\<lparr>kern := k, chan := (chan w)\<lparr>writeBuffer := []\<rparr>\<rparr>"
  define v where "v = flushCallbacks (writeCompleteCallbacks (chan w)) u"
  have "held_ok d u" "state (chan u) \<noteq> INACTIVE" using held_chan(1)[OF w(1), of "[]"] w(2) by (simp_all add: u_def)
  from held_flushCallbacks[OF this] have v: "held_ok d v" "state (chan v) \<noteq> INACTIVE" using False by (simp_all add: v_def u_def)
  have "held_ok d (sc_modify S (v\<lparr>chan := setEvents kReadEvent (chan v)\<rparr>))"
    using v by (intro held_modify event_masks) (simp_all add: setEvents_def)
  then show ?thesis
    using run False bss wv held_channelInActive[OF app w] held_channelInActive[OF app v] held_chan(1)[OF w(1)] w(1)
    by (auto simp: sc_handleWriteEvent_def handleWriteError_def u_def v_def Let_def split: sum.splits if_splits)
qed (use assms in \<open>simp add: sc_handleWriteEvent_def\<close>)

lemma held_event:
  assumes app: "orderly app" and "held_ok d w" and run: "sc_handleEvent S app w = Inr w'"
  shows "held_ok d w'"
proof -
  have e: "held_ok d v \<Longrightarrow> held_ok d (sc_handleErrorEvent app v)" for v
    using held_channelInActive[OF app] by (simp add: sc_handleErrorEvent_def)
  from run[unfolded sc_handleEvent_def handleEvent_def ebind_eq_Inr] obtain w1 w2 where
    w1: "w1 = sc_handleErrorEvent app w \<or> w1 = w"
    and w2: "sc_handleReadEvent S app w1 = Inr w2 \<or> w2 = w1"
    and w': "sc_handleWriteEvent S app w2 = Inr w' \<or> w' = w2"
    by (metis Inr_inject)
  have "held_ok d w1" using w1 e[OF assms(2)] assms(2) by blast
  then have "held_ok d w2" using w2 held_read[OF app] by blast
  then show ?thesis using w' held_write[OF app] by blast
qed

section \<open>The loop and the last pointer\<close>

text \<open>
  Once more the task list, split while \<^verbatim>\<open>runPendingTasks\<close> runs: the closures of the batch that were
  called and those that were not are all kept until the end of the function. The channel is destroyed
  when neither the table nor a closure of a deregistration points to it; the closures of writes and of
  write callbacks have only its raw address. \<open>lfFault\<close> is a call on a destroyed channel.
\<close>

record 'k life =
  lfWorld :: "'k sc_world"
  lfRunning :: bool
  lfDone :: "sc_task list"
  lfRest :: "sc_task list"
  lfAlive :: bool
  lfFault :: bool

definition sc_destroy :: "'k net \<Rightarrow> 'k sc_world \<Rightarrow> 'k sc_world" where
  "sc_destroy N w = w\<lparr>kern := closeFd N (fd (chan w)) (kern w)\<rparr>"

definition pointers :: "'k life \<Rightarrow> nat" where
  "pointers l = (if inChannels (lfWorld l) then 1 else 0) +
     count_list (lfDone l @ lfRest l @ tasks (lfWorld l)) DeregisterTask"

definition release :: "'k net \<Rightarrow> 'k life \<Rightarrow> 'k life" where
  "release N l =
     (if lfAlive l \<and> pointers l = 0 then l\<lparr>lfWorld := sc_destroy N (lfWorld l), lfAlive := False\<rparr> else l)"

definition life_start :: "'k sc_world \<Rightarrow> 'k life" where
  "life_start w = \<lparr>lfWorld = w, lfRunning = False, lfDone = [], lfRest = [], lfAlive = True, lfFault = False\<rparr>"

text \<open>\<^verbatim>\<open>runPendingTasks\<close>: the swap, the calls, and the end of the function with its local list.\<close>

inductive batch_step :: "'k net \<Rightarrow> 'k sys \<Rightarrow> 'k app \<Rightarrow> 'k life \<Rightarrow> 'k life \<Rightarrow> bool" for N S app where
  batch_swap: "\<not> lfRunning l \<Longrightarrow> w = lfWorld l \<Longrightarrow>
    batch_step N S app l (release N (l\<lparr>lfRunning := True, lfRest := tasks w, lfWorld := w\<lparr>tasks := []\<rparr>\<rparr>))"
| batch_task: "lfRest l = t # ts \<Longrightarrow> lfAlive l \<Longrightarrow> sc_runTask S app t (lfWorld l) = Inr w' \<Longrightarrow>
    batch_step N S app l (release N (l\<lparr>lfWorld := w', lfDone := lfDone l @ [t], lfRest := ts\<rparr>))"
| batch_fault: "lfRest l = t # ts \<Longrightarrow> \<not> lfAlive l \<Longrightarrow> batch_step N S app l (l\<lparr>lfFault := True\<rparr>)"
| batch_end: "lfRunning l \<Longrightarrow> lfRest l = [] \<Longrightarrow>
    batch_step N S app l (release N (l\<lparr>lfRunning := False, lfDone := []\<rparr>))"

text \<open>
  Beside that, the loop handles events of a registered channel, its thread calls the channel's
  functions, and other threads write: with \<open>late\<close> at any time, else only until the channel is inactive.
\<close>

fun in_time :: "bool \<Rightarrow> 'k sc_world \<Rightarrow> sc_call \<Rightarrow> bool" where
  "in_time late w (WriteCall inLoop data cb) = (inLoop \<or> late \<or> state (chan w) \<noteq> INACTIVE)"
| "in_time late w Ready = False"
| "in_time late w (RunTask t) = False"
| "in_time late w _ = True"

inductive life_step :: "'k net \<Rightarrow> 'k sys \<Rightarrow> 'k app \<Rightarrow> bool \<Rightarrow> 'k life \<Rightarrow> 'k life \<Rightarrow> bool" for N S app late where
  life_batch: "batch_step N S app l l' \<Longrightarrow> life_step N S app late l l'"
| life_event: "lfAlive l \<Longrightarrow> \<not> lfRunning l \<Longrightarrow> w = lfWorld l \<Longrightarrow> isRegistered (chan w) \<Longrightarrow>
    sc_handleEvent S app (w\<lparr>chan := prepareReady revents (chan w)\<rparr>) = Inr w' \<Longrightarrow>
    life_step N S app late l (release N (l\<lparr>lfWorld := w'\<rparr>))"
| life_call: "lfAlive l \<Longrightarrow> w = lfWorld l \<Longrightarrow> in_time late w x \<Longrightarrow> call_lawful w x \<Longrightarrow>
    sc_call_step S app x w = Inr w' \<Longrightarrow> life_step N S app late l (release N (l\<lparr>lfWorld := w'\<rparr>))"

section \<open>The invariant of a life\<close>

fun where_due :: "sc_task list \<Rightarrow> due" where
  "where_due [] = NotDue"
| "where_due (t # ts) = (if last_is DeregisterTask (t # ts) then InBatch else NotYet)"

definition life_pre :: "'k life \<Rightarrow> bool" where
  "life_pre l \<longleftrightarrow> \<not> lfFault l \<and> (\<not> lfRunning l \<longrightarrow> lfDone l = [] \<and> lfRest l = []) \<and>
     held_ok (where_due (lfRest l)) (lfWorld l) \<and>
     (last_is DeregisterTask (lfRest l) \<or> DeregisterTask \<notin> set (lfRest l)) \<and>
     (inChannels (lfWorld l) \<longrightarrow> DeregisterTask \<notin> set (lfDone l)) \<and> count_list (lfDone l) DeregisterTask \<le> 1"

definition life_ok :: "'k life \<Rightarrow> bool" where
  "life_ok l \<longleftrightarrow> life_pre l \<and> lfAlive l = (0 < pointers l)"

lemma held_destroy [simp]: "held_ok d (sc_destroy N w) = held_ok d w" "inChannels (sc_destroy N w) = inChannels w"
  "tasks (sc_destroy N w) = tasks w" "chan (sc_destroy N w) = chan w"
  by (auto simp: sc_destroy_def held_ok_def)

lemma release_life:
  assumes "life_pre l" and "\<not> lfAlive l \<longrightarrow> pointers l = 0"
  shows "life_ok (release N l)"
  using assms by (auto simp: release_def life_ok_def life_pre_def pointers_def)

lemma held_later: "held_ok NotYet w \<Longrightarrow> held_ok NotDue w"
  by (auto simp: held_ok_def)

text \<open>The task of a deregistration, and every other.\<close>

lemma held_deregister:
  assumes "held_ok InBatch w"
  shows "held_ok NotDue (sc_deregister S w)" "\<not> inChannels (sc_deregister S w)"
  using assms deregister_frame[where S = S and w = w]
  by (auto simp: sc_deregister_def poller_deregisterChannel_def held_ok_def isNoneEvent_def quiet_def Let_def
      split: prod.split)

lemma held_task:
  assumes app: "orderly app" and "held_ok d w" and "t \<noteq> DeregisterTask" and "sc_runTask S app t w = Inr w'"
  shows "held_ok d w'"
  using assms held_fire[OF app] held_doWrite by (cases t) auto

lemma where_due_eq:
  "where_due ts = (if ts = [] then NotDue else if last_is DeregisterTask ts then InBatch else NotYet)"
  by (cases ts) simp_all

lemma last_is_tail: "last_is x (y # xs) \<Longrightarrow> y \<noteq> x \<Longrightarrow> last_is x xs"
  by (simp split: if_splits)

lemma life_okD: "life_ok l \<Longrightarrow> life_pre l" "life_ok l \<Longrightarrow> lfAlive l = (0 < pointers l)"
  by (simp_all add: life_ok_def)

lemma life_idle:
  "life_ok l \<Longrightarrow> \<not> lfRunning l \<Longrightarrow> lfDone l = [] \<and> lfRest l = [] \<and> held_ok NotDue (lfWorld l)"
  by (auto simp: life_ok_def life_pre_def)

lemma batch_step_ok:
  assumes app: "orderly app" and "batch_step N S app l l'" and ok: "life_ok l"
  shows "life_ok l'"
  using assms(2)
proof cases
  case (batch_swap w)
  let ?l = "l\<lparr>lfRunning := True, lfRest := tasks w, lfWorld := w\<lparr>tasks := []\<rparr>\<rparr>"
  have e: "lfDone l = []" "lfRest l = []" "held_ok NotDue w" using life_idle[OF ok] batch_swap by simp_all
  have d: "held_ok (where_due (tasks w)) (w\<lparr>tasks := []\<rparr>)"
    "last_is DeregisterTask (tasks w) \<or> DeregisterTask \<notin> set (tasks w)"
    using e(3) by (auto simp: held_ok_def where_due_eq isNoneEvent_def split: if_splits)
  have "life_pre ?l" using ok e d batch_swap by (simp add: life_ok_def life_pre_def)
  moreover have "pointers ?l = pointers l" using e batch_swap by (simp add: pointers_def)
  ultimately show ?thesis using batch_swap life_okD(2)[OF ok] release_life[of ?l N] by simp
next
  case (batch_task t ts w')
  let ?l = "l\<lparr>lfWorld := w', lfDone := lfDone l @ [t], lfRest := ts\<rparr>" and ?w = "lfWorld l"
  have pre: "life_pre l" "lfRunning l" using ok batch_task by (auto simp: life_ok_def life_pre_def)
  have h: "held_ok (where_due (t # ts)) ?w" and l: "last_is DeregisterTask (t # ts) \<or> DeregisterTask \<notin> set (t # ts)"
    using pre batch_task by (simp_all add: life_pre_def)
  show ?thesis
  proof (cases "t = DeregisterTask")
    case True
    then have ts: "ts = []" using l by (auto split: if_splits)
    have w': "w' = sc_deregister S ?w" using batch_task True by simp
    have "held_ok InBatch ?w" using h ts True by simp
    moreover have "inChannels ?w" using h by (auto simp: held_ok_def split: if_splits)
    ultimately have "life_pre ?l" using held_deregister[of ?w S] pre ts True by (simp add: life_pre_def w' count_list_0_iff)
    then show ?thesis using batch_task by (simp add: release_life)
  next
    case False
    have h': "held_ok (where_due (t # ts)) w'" by (rule held_task[OF app h False]) (use batch_task in simp)
    have "held_ok (where_due ts) w'"
      using h' l False held_later by (auto simp: where_due_eq split: if_splits)
    moreover have "inChannels ?w" using h by (auto simp: held_ok_def split: if_splits)
    ultimately have "life_pre ?l"
      using pre l False last_is_tail[of DeregisterTask t ts] by (auto simp: life_pre_def)
    then show ?thesis using batch_task by (simp add: release_life)
  qed
next
  case (batch_fault t ts)
  then have "held_ok (where_due (t # ts)) (lfWorld l)" using ok by (simp add: life_ok_def life_pre_def)
  then have "inChannels (lfWorld l)" by (auto simp: held_ok_def split: if_splits)
  then show ?thesis using batch_fault ok by (simp add: life_ok_def pointers_def)
next
  case batch_end
  let ?l = "l\<lparr>lfRunning := False, lfDone := []\<rparr>"
  have "life_pre ?l" using life_okD(1)[OF ok] batch_end by (simp add: life_pre_def)
  moreover have "\<not> lfAlive l \<longrightarrow> pointers ?l = 0" using life_okD(2)[OF ok] batch_end by (simp add: pointers_def)
  ultimately show ?thesis using batch_end release_life[of ?l N] by simp
qed

lemma late_call:
  assumes "in_time False w x" and "call_lawful w x" and "state (chan w) = INACTIVE" and "sc_call_step S app x w = Inr w'"
  shows "w' = w"
  using assms by (cases x) (auto simp: writeStringMessage_def doWrite_def)

lemma held_call:
  assumes app: "orderly app" and "held_ok d w" and "state (chan w) \<noteq> INACTIVE" and "in_time late w x"
    and "sc_call_step S app x w = Inr w'"
  shows "held_ok d w'"
  using assms held_shutdown[OF app] held_half_close held_doWrite
  by (cases x) (auto simp: writeStringMessage_def intro!: held_addTask split: if_splits)

lemma life_step_ok:
  assumes app: "orderly app" and "life_step N S app False l l'" and ok: "life_ok l"
  shows "life_ok l'"
  using assms(2)
proof cases
  case life_batch
  then show ?thesis using batch_step_ok[OF app _ ok] by blast
next
  case (life_event w revents w')
  let ?w = "w\<lparr>chan := prepareReady revents (chan w)\<rparr>"
  have e: "lfDone l = []" "lfRest l = []" "held_ok NotDue w" using life_idle[OF ok] life_event by simp_all
  have "held_ok NotDue ?w"
    by (rule held_ok_cong[OF e(3)]) (simp_all add: channel_more_fields[OF prepareReady_fields(4), of revents "chan w"])
  from held_event[OF app this life_event(6)] have "life_pre (l\<lparr>lfWorld := w'\<rparr>)"
    using life_okD(1)[OF ok] life_event e by (simp add: life_pre_def)
  then show ?thesis using life_event by (simp add: release_life)
next
  case (life_call w x w')
  show ?thesis
  proof (cases "state (chan w) = INACTIVE")
    case True
    then have "l' = release N l" using life_call late_call by fastforce
    then show ?thesis using life_okD[OF ok] by (simp add: release_life)
  next
    case False
    have h: "held_ok (where_due (lfRest l)) w" using life_okD(1)[OF ok] life_call by (simp add: life_pre_def)
    have "held_ok (where_due (lfRest l)) w'" by (rule held_call[OF app h False]) (use life_call in auto)
    moreover have "inChannels w" using h False by (simp add: held_ok_def)
    ultimately have "life_pre (l\<lparr>lfWorld := w'\<rparr>)" using life_okD(1)[OF ok] life_call by (simp add: life_pre_def)
    then show ?thesis using life_call by (simp add: release_life)
  qed
qed

text \<open>Activation starts a life.\<close>

lemma channelActive_held:
  assumes app: "orderly app" and "chan v = sc_new f" and "DeregisterTask \<notin> set (tasks v)" and "\<not> inChannels v"
    and "inChannels (channelActive S app v)"
  shows "held_ok NotDue (channelActive S app v)"
proof -
  define u where "u = v\<lparr>chan := addEvent kReadEvent (chan v)\<rparr>"
  obtain ok k where e: "epollCtl S EPOLL_CTL_ADD (chan u) (kern u) = (ok, k)" by force
  have c: "chan u = (sc_new f)\<lparr>events := kReadEvent\<rparr>" "tasks u = tasks v" "inChannels u = inChannels v"
    using assms(2) by (simp_all add: u_def addEvent_def sc_new_def kNoneEvent_def)
  have r: "sc_registerTo S u = (if ok then (True, u\<lparr>chan := setRegistered True (chan u), kern := k, inChannels := True\<rparr>)
      else (False, u\<lparr>kern := k\<rparr>))"
    using e c(1) by (simp add: sc_registerTo_def poller_registerChannel_def poller_add_def sc_new_def Let_def)
  show ?thesis
  proof (cases ok)
    case True
    define x where "x = u\<lparr>kern := k, inChannels := True, chan := (setRegistered True (chan u))\<lparr>state := ACTIVE\<rparr>\<rparr>"
    have "channelActive S app v = fire app EvConnect x" using r True by (simp add: channelActive_def u_def[symmetric] x_def)
    moreover have "held_ok NotDue x"
      using assms(3) c by (simp add: x_def held_ok_def isNoneEvent_def setRegistered_def kEvent_defs)
    ultimately show ?thesis using held_fire[OF app] by simp
  next
    case False
    then have "\<not> inChannels (channelActive S app v)"
      using r c assms(4) by (simp add: channelActive_def u_def[symmetric] sc_new_def)
    then show ?thesis using assms(5) by simp
  qed
qed

section \<open>The loop alone frees an inactive channel\<close>

lemma inactive_task:
  assumes app: "orderly app" and "state (chan w) = INACTIVE"
  obtains w' where "sc_runTask S app t w = Inr w'" "state (chan w') = INACTIVE"
proof (cases t)
  case (WriteCompleteTask cb)
  then show thesis using assms that[of "fire app (EvWriteComplete cb) w"]
    by (simp add: orderly_def keeps_def fire_def)
next
  case DeregisterTask
  then show thesis using assms(2) that[of "sc_deregister S w"] deregister_frame(1)[where S = S and w = w] by (simp add: quiet_def)
next
  case (DoWriteTask data cb)
  then show thesis using assms(2) that[of w] by (simp add: doWrite_def)
qed

lemma release_keeps:
  "lfRunning (release N l) = lfRunning l" "lfRest (release N l) = lfRest l" "chan (lfWorld (release N l)) = chan (lfWorld l)"
  "inChannels (lfWorld (release N l)) = inChannels (lfWorld l)" "0 < pointers l \<Longrightarrow> release N l = l"
  by (simp_all add: release_def)

lemma batch_runs:
  assumes app: "orderly app"
  shows "life_ok l \<Longrightarrow> lfRunning l \<Longrightarrow> state (chan (lfWorld l)) = INACTIVE \<Longrightarrow> lfAlive l \<Longrightarrow>
    \<exists>l'. (batch_step N S app)\<^sup>*\<^sup>* l l' \<and> life_ok l' \<and> lfRunning l' \<and> state (chan (lfWorld l')) = INACTIVE \<and> lfAlive l' \<and>
      lfRest l' = [] \<and> (DeregisterTask \<in> set (lfRest l) \<or> \<not> inChannels (lfWorld l) \<longrightarrow> \<not> inChannels (lfWorld l'))"
proof (induction "lfRest l" arbitrary: l)
  case (Cons t ts)
  obtain w' where w': "sc_runTask S app t (lfWorld l) = Inr w'" "state (chan w') = INACTIVE"
    using inactive_task[OF app Cons.prems(3)] by blast
  let ?l = "l\<lparr>lfWorld := w', lfDone := lfDone l @ [t], lfRest := ts\<rparr>"
  have step: "batch_step N S app l (release N ?l)" by (rule batch_task[OF Cons(2)[symmetric] Cons.prems(4) w'(1)])
  have ok: "life_ok (release N ?l)" by (rule batch_step_ok[OF app step Cons.prems(1)])
  have here: "inChannels (lfWorld l)"
    using life_okD(1)[OF Cons.prems(1)] by (auto simp: life_pre_def held_ok_def Cons(2)[symmetric] split: if_splits)
  have gone: "t = DeregisterTask \<Longrightarrow> \<not> inChannels w'"
    using w'(1) deregister_frame(1)[where S = S and w = "lfWorld l"] by (auto simp: quiet_def)
  have "t \<noteq> DeregisterTask \<Longrightarrow> inChannels w'"
    using held_task[OF app _ _ w'(1), of "where_due (t # ts)"] life_okD(1)[OF Cons.prems(1)] w'(2)
    by (auto simp: life_pre_def held_ok_def Cons(2)[symmetric] split: if_splits)
  then have live: "0 < pointers ?l" by (auto simp: pointers_def)
  have r: "release N ?l = ?l" by (rule release_keeps(5)[OF live])
  have "lfAlive ?l" using life_okD(2)[OF ok] live r by simp
  with Cons(1)[of ?l] ok r w'(2) Cons.prems(2) obtain l' where l': "(batch_step N S app)\<^sup>*\<^sup>* ?l l'" "life_ok l'" "lfRunning l'"
    "state (chan (lfWorld l')) = INACTIVE" "lfAlive l'" "lfRest l' = []"
    "DeregisterTask \<in> set ts \<or> \<not> inChannels w' \<longrightarrow> \<not> inChannels (lfWorld l')" by auto
  have "(batch_step N S app)\<^sup>*\<^sup>* l l'" using step r l'(1) by (simp add: converse_rtranclp_into_rtranclp)
  moreover have "DeregisterTask \<in> set (lfRest l) \<or> \<not> inChannels (lfWorld l) \<longrightarrow> \<not> inChannels (lfWorld l')"
    using l'(7) gone here by (auto simp: Cons(2)[symmetric])
  ultimately show ?case using l' by blast
qed auto

text \<open>The end of a batch destroys a channel that has left the table.\<close>

lemma batch_end_frees:
  assumes "life_ok l" and "lfRunning l" "lfRest l = []" "lfAlive l" "\<not> inChannels (lfWorld l)" "state (chan (lfWorld l)) = INACTIVE"
  shows "\<exists>l'. batch_step N S app l l' \<and> \<not> lfAlive l' \<and> lfWorld l' = sc_destroy N (lfWorld l)"
proof -
  let ?l = "l\<lparr>lfRunning := False, lfDone := []\<rparr>"
  have "tasks (lfWorld l) = []" using life_okD(1)[OF assms(1)] assms(3,5,6) by (simp add: life_pre_def held_ok_def)
  then have "release N ?l = ?l\<lparr>lfWorld := sc_destroy N (lfWorld l), lfAlive := False\<rparr>"
    using assms(3-5) by (simp add: release_def pointers_def)
  then show ?thesis using batch_end[OF assms(2,3), of N S app] by auto
qed

lemma inactive_freed:
  assumes app: "orderly app" and ok: "life_ok l" and st: "state (chan (lfWorld l)) = INACTIVE" and al: "lfAlive l"
  shows "\<exists>l1 l2. (batch_step N S app)\<^sup>*\<^sup>* l l1 \<and> batch_step N S app l1 l2 \<and> lfAlive l1 \<and> \<not> lfAlive l2 \<and>
    lfWorld l2 = sc_destroy N (lfWorld l1)"
proof -
  have idle: ?thesis
    if "(batch_step N S app)\<^sup>*\<^sup>* l m" "life_ok m" "\<not> lfRunning m" "lfAlive m" "state (chan (lfWorld m)) = INACTIVE" for m
  proof -
    have h: "lfDone m = []" "lfRest m = []" "held_ok NotDue (lfWorld m)" using life_idle[OF that(2,3)] by simp_all
    have here: "inChannels (lfWorld m)"
      using h life_okD(2)[OF that(2)] that(4,5) by (cases "inChannels (lfWorld m)") (auto simp: pointers_def held_ok_def)
    have due: "DeregisterTask \<in> set (tasks (lfWorld m))" using here h(3) that(5) by (simp add: held_ok_def)
    let ?m = "m\<lparr>lfRunning := True, lfRest := tasks (lfWorld m), lfWorld := (lfWorld m)\<lparr>tasks := []\<rparr>\<rparr>"
    have r: "release N ?m = ?m" using here by (intro release_keeps(5)) (simp add: pointers_def)
    have step: "batch_step N S app m ?m" using batch_swap[OF that(3) refl, of N S app] r by simp
    have "life_ok ?m" by (rule batch_step_ok[OF app step that(2)])
    from batch_runs[OF app this] that(4,5) due obtain n where n: "(batch_step N S app)\<^sup>*\<^sup>* ?m n" "life_ok n" "lfRunning n"
      "state (chan (lfWorld n)) = INACTIVE" "lfAlive n" "lfRest n = []" "\<not> inChannels (lfWorld n)" by auto
    from batch_end_frees[OF n(2,3,6,5,7,4)] obtain n' where n': "batch_step N S app n n'" "\<not> lfAlive n'"
      "lfWorld n' = sc_destroy N (lfWorld n)" by blast
    have "(batch_step N S app)\<^sup>*\<^sup>* l n" using that(1) step n(1) by (meson rtranclp.rtrancl_into_rtrancl rtranclp_trans)
    then show ?thesis using n' n(5) by blast
  qed
  show ?thesis
  proof (cases "lfRunning l")
    case True
    from batch_runs[OF app ok True st al] obtain m where m: "(batch_step N S app)\<^sup>*\<^sup>* l m" "life_ok m" "lfRunning m"
      "state (chan (lfWorld m)) = INACTIVE" "lfAlive m" "lfRest m = []" by blast
    show ?thesis
    proof (cases "inChannels (lfWorld m)")
      case True
      let ?n = "m\<lparr>lfRunning := False, lfDone := []\<rparr>"
      have "release N ?n = ?n" using True by (intro release_keeps(5)) (simp add: pointers_def)
      then have step: "batch_step N S app m ?n" using batch_end[OF m(3,6), of N S app] by simp
      show ?thesis
        by (rule idle[OF rtranclp.rtrancl_into_rtrancl[OF m(1) step] batch_step_ok[OF app step m(2)]]) (use m in simp_all)
    next
      case False
      from batch_end_frees[OF m(2,3,6,5) False m(4)] show ?thesis using m(1,5) by blast
    qed
  next
    case False
    show ?thesis by (rule idle[OF rtranclp.rtrancl_refl ok False al st])
  qed
qed

section \<open>From activation to destruction\<close>

definition activated :: "'k sys \<Rightarrow> 'k app \<Rightarrow> 'k sc_world \<Rightarrow> 'k sc_world \<Rightarrow> bool" where
  "activated S app v w \<longleftrightarrow> chan v = sc_new (fd (chan v)) \<and> DeregisterTask \<notin> set (tasks v) \<and> \<not> inChannels v \<and>
     w = channelActive S app v \<and> inChannels w"

lemma activated_start: "orderly app \<Longrightarrow> activated S app v w \<Longrightarrow> life_ok (life_start w)"
  using channelActive_held[of app v "fd (chan v)" S]
  by (auto simp: activated_def life_ok_def life_pre_def life_start_def pointers_def)

lemma life_steps_ok:
  assumes "orderly app" and "activated S app v w" and "(life_step N S app False)\<^sup>*\<^sup>* (life_start w) l"
  shows "life_ok l"
  using assms(3) by (induction rule: rtranclp_induct) (auto intro: activated_start[OF assms(1,2)] life_step_ok[OF assms(1)])

text \<open>What the handlers of a connection do, they may do.\<close>

lemma held_ctx_writes: "held_ok d w \<Longrightarrow> ctx_writes S ms w = Inr w' \<Longrightarrow> held_ok d w'"
proof (induction ms arbitrary: w)
  case (Cons m ms)
  obtain data cb where m: "m = (data, cb)" by force
  with Cons.prems obtain u where "doWrite S (\<lambda>e w. w) data cb w = Inr u" "ctx_writes S ms u = Inr w'"
    by (auto simp: ebind_eq_Inr ctx_write_string_def writeStringMessage_def)
  with Cons.IH[of u] held_doWrite[OF Cons.prems(1)] show ?case by blast
qed simp

lemma inactive_ctx_writes: "state (chan w) = INACTIVE \<Longrightarrow> ctx_writes S ms w = Inr w' \<Longrightarrow> w' = w"
proof (induction ms)
  case (Cons m ms)
  then show ?case by (cases m) (auto simp: ctx_write_string_def writeStringMessage_def doWrite_def)
qed simp

lemma answering_orderly: "orderly (answering S reply)"
  using held_ctx_writes inactive_ctx_writes
  by (fastforce simp: orderly_def keeps_def answering_def split: sc_event.split sum.split)

section \<open>In epoll as long as in the table\<close>

text \<open>A closed descriptor does not come back into the interest set.\<close>

definition close_unlists :: "'k net \<Rightarrow> ('k \<Rightarrow> FdType \<rightharpoonup> 32 word) \<Rightarrow> bool" where
  "close_unlists N I \<longleftrightarrow> (\<forall>f k. I k f = None \<longrightarrow> I (net_close N f k) f = None)"

lemma listed_release:
  assumes "close_unlists N I" and "life_ok (release N l)" and "listed I (lfWorld l)"
  shows "listed I (lfWorld (release N l))"
proof (cases "lfAlive l \<and> pointers l = 0")
  case True
  then have "\<not> inChannels (lfWorld l)" by (auto simp: pointers_def)
  then have "\<not> isRegistered (chan (lfWorld l))"
    using life_okD(1)[OF assms(2)] True by (simp add: release_def life_pre_def held_ok_def)
  then show ?thesis using assms(1,3) True by (simp add: release_def sc_destroy_def listed_def close_unlists_def closeFd_def)
qed (use assms(3) in \<open>auto simp: release_def\<close>)

lemma listed_task:
  "epoll_spec S I \<Longrightarrow> interest_kept S I \<Longrightarrow> keeps (listed I) app \<Longrightarrow> listed I w \<Longrightarrow>
   sc_runTask S app t w = Inr w' \<Longrightarrow> listed I w'"
  using listed_call[of S I app w "RunTask t" w'] by simp

lemma listed_step:
  assumes spec: "epoll_spec S I" "interest_kept S I" "close_unlists N I" and app: "orderly app" "keeps (listed I) app"
    and step: "life_step N S app False l l'" and ok: "life_ok l" "listed I (lfWorld l)"
  shows "listed I (lfWorld l')"
proof -
  note release = listed_release[OF spec(3)]
  have ok': "life_ok l'" by (rule life_step_ok[OF app(1) step ok(1)])
  from step show ?thesis
  proof cases
    case life_batch
    then show ?thesis
    proof cases
      case (batch_swap w)
      then show ?thesis using release ok' ok(2) by (simp add: listed_def)
    next
      case (batch_task t ts w')
      then show ?thesis using release ok' listed_task[OF spec(1,2) app(2) ok(2) batch_task(4)] by simp
    qed (use release ok' ok(2) in simp_all)
  next
    case (life_event w revents w')
    have "listed I (w\<lparr>chan := prepareReady revents (chan w)\<rparr>)" using ok(2) life_event by (simp add: listed_def)
    from listed_event[OF spec(1,2) app(2) this life_event(6)] show ?thesis using release ok' life_event by simp
  next
    case (life_call w x w')
    from listed_call[OF spec(1,2) app(2) _ life_call(6)] show ?thesis using release ok' ok(2) life_call by simp
  qed
qed

lemma life_steps_listed:
  assumes spec: "epoll_spec S I" "interest_kept S I" "close_unlists N I" and app: "orderly app" "keeps (listed I) app"
    and act: "activated S app v w" "\<not> isRegistered (chan v)" and run: "(life_step N S app False)\<^sup>*\<^sup>* (life_start w) l"
  shows "listed I (lfWorld l)"
  using run
proof (induction rule: rtranclp_induct)
  case base
  have "\<not> inChannels v" "inChannels (channelActive S app v)" "w = channelActive S app v"
    using act(1) unfolding activated_def by blast+
  with channelActive_listed[OF spec(1) app(2) act(2)] show ?case by (simp add: life_start_def)
next
  case (step l m)
  then show ?case using listed_step[OF spec app] life_steps_ok[OF app(1) act(1)] by blast
qed

lemma activated_new: "activated S app v w \<Longrightarrow> \<not> isRegistered (chan v)"
  unfolding activated_def sc_new_def by (metis channel.select_convs(4))

lemma answering_listed:
  assumes spec: "epoll_spec S I" "interest_kept S I"
  shows "keeps (listed I) (answering S reply)"
proof -
  have "listed I w'" if "ctx_writes S ms w = Inr w'" "listed I w" for ms w w'
    using that
  proof (induction ms arbitrary: w)
    case (Cons m ms)
    obtain data cb where m: "m = (data, cb)" by force
    with Cons.prems obtain u where "doWrite S (\<lambda>e w. w) data cb w = Inr u" "ctx_writes S ms u = Inr w'"
      by (auto simp: ebind_eq_Inr ctx_write_string_def writeStringMessage_def)
    with Cons.IH[of u] listed_doWrite[OF spec Cons.prems(2)] show ?case by blast
  qed simp
  then show ?thesis by (fastforce simp: keeps_def answering_def split: sc_event.split sum.split)
qed

text \<open>The invariant, read at a channel that is inactive and at one that is destroyed.\<close>

lemma count_none: "x \<notin> set xs \<Longrightarrow> count_list xs x = 0"
  by (simp add: count_list_0_iff)

lemma inactive_due:
  assumes ok: "life_ok l" and "state (chan (lfWorld l)) = INACTIVE" and "lfAlive l"
  shows "count_list (lfDone l @ lfRest l @ tasks (lfWorld l)) DeregisterTask = 1"
proof -
  let ?w = "lfWorld l"
  have h: "due_ok (where_due (lfRest l)) (inChannels ?w) (tasks ?w)"
    "last_is DeregisterTask (lfRest l) \<or> DeregisterTask \<notin> set (lfRest l)"
    "inChannels ?w \<longrightarrow> DeregisterTask \<notin> set (lfDone l)" "count_list (lfDone l) DeregisterTask \<le> 1" "0 < pointers l"
    using life_okD[OF ok] assms(2,3) by (simp_all add: life_pre_def held_ok_def)
  show ?thesis
  proof (cases "inChannels ?w")
    case True
    then show ?thesis using h(1-3) last_is_count[of DeregisterTask] count_none[of DeregisterTask]
      by (auto simp: where_due_eq split: if_splits)
  next
    case False
    then show ?thesis using h(1,4,5) by (auto simp: where_due_eq pointers_def split: if_splits)
  qed
qed

lemma destroyed_gone:
  assumes ok: "life_ok l" and "\<not> lfAlive l"
  shows "\<not> inChannels (lfWorld l) \<and> \<not> isRegistered (chan (lfWorld l)) \<and> lfRest l @ tasks (lfWorld l) = []"
proof -
  have "\<not> inChannels (lfWorld l)" using life_okD(2)[OF ok] assms(2) by (auto simp: pointers_def)
  then show ?thesis using life_okD(1)[OF ok] by (auto simp: life_pre_def held_ok_def where_due_eq split: if_splits)
qed

text \<open>
  C8. The life of a connection that was registered, whatever its handlers write, whenever events come,
  the loop's thread shuts it down and other threads write to it while it is open, on a kernel whose
  interest set is that of \<^verbatim>\<open>epoll_ctl(2)\<close>: no task ever runs on a destroyed channel; at every moment its
  descriptor is in the kernel's interest set exactly when the channel is in the loop's table, and
  the flag \<^verbatim>\<open>isRegistered_\<close> says so; as long as the channel is connected it is in both and not destroyed;
  once it is inactive exactly one deregistration is queued or done until it is destroyed; and
  a destroyed channel is in neither, with no task left.
\<close>

theorem channel_life:
  assumes "epoll_spec S I" and "interest_kept S I" and "close_unlists N I" and "orderly app" and "keeps (listed I) app"
    and "activated S app v w0" and "(life_step N S app False)\<^sup>*\<^sup>* (life_start w0) l" and "w = lfWorld l"
  shows "\<not> lfFault l \<and> (I (kern w) (fd (chan w)) \<noteq> None) = inChannels w \<and> isRegistered (chan w) = inChannels w \<and>
    (state (chan w) \<noteq> INACTIVE \<longrightarrow> lfAlive l \<and> inChannels w) \<and>
    (state (chan w) = INACTIVE \<and> lfAlive l \<longrightarrow> count_list (lfDone l @ lfRest l @ tasks w) DeregisterTask = 1) \<and>
    (\<not> lfAlive l \<longrightarrow> \<not> inChannels w \<and> lfRest l @ tasks w = [])"
proof -
  have ok: "life_ok l" by (rule life_steps_ok[OF assms(4,6,7)])
  have "listed I w" unfolding assms(8) by (rule life_steps_listed[OF assms(1-6) activated_new[OF assms(6)] assms(7)])
  moreover have "isRegistered (chan w) = inChannels w" "state (chan w) \<noteq> INACTIVE \<Longrightarrow> lfAlive l \<and> inChannels w"
    using life_okD[OF ok] assms(8) by (auto simp: life_pre_def held_ok_def pointers_def)
  ultimately show ?thesis
    using life_okD(1)[OF ok] inactive_due[OF ok] destroyed_gone[OF ok] unfolding assms(8) by (auto simp: life_pre_def listed_def)
qed

text \<open>
  C9. An inactive channel is freed: from any such state of its life the loop on its own, whatever else
  is in its task list, comes to the end of a batch where the channel is destroyed, and that closes
  its descriptor.
\<close>

theorem channel_freed:
  assumes "orderly app" and "activated S app v w0" and "(life_step N S app False)\<^sup>*\<^sup>* (life_start w0) l"
    and "state (chan (lfWorld l)) = INACTIVE" and "lfAlive l"
  shows "\<exists>l1 l2. (batch_step N S app)\<^sup>*\<^sup>* l l1 \<and> batch_step N S app l1 l2 \<and> lfAlive l1 \<and> \<not> lfAlive l2 \<and>
    kern (lfWorld l2) = closeFd N (fd (chan (lfWorld l2))) (kern (lfWorld l1))"
proof -
  obtain l1 l2 where l: "(batch_step N S app)\<^sup>*\<^sup>* l l1" "batch_step N S app l1 l2" "lfAlive l1" "\<not> lfAlive l2"
    "lfWorld l2 = sc_destroy N (lfWorld l1)"
    using inactive_freed[where N = N and S = S, OF assms(1) life_steps_ok[OF assms(1-3)] assms(4,5)] by blast
  have "kern (lfWorld l2) = closeFd N (fd (chan (lfWorld l2))) (kern (lfWorld l1))" using l(5) by (simp add: sc_destroy_def)
  then show ?thesis using l(1-4) by blast
qed

section \<open>One life\<close>

text \<open>Descriptor 5, accepted and registered, with an echo for handlers; then the loop's thread shuts it down. The
  kernel answers \<^verbatim>\<open>epoll_ctl\<close> as documented: an entry is added once, and changed or taken out only if it is there.\<close>

definition life_sys :: "demo_kernel sys" where
  "life_sys = demo_sys\<lparr>sys_epoll_ctl := (\<lambda>k op f ev.
     if (demoEpoll k f = None) = (op = EPOLL_CTL_ADD) then sys_epoll_ctl demo_sys k op f ev else (False, k))\<rparr>"

lemma life_sys_spec:
  "epoll_spec life_sys demoEpoll" "interest_kept life_sys demoEpoll" "close_unlists demo_net demoEpoll"
  by (auto simp: epoll_spec_def interest_kept_def close_unlists_def life_sys_def demo_sys_def demo_net_def
      split: epoll_op.splits if_splits)

definition demo_accepted_end :: "demo_kernel sc_world" where
  "demo_accepted_end = \<lparr>chan = sc_new 5,
     kern = \<lparr>openFds = [5], nextFd = 6, accepts = [], connects = [], sockErrors = [], demoEpoll = (\<lambda>f. None)\<rparr>,
     inChannels = False, tasks = [], fired = []\<rparr>"

abbreviation echo :: "demo_kernel app" where
  "echo \<equiv> answering life_sys (\<lambda>bs. [(bs, None)])"

definition demo_life :: "ChannelState \<Rightarrow> bool \<Rightarrow> sc_task list \<Rightarrow> sc_event list \<Rightarrow> demo_kernel sc_world" where
  "demo_life st here ts es = \<lparr>chan = (sc_new 5)\<lparr>events := kReadEvent, isRegistered := here, state := st\<rparr>,
     kern = \<lparr>openFds = [5], nextFd = 6, accepts = [], connects = [], sockErrors = [],
       demoEpoll = (if here then [5 \<mapsto> EPOLLIN] else (\<lambda>f. None))\<rparr>,
     inChannels = here, tasks = ts, fired = es\<rparr>"

lemma demo_activated: "activated life_sys echo demo_accepted_end (demo_life ACTIVE True [] [EvConnect])"
  by (simp add: activated_def demo_accepted_end_def demo_life_def channelActive_def sc_registerTo_def poller_registerChannel_def
      poller_add_def epollCtl_def epoll_mask_def addEvent_def setRegistered_def sc_new_def life_sys_def demo_sys_def fire_def kEvent_defs
      EPOLLIN_def Let_def)

abbreviation off :: "sc_event list" where
  "off \<equiv> [EvConnect, EvDisconnect]"

lemma demo_shutdown:
  "sc_shutdown life_sys echo (demo_life ACTIVE True ts [EvConnect]) = demo_life INACTIVE True (ts @ [DeregisterTask]) off"
  by (simp add: sc_shutdown_def sc_shutdown_how_def channelInActive_def fire_def addTask_def demo_life_def life_sys_def demo_sys_def sc_new_def Let_def)

lemma demo_deregister: "sc_deregister life_sys (demo_life INACTIVE True ts off) = demo_life INACTIVE False ts off"
  by (simp add: sc_deregister_def poller_deregisterChannel_def epollCtl_def setRegistered_def demo_life_def life_sys_def demo_sys_def sc_new_def
      fun_eq_iff Let_def)

abbreviation demo_run :: "bool \<Rightarrow> demo_kernel life \<Rightarrow> demo_kernel life \<Rightarrow> bool" where
  "demo_run late \<equiv> (life_step demo_net life_sys echo late)\<^sup>*\<^sup>*"

lemma demo_to_inactive:
  "demo_run late (life_start (demo_life ACTIVE True [] [EvConnect]))
     (life_start (demo_life INACTIVE True [DoWriteTask [1] None, DeregisterTask] off))"
proof -
  let ?s = "\<lambda>w. life_start w :: demo_kernel life" and ?t = "[DoWriteTask [1] None]"
  have alive: "release demo_net (?s (demo_life st True ts es)) = ?s (demo_life st True ts es)" for st ts es
    by (simp add: release_def pointers_def life_start_def demo_life_def)
  have "life_step demo_net life_sys echo late (?s (demo_life ACTIVE True [] [EvConnect]))
      (release demo_net (?s (demo_life ACTIVE True ?t [EvConnect])))"
    using life_call[where l = "?s (demo_life ACTIVE True [] [EvConnect])" and x = "WriteCall False [1] None"
        and N = demo_net and S = life_sys and app = echo and late = late]
    by (simp add: life_start_def demo_life_def writeStringMessage_def addTask_def)
  moreover have "life_step demo_net life_sys echo late (?s (demo_life ACTIVE True ?t [EvConnect]))
      (release demo_net (?s (demo_life INACTIVE True (?t @ [DeregisterTask]) off)))"
    using life_call[where l = "?s (demo_life ACTIVE True ?t [EvConnect])" and x = Shutdown
        and N = demo_net and S = life_sys and app = echo and late = late]
    by (simp add: demo_shutdown life_start_def) (simp add: demo_life_def)
  ultimately show ?thesis unfolding alive by (simp add: rtranclp.rtrancl_into_rtrancl)
qed

text \<open>The steps of a batch on these states.\<close>

abbreviation demo_batch :: "bool \<Rightarrow> sc_task list \<Rightarrow> sc_task list \<Rightarrow> sc_task list \<Rightarrow> demo_kernel life" where
  "demo_batch here ts dn rest \<equiv> \<lparr>lfWorld = demo_life INACTIVE here ts off, lfRunning = True, lfDone = dn, lfRest = rest,
     lfAlive = True, lfFault = False\<rparr>"

definition demo_dead :: "sc_task list \<Rightarrow> demo_kernel life" where
  "demo_dead ts = \<lparr>lfWorld = sc_destroy demo_net (demo_life INACTIVE False ts off), lfRunning = False, lfDone = [], lfRest = [],
     lfAlive = False, lfFault = False\<rparr>"

lemma demo_swap:
  assumes "DeregisterTask \<in> set ts"
  shows "life_step demo_net life_sys echo late (life_start (demo_life INACTIVE True ts off)) (demo_batch True [] [] ts)"
  using life_batch[OF batch_swap[where l = "life_start (demo_life INACTIVE True ts off)", OF _ refl]]
  by (simp add: life_start_def release_def pointers_def demo_life_def)

lemma demo_ignored:
  "life_step demo_net life_sys echo late (demo_batch True ts dn (DoWriteTask bs cb # rest))
     (demo_batch True ts (dn @ [DoWriteTask bs cb]) rest)"
proof -
  have run: "sc_runTask life_sys echo (DoWriteTask bs cb) (demo_life INACTIVE True ts off) = Inr (demo_life INACTIVE True ts off)"
    by (simp add: doWrite_def demo_life_def)
  have "release demo_net (demo_batch True ts dn' rest) = demo_batch True ts dn' rest" for dn'
    by (simp add: release_def pointers_def demo_life_def)
  with life_batch[where N = demo_net and late = late, OF batch_task[where l = "demo_batch True ts dn (DoWriteTask bs cb # rest)", simplified, OF conjI[OF refl refl] run]]
  show ?thesis by simp
qed

lemma demo_last:
  "life_step demo_net life_sys echo late (demo_batch True ts dn (DeregisterTask # rest))
     (demo_batch False ts (dn @ [DeregisterTask]) rest)"
proof -
  have run: "sc_runTask life_sys echo DeregisterTask (demo_life INACTIVE True ts off) = Inr (demo_life INACTIVE False ts off)"
    by (simp add: demo_deregister)
  have "release demo_net (demo_batch False ts (dn @ [DeregisterTask]) rest) = demo_batch False ts (dn @ [DeregisterTask]) rest"
    by (simp add: release_def pointers_def)
  with life_batch[where N = demo_net and late = late, OF batch_task[where l = "demo_batch True ts dn (DeregisterTask # rest)", simplified, OF conjI[OF refl refl] run]]
  show ?thesis by simp
qed

lemma demo_over:
  assumes "DeregisterTask \<notin> set ts"
  shows "life_step demo_net life_sys echo late (demo_batch False ts dn []) (demo_dead ts)"
  using life_batch[OF batch_end[where l = "demo_batch False ts dn []" and N = demo_net and S = life_sys and app = echo]] assms
  by (simp add: release_def pointers_def demo_dead_def count_none) (simp add: demo_life_def)

lemma demo_dead_fds: "openFds (kern (lfWorld (demo_dead ts))) = []"
  by (simp add: demo_dead_def sc_destroy_def closeFd_def demo_life_def demo_net_def sc_new_def)

lemma demo_dead_run: "demo_run False (life_start (demo_life ACTIVE True [] [EvConnect])) (demo_dead [])"
proof -
  let ?t = "DoWriteTask [1] None"
  have "demo_run False (life_start (demo_life INACTIVE True [?t, DeregisterTask] off)) (demo_dead [])"
    using demo_swap[of "[?t, DeregisterTask]" False] demo_ignored[of False "[]" "[]" "[1]" None "[DeregisterTask]"]
      demo_last[of False "[]" "[?t]" "[]"] demo_over[of "[]" False "[?t, DeregisterTask]"]
    by (auto intro: converse_rtranclp_into_rtranclp)
  from rtranclp_trans[OF demo_to_inactive this] show ?thesis .
qed

theorem channel_life_witness:
  "demoEpoll (kern (demo_life ACTIVE True [] [EvConnect])) 5 = Some EPOLLIN \<and>
   (\<exists>l. demo_run False (life_start (demo_life ACTIVE True [] [EvConnect])) l \<and> \<not> lfAlive l \<and> \<not> lfFault l \<and>
     openFds (kern (lfWorld l)) = [] \<and> demoEpoll (kern (lfWorld l)) 5 = None \<and> tasks (lfWorld l) = [])"
proof -
  have "\<not> lfAlive (demo_dead [])" "fd (chan (lfWorld (demo_dead []))) = 5"
    by (simp_all add: demo_dead_def demo_life_def sc_new_def)
  with channel_life[OF life_sys_spec answering_orderly answering_listed[OF life_sys_spec(1,2)] demo_activated demo_dead_run refl]
    demo_dead_run demo_dead_fds[of "[]"]
  show ?thesis by (auto simp: demo_life_def)
qed

theorem channel_freed_witness:
  "\<exists>l1 l2. (batch_step demo_net life_sys echo)\<^sup>*\<^sup>* (life_start (demo_life INACTIVE True [DoWriteTask [1] None, DeregisterTask] off)) l1 \<and>
     batch_step demo_net life_sys echo l1 l2 \<and> lfAlive l1 \<and> \<not> lfAlive l2 \<and>
     kern (lfWorld l2) = closeFd demo_net (fd (chan (lfWorld l2))) (kern (lfWorld l1))"
  by (rule channel_freed[OF answering_orderly demo_activated demo_to_inactive]) (simp_all add: life_start_def demo_life_def)

text \<open>
  A write of another thread that comes after the channel has become inactive is not safe: put into the
  task list while the batch with the deregistration runs, its closure has only the address of the
  channel, and the next batch calls it on a destroyed one.
\<close>

lemma late_write_dangles:
  "\<exists>l. demo_run True (life_start (demo_life ACTIVE True [] [EvConnect])) l \<and> lfFault l"
proof -
  let ?t = "DoWriteTask [1] None" and ?d = "demo_dead [DoWriteTask [2] None]"
  let ?ts = "[?t, DeregisterTask]" and ?l = "demo_batch True [] [] [?t, DeregisterTask]"
  have late: "life_step demo_net life_sys echo True ?l (demo_batch True [DoWriteTask [2] None] [] ?ts)"
    using life_call[where l = ?l and x = "WriteCall False [2] None" and N = demo_net and S = life_sys and app = echo and late = True]
    by (simp add: writeStringMessage_def addTask_def release_def pointers_def demo_life_def)
  let ?s = "?d\<lparr>lfRunning := True, lfRest := tasks (lfWorld ?d), lfWorld := (lfWorld ?d)\<lparr>tasks := []\<rparr>\<rparr>"
  have again: "life_step demo_net life_sys echo True ?d ?s"
    using life_batch[OF batch_swap[where l = ?d, OF _ refl]] by (simp add: release_def demo_dead_def)
  have fault: "life_step demo_net life_sys echo True ?s (?s\<lparr>lfFault := True\<rparr>)"
    by (rule life_batch[OF batch_fault]) (simp_all add: demo_dead_def demo_life_def)
  have "demo_run True (life_start (demo_life INACTIVE True ?ts off)) ?d"
    using demo_swap[of ?ts True] late demo_ignored[of True "[DoWriteTask [2] None]" "[]" "[1]" None "[DeregisterTask]"]
      demo_last[of True "[DoWriteTask [2] None]" "[?t]" "[]"] demo_over[of "[DoWriteTask [2] None]" True ?ts]
    by (auto intro: converse_rtranclp_into_rtranclp)
  from rtranclp_trans[OF demo_to_inactive this] again fault
  have "demo_run True (life_start (demo_life ACTIVE True [] [EvConnect])) (?s\<lparr>lfFault := True\<rparr>)"
    by (meson rtranclp.rtrancl_into_rtrancl)
  then show ?thesis by (rule exI[rotated, where x = "?s\<lparr>lfFault := True\<rparr>", OF conjI]) simp
qed

end
