(* ===== verification/Exceptions.thy ===== *)
theory Exceptions
  imports Thread_Helper
begin

text \<open>
  The exceptions (\<^verbatim>\<open>nets/base/exception\<close>, \<^verbatim>\<open>nets/net/exception\<close>): the classes, the message that
  \<^verbatim>\<open>THROW_FMT\<close> composes in an array of 255 characters, the stack trace taken at construction, and
  which of the handlers in the library catches what. \<open>exn\<close> of theory \<open>Nets_Prelude\<close> names the
  class of an exception and what is specific in its message; \<open>thrown\<close> is the object.
\<close>

section \<open>Objects\<close>

datatype exception_class =
    StdRuntimeError | StdInvalidArgument | StdBadAlloc | StdFutureError
  | IndexOutOfBoundsClass | OutOfMemoryClass | DateTimeFormatClass | FileCreateClass | FileOpenClass
  | SegmentationFaultClass | ChannelRegisterClass | InetSockAddressClass | ServerSocketChannelClass
  | SocketCreationClass | SocketOperationClass

text \<open>The tokens that the macro turns into text; the last two of the standard are not thrown by it.\<close>

fun class_name :: "exception_class \<Rightarrow> string" where
  "class_name StdRuntimeError = ''::std::runtime_error''"
| "class_name StdInvalidArgument = ''::std::invalid_argument''"
| "class_name StdBadAlloc = ''std::bad_alloc''"
| "class_name StdFutureError = ''std::future_error''"
| "class_name IndexOutOfBoundsClass = ''IndexOutOfBoundsException''"
| "class_name OutOfMemoryClass = ''OutOfMemoryException''"
| "class_name DateTimeFormatClass = ''DateTimeFormatException''"
| "class_name FileCreateClass = ''FileCreateException''"
| "class_name FileOpenClass = ''FileOpenException''"
| "class_name SegmentationFaultClass = ''SegmentationFaultException''"
| "class_name ChannelRegisterClass = ''ChannelRegisterException''"
| "class_name InetSockAddressClass = ''InetSockAddressException''"
| "class_name ServerSocketChannelClass = ''ServerSocketChannelException''"
| "class_name SocketCreationClass = ''SocketCreationException''"
| "class_name SocketOperationClass = ''SocketOperationException''"

record exception_object =
  exClass :: exception_class
  cause :: string
  backtraceInfo :: string

fun is_abstract :: "exception_class \<Rightarrow> bool" where
  "is_abstract StdRuntimeError = False"
| "is_abstract StdInvalidArgument = False"
| "is_abstract StdBadAlloc = False"
| "is_abstract StdFutureError = False"
| "is_abstract _ = True"

text \<open>\<^verbatim>\<open>AbstractException\<close> takes the trace of the throwing thread; the classes of the standard have none.\<close>

definition AbstractException :: "exception_class \<Rightarrow> string \<Rightarrow> string \<Rightarrow> exception_object" where
  "AbstractException cls msg trace =
     \<lparr>exClass = cls, cause = msg, backtraceInfo = (if is_abstract cls then trace else [])\<rparr>"

text \<open>
  \<^verbatim>\<open>vsnprintf\<close> stores what fits before the last place, a zero byte after it, and leaves the rest of
  the array as it was, zero. \<open>text\<close> is the format with its arguments put in.
\<close>

definition kMsgBufSize :: nat where "kMsgBufSize = 255"

definition throwFmt :: "exception_class \<Rightarrow> string \<Rightarrow> string \<Rightarrow> exception_object res" where
  "throwFmt cls text trace =
     ebind (mem_write (replicate kMsgBufSize NUL) 0 (take (kMsgBufSize - 1) text @ [NUL])) (\<lambda>msgBuf.
       Inr (AbstractException cls (c_str msgBuf) trace))"

definition THROW_FMT :: "exception_class \<Rightarrow> string \<Rightarrow> string \<Rightarrow> exception_object res" where
  "THROW_FMT cls text trace = throwFmt cls (class_name cls @ '':'' @ text) trace"

definition what :: "exception_object \<Rightarrow> string" where
  "what e = c_str (cause e)"

definition backtrace :: "exception_object \<Rightarrow> string" where
  "backtrace e = backtraceInfo e"

text \<open>The object behind each exception of the model.\<close>

fun exn_class :: "exn \<Rightarrow> exception_class" where
  "exn_class (IndexOutOfBoundsException n) = IndexOutOfBoundsClass"
| "exn_class (OutOfMemoryException n) = OutOfMemoryClass"
| "exn_class (BadAlloc n) = StdBadAlloc"
| "exn_class (InvalidArgument s) = StdInvalidArgument"
| "exn_class (RuntimeError s) = StdRuntimeError"
| "exn_class (FutureError s) = StdFutureError"
| "exn_class (DateTimeFormatException s) = DateTimeFormatClass"
| "exn_class (FileCreateException s) = FileCreateClass"
| "exn_class (FileOpenException s) = FileOpenClass"
| "exn_class (SegmentationFaultException s) = SegmentationFaultClass"
| "exn_class (ChannelRegisterException s) = ChannelRegisterClass"
| "exn_class (InetSockAddressException s) = InetSockAddressClass"
| "exn_class (ServerSocketChannelException s) = ServerSocketChannelClass"
| "exn_class (SocketCreationException s) = SocketCreationClass"
| "exn_class (SocketOperationException s) = SocketOperationClass"

section \<open>Handlers\<close>

text \<open>
  The \<^verbatim>\<open>catch\<close> clauses of the library: around the registration of a channel, around the reading of
  an option value, and the two of the promise tasks of \<^verbatim>\<open>submit\<close>.
\<close>

datatype catch_clause = CatchChannelRegister | CatchBadVariantAccess | CatchStdException | CatchAll

fun catches :: "catch_clause \<Rightarrow> exception_class \<Rightarrow> bool" where
  "catches CatchChannelRegister cls = (cls = ChannelRegisterClass)"
| "catches CatchBadVariantAccess cls = False"
| "catches CatchStdException cls = True"
| "catches CatchAll cls = True"

text \<open>The first clause of a list that catches.\<close>

fun handled_by :: "catch_clause list \<Rightarrow> exception_class \<Rightarrow> catch_clause option" where
  "handled_by [] cls = None"
| "handled_by (c # cs) cls = (if catches c cls then Some c else handled_by cs cls)"

section \<open>Messages\<close>

lemma c_str_append: "NUL \<notin> set s \<Longrightarrow> c_str (s @ NUL # t) = s"
  by (induction s) auto

text \<open>
  The message is the name of the class, a colon and the text, cut to 254 characters; for the
  messages of the library, which have no zero byte, nothing else is lost, and the write stays
  inside the array.
\<close>

lemma THROW_FMT_what:
  assumes "NUL \<notin> set text"
  shows "\<exists>e. THROW_FMT cls text trace = Inr e \<and> exClass e = cls \<and>
    what e = take 254 (class_name cls @ '':'' @ text) \<and> length (what e) \<le> 254 \<and>
    backtrace e = (if is_abstract cls then trace else [])"
proof -
  let ?s = "take 254 (class_name cls @ '':'' @ text)"
  have "NUL \<notin> set (class_name cls)" by (cases cls) auto
  then have n: "NUL \<notin> set ?s" using assms by (auto dest: in_set_takeD)
  have "mem_write (replicate kMsgBufSize NUL) 0 (?s @ [NUL]) = Inr (?s @ NUL # drop (length ?s + 1) (replicate kMsgBufSize NUL))"
    by (simp add: mem_write_def kMsgBufSize_def)
  then have "throwFmt cls (class_name cls @ '':'' @ text) trace = Inr (AbstractException cls ?s trace)"
    using c_str_append[OF n] unfolding throwFmt_def kMsgBufSize_def by simp
  moreover have "what (AbstractException cls ?s trace) = ?s"
    unfolding what_def AbstractException_def using c_str_id[OF n] by simp
  moreover have "length ?s \<le> 254" by simp
  ultimately show ?thesis
    unfolding THROW_FMT_def by (auto simp: AbstractException_def backtrace_def simp del: append.simps length_take)
qed

text \<open>
  A promise task catches every exception of the model in its first clause, which sees only the base
  class; the clause around a registration catches the failure of that registration and nothing else.
\<close>

lemma promise_task_catches: "handled_by [CatchStdException, CatchAll] (exn_class e) = Some CatchStdException"
  by simp

lemma register_clause: "handled_by [CatchChannelRegister] (exn_class e) \<noteq> None \<longleftrightarrow> (\<exists>s. e = ChannelRegisterException s)"
  by (cases e) simp_all

end
