(* ===== verification/Buffer_Values.thy ===== *)
theory Buffer_Values
  imports Byte_Buffer
begin

text \<open>
  \<^verbatim>\<open>nets/net/core/ByteBuffer\<close> as a value type: the assignment operators and the functions that take a
  C string, and a specification of a program's buffers as plain byte sequences, which any sequence of
  constructions, copies, moves, assignments, swaps and reads implements.
\<close>

section \<open>Assignment and C strings\<close>

text \<open>\<open>self\<close> is the test \<^verbatim>\<open>this == &other\<close>. Moving gives the target and what is left of the source.\<close>

definition bb_copy_assign :: "bool \<Rightarrow> byte_buffer \<Rightarrow> byte_buffer \<Rightarrow> byte_buffer res" where
  "bb_copy_assign self other b =
     (if \<not> self
      then ebind (new_array (capacity other)) (\<lambda>buf.
           ebind (mem_read (buffer other) 0 (capacity other)) (\<lambda>bs.
           ebind (mem_write buf 0 bs) (\<lambda>buf.
             Inr (b\<lparr>buffer := buf, readerIndex := readerIndex other, writerIndex := writerIndex other,
                    capacity := capacity other\<rparr>))))
      else Inr b)"

definition bb_move_assign :: "bool \<Rightarrow> byte_buffer \<Rightarrow> byte_buffer \<Rightarrow> byte_buffer \<times> byte_buffer" where
  "bb_move_assign self other b =
     (if \<not> self
      then (b\<lparr>buffer := buffer other, readerIndex := readerIndex other, writerIndex := writerIndex other, capacity := capacity other\<rparr>,
            other\<lparr>buffer := [], readerIndex := 0, writerIndex := 0, capacity := 0\<rparr>)
      else (b, b))"

text \<open>\<^verbatim>\<open>strlen\<close> reads up to the first zero byte, and beyond the array if there is none.\<close>

definition c_bytes :: "byte list \<Rightarrow> byte list res" where
  "c_bytes data = (if 0 \<in> set data then Inr (takeWhile (\<lambda>c. c \<noteq> 0) data) else Inl Undefined)"

definition bb_of_cstring :: "byte list \<Rightarrow> byte_buffer res" where
  "bb_of_cstring data = ebind (c_bytes data) bb_of_data"

definition writeCString :: "byte list \<Rightarrow> byte_buffer \<Rightarrow> byte_buffer res" where
  "writeCString data b = ebind (c_bytes data) (\<lambda>bs. writeBytes bs b)"

section \<open>Buffers as values\<close>

text \<open>The buffers of a program are numbered; constructors add one at the end.\<close>

datatype value_op =
    VData "byte list" | VCString "byte list" | VCopy nat | VMove nat
  | VAssign nat nat | VMoveAssign nat nat | VSwap nat nat | VRead nat nat | VText nat

fun value_exec :: "value_op \<Rightarrow> byte_buffer list \<Rightarrow> (byte list \<times> byte_buffer list) res" where
  "value_exec (VData bs) s = ebind (bb_of_data bs) (\<lambda>b. Inr ([], s @ [b]))"
| "value_exec (VCString bs) s = ebind (bb_of_cstring bs) (\<lambda>b. Inr ([], s @ [b]))"
| "value_exec (VCopy i) s = ebind (bb_copy (s ! i)) (\<lambda>b. Inr ([], s @ [b]))"
| "value_exec (VMove i) s = (case bb_move (s ! i) of (b, old) \<Rightarrow> Inr ([], s[i := old] @ [b]))"
| "value_exec (VAssign i j) s = ebind (bb_copy_assign (i = j) (s ! i) (s ! j)) (\<lambda>b. Inr ([], s[j := b]))"
| "value_exec (VMoveAssign i j) s = (case bb_move_assign (i = j) (s ! i) (s ! j) of (b, old) \<Rightarrow> Inr ([], s[i := old, j := b]))"
| "value_exec (VSwap i j) s = (case bb_swap (s ! i) (s ! j) of (b, b') \<Rightarrow> Inr ([], s[i := b, j := b']))"
| "value_exec (VRead i n) s = ebind (readBytes n (s ! i)) (\<lambda>(bs, b). Inr (bs, s[i := b]))"
| "value_exec (VText i) s = ebind (bb_toString (s ! i)) (\<lambda>bs. Inr (bs, s))"

fun value_spec :: "value_op \<Rightarrow> byte list list \<Rightarrow> byte list \<times> byte list list" where
  "value_spec (VData bs) a = ([], a @ [bs])"
| "value_spec (VCString bs) a = ([], a @ [takeWhile (\<lambda>c. c \<noteq> 0) bs])"
| "value_spec (VCopy i) a = ([], a @ [a ! i])"
| "value_spec (VMove i) a = ([], a[i := []] @ [a ! i])"
| "value_spec (VAssign i j) a = ([], a[j := a ! i])"
| "value_spec (VMoveAssign i j) a = ([], if i = j then a else a[i := [], j := a ! i])"
| "value_spec (VSwap i j) a = ([], a[i := a ! j, j := a ! i])"
| "value_spec (VRead i n) a = (take n (a ! i), a[i := drop n (a ! i)])"
| "value_spec (VText i) a = (a ! i, a)"

text \<open>Buffers that exist, lengths that are possible, strings with an end, and reads of what is there.\<close>

fun value_allowed :: "value_op \<Rightarrow> byte list list \<Rightarrow> bool" where
  "value_allowed (VData bs) a = (length bs \<le> 2 ^ 62)"
| "value_allowed (VCString bs) a = (length bs \<le> 2 ^ 62 \<and> 0 \<in> set bs)"
| "value_allowed (VCopy i) a = (i < length a)"
| "value_allowed (VMove i) a = (i < length a)"
| "value_allowed (VAssign i j) a = (i < length a \<and> j < length a)"
| "value_allowed (VMoveAssign i j) a = (i < length a \<and> j < length a)"
| "value_allowed (VSwap i j) a = (i < length a \<and> j < length a)"
| "value_allowed (VRead i n) a = (i < length a \<and> n \<le> length (a ! i))"
| "value_allowed (VText i) a = (i < length a)"

definition holds_value :: "byte_buffer \<Rightarrow> byte list \<Rightarrow> bool" where
  "holds_value b bs \<longleftrightarrow> bb_ok b \<and> content b = bs"

lemma holds_data:
  assumes "length bs \<le> 2 ^ 62"
  obtains b where "bb_of_data bs = Inr b" "holds_value b bs"
proof -
  have "bb_ok bb_null" "\<not> growth_refused (length bs) bb_null"
    by (simp_all add: bb_ok_def bb_null_def growth_refused_def bb_inv_def)
  from writeBytes_ok[OF this(1) assms this(2)] that show thesis by (auto simp: bb_of_data_def holds_value_def)
qed

lemma holds_same_fields:
  "holds_value b bs \<Longrightarrow> buffer b' = buffer b \<Longrightarrow> readerIndex b' = readerIndex b \<Longrightarrow> writerIndex b' = writerIndex b \<Longrightarrow>
   capacity b' = capacity b \<Longrightarrow> holds_value b' bs"
  by (simp add: holds_value_def bb_ok_def bb_inv_def content_def)

lemma holds_emptied [simp]: "holds_value (b\<lparr>buffer := [], readerIndex := 0, writerIndex := 0, capacity := 0\<rparr>) []"
  by (simp add: holds_value_def bb_ok_def bb_inv_def content_def)

lemma holds_copy:
  assumes "holds_value b bs"
  obtains b' where "bb_copy b = Inr b'" "holds_value b' bs"
  using assms that by (simp add: holds_value_def bb_ok_def bb_inv_def bb_copy_def nets_mem content_def mem_write_def)

lemma holds_copy_assign:
  assumes "holds_value b bs" and "holds_value c cs"
  obtains b' where "bb_copy_assign self b c = Inr b'" "holds_value b' (if self then cs else bs)"
proof (cases self)
  case True then show thesis using assms(2) that by (simp add: bb_copy_assign_def)
next
  case False
  then show thesis using assms(1) that
    by (simp add: holds_value_def bb_ok_def bb_inv_def bb_copy_assign_def nets_mem content_def mem_write_def)
qed

lemma holds_value_read:
  assumes "holds_value b bs" and "n \<le> length bs"
  obtains b' where "readBytes n b = Inr (take n bs, b')" "holds_value b' (drop n bs)"
  using readBytes_contract[of b n] assms that by (auto simp: holds_value_def)

lemma holds_value_text: "holds_value b bs \<Longrightarrow> bb_toString b = Inr bs"
  using bb_inv_bounds[of b] readableBytes_content[of b] content_length[of b]
  by (auto simp: holds_value_def bb_ok_def bb_toString_def mem_read_def content_def)

definition value_rel :: "byte_buffer list \<Rightarrow> byte list list \<Rightarrow> bool" where
  "value_rel s a \<longleftrightarrow> list_all2 holds_value s a"

lemma value_relD: "value_rel s a \<Longrightarrow> i < length a \<Longrightarrow> holds_value (s ! i) (a ! i) \<and> i < length s"
  by (auto simp: value_rel_def list_all2_conv_all_nth)

lemma value_rel_intros:
  "value_rel s a \<Longrightarrow> holds_value b bs \<Longrightarrow> value_rel (s @ [b]) (a @ [bs])"
  "value_rel s a \<Longrightarrow> holds_value b bs \<Longrightarrow> value_rel (s[i := b]) (a[i := bs])"
  by (simp_all add: value_rel_def list_all2_appendI list_all2_update_cong)

lemma value_step:
  assumes rel: "value_rel s a" and ok: "value_allowed op a"
  shows "\<exists>s'. value_exec op s = Inr (fst (value_spec op a), s') \<and> value_rel s' (snd (value_spec op a))"
proof (cases op)
  case (VData bs)
  obtain b where "bb_of_data bs = Inr b" "holds_value b bs" by (rule holds_data[of bs]) (use ok VData in simp_all)
  then show ?thesis using VData value_rel_intros(1)[OF rel] by simp
next
  case (VCString bs)
  have len: "length (takeWhile (\<lambda>c. c \<noteq> 0) bs) \<le> 2 ^ 62"
    using ok VCString length_takeWhile_le[of "\<lambda>c. c \<noteq> 0" bs] by simp
  obtain b where "bb_of_data (takeWhile (\<lambda>c. c \<noteq> 0) bs) = Inr b" "holds_value b (takeWhile (\<lambda>c. c \<noteq> 0) bs)"
    by (rule holds_data[OF len])
  then show ?thesis using VCString ok value_rel_intros(1)[OF rel] by (simp add: bb_of_cstring_def c_bytes_def)
next
  case (VCopy i)
  obtain b where "bb_copy (s ! i) = Inr b" "holds_value b (a ! i)"
    by (rule holds_copy[of "s ! i" "a ! i"]) (use ok VCopy value_relD[OF rel] in simp_all)
  then show ?thesis using VCopy value_rel_intros(1)[OF rel] by simp
next
  case (VMove i)
  have h: "holds_value (s ! i) (a ! i)" using value_relD[OF rel] ok VMove by simp
  show ?thesis using VMove value_rel_intros(1)[OF value_rel_intros(2)[OF rel holds_emptied] holds_same_fields[OF h]]
    by (simp add: bb_move_def)
next
  case (VAssign i j)
  have h: "holds_value (s ! i) (a ! i)" "holds_value (s ! j) (a ! j)" using value_relD[OF rel] ok VAssign by simp_all
  obtain b where b: "bb_copy_assign (i = j) (s ! i) (s ! j) = Inr b" "holds_value b (if i = j then a ! j else a ! i)"
    by (rule holds_copy_assign[OF h])
  then have "holds_value b (a ! i)" by (simp split: if_splits)
  then show ?thesis using VAssign b(1) value_rel_intros(2)[OF rel] by simp
next
  case (VMoveAssign i j)
  have h: "holds_value (s ! i) (a ! i)" "i < length s" using value_relD[OF rel] ok VMoveAssign by simp_all
  show ?thesis
  proof (cases "i = j")
    case True then show ?thesis using VMoveAssign h(2) rel by (simp add: bb_move_assign_def)
  next
    case False
    then show ?thesis using VMoveAssign value_rel_intros(2)[OF value_rel_intros(2)[OF rel holds_emptied] holds_same_fields[OF h(1)]]
      by (simp add: bb_move_assign_def)
  qed
next
  case (VSwap i j)
  have h: "holds_value (s ! i) (a ! i)" "holds_value (s ! j) (a ! j)" using value_relD[OF rel] ok VSwap by simp_all
  show ?thesis using VSwap value_rel_intros(2)[OF value_rel_intros(2)[OF rel holds_same_fields[OF h(2)]] holds_same_fields[OF h(1)]]
    by (simp add: bb_swap_def)
next
  case (VRead i n)
  have h: "holds_value (s ! i) (a ! i)" and n: "n \<le> length (a ! i)" using value_relD[OF rel] ok VRead by simp_all
  obtain b where "readBytes n (s ! i) = Inr (take n (a ! i), b)" "holds_value b (drop n (a ! i))"
    by (rule holds_value_read[OF h n])
  then show ?thesis using VRead value_rel_intros(2)[OF rel] by simp
next
  case (VText i)
  then show ?thesis using holds_value_text[of "s ! i" "a ! i"] value_relD[OF rel] ok rel by simp
qed

interpretation bv: simulation value_exec value_spec value_allowed value_rel
  by unfold_locales (rule value_step)

text \<open>
  C17. Buffers are values. Any program that makes buffers from data, C strings and other buffers, and
  copies, moves, assigns (also to themselves), swaps and reads them, behaves as if each were just its
  sequence of unread bytes: results and contents are those of the specification, no operation throws
  or leaves its arrays, and no buffer shares with another.
\<close>

theorem buffers_are_values:
  assumes "ops_allowed value_spec value_allowed ops []"
  shows "\<exists>s. run_ops value_exec ops [] = Inr (fst (spec_ops value_spec ops []), s) \<and>
    map content s = snd (spec_ops value_spec ops []) \<and> list_all bb_inv s"
proof -
  have "value_rel [] []" by (simp add: value_rel_def)
  from bv.run_ops_sim[OF this assms] obtain s where
    s: "run_ops value_exec ops [] = Inr (fst (spec_ops value_spec ops []), s)" "value_rel s (snd (spec_ops value_spec ops []))"
    by blast
  then have "map content s = snd (spec_ops value_spec ops [])" "list_all bb_inv s"
    by (auto simp: value_rel_def list_all2_conv_all_nth holds_value_def bb_ok_def list_all_length intro!: nth_equalityI)
  with s(1) show ?thesis by blast
qed

theorem buffers_are_values_witness:
  "\<exists>s. run_ops value_exec [VData [1, 2, 3], VCopy 0, VRead 0 1, VMoveAssign 0 1, VSwap 0 1, VText 0] [] =
      Inr ([[], [], [1], [], [], [2, 3]], s) \<and> map content s = [[2, 3], []]"
  using buffers_are_values[of "[VData [1, 2, 3], VCopy 0, VRead 0 1, VMoveAssign 0 1, VSwap 0 1, VText 0]"] by auto

end
