(* ===== verification/Time_Values.thy ===== *)
theory Time_Values
  imports Timer_Manager
begin

text \<open>
  The value operations of \<^verbatim>\<open>nets/base/Timestamp\<close> and of \<^verbatim>\<open>TimerId\<close> in \<^verbatim>\<open>nets/base/timer/Timer\<close>:
  construction, copy, move, assignment, swap and comparison. Moves give the target and what is left
  of the source; \<open>self\<close> is the test \<^verbatim>\<open>this == &other\<close>.
\<close>

section \<open>Timestamp\<close>

definition ts_default :: timestamp where "ts_default = 0"

definition ts_of_micros :: "int \<Rightarrow> timestamp" where
  "ts_of_micros microsecondsSinceEpoch = microsecondsSinceEpoch"

record timeval =
  tv_sec :: int
  tv_usec :: int

definition ts_of_timeval :: "timeval \<Rightarrow> timestamp" where
  "ts_of_timeval tmv = ts_of_parts (tv_sec tmv) (tv_usec tmv)"

definition ts_copy :: "timestamp \<Rightarrow> timestamp" where
  "ts_copy other = other"

definition ts_move :: "timestamp \<Rightarrow> timestamp \<times> timestamp" where
  "ts_move other = (other, 0)"

definition ts_copy_assign :: "bool \<Rightarrow> timestamp \<Rightarrow> timestamp \<Rightarrow> timestamp" where
  "ts_copy_assign self other t = (if \<not> self then other else t)"

definition ts_move_assign :: "bool \<Rightarrow> timestamp \<Rightarrow> timestamp \<Rightarrow> timestamp \<times> timestamp" where
  "ts_move_assign self other t = (if \<not> self then (other, 0) else (t, t))"

definition ts_swap :: "timestamp \<Rightarrow> timestamp \<Rightarrow> timestamp \<times> timestamp" where
  "ts_swap t other = (other, t)"

definition ts_lt :: "timestamp \<Rightarrow> timestamp \<Rightarrow> bool" where "ts_lt t other \<longleftrightarrow> t < other"
definition ts_gt :: "timestamp \<Rightarrow> timestamp \<Rightarrow> bool" where "ts_gt t other \<longleftrightarrow> t > other"
definition ts_eq :: "timestamp \<Rightarrow> timestamp \<Rightarrow> bool" where "ts_eq t other \<longleftrightarrow> t = other"
definition ts_le :: "timestamp \<Rightarrow> timestamp \<Rightarrow> bool" where "ts_le t other \<longleftrightarrow> t \<le> other"
definition ts_ge :: "timestamp \<Rightarrow> timestamp \<Rightarrow> bool" where "ts_ge t other \<longleftrightarrow> t \<ge> other"

text \<open>The parts of a time after the epoch put it together again, and the microseconds are below a second.\<close>

lemma timestamp_parts:
  assumes "0 \<le> t"
  shows "ts_of_parts (secondsSinceEpoch t) (microsPartOfTimestamp t) = t"
    and "0 \<le> microsPartOfTimestamp t" and "microsPartOfTimestamp t < kMicrosecondsPerSecond"
  using assms by (simp_all add: ts_of_parts_def secondsSinceEpoch_def microsPartOfTimestamp_def cdiv_def cmod_def time_consts)

section \<open>TimerId\<close>

definition id_default :: timer_id where
  "id_default = \<lparr>id_key = -1, id_value = ts_of_micros 0\<rparr>"

definition id_new :: "int \<Rightarrow> timestamp \<Rightarrow> timer_id" where
  "id_new key val = \<lparr>id_key = key, id_value = ts_copy val\<rparr>"

definition id_copy :: "timer_id \<Rightarrow> timer_id" where
  "id_copy other = \<lparr>id_key = id_key other, id_value = ts_copy (id_value other)\<rparr>"

definition id_move :: "timer_id \<Rightarrow> timer_id \<times> timer_id" where
  "id_move other = (case ts_move (id_value other) of (v, rest) \<Rightarrow>
     (\<lparr>id_key = id_key other, id_value = v\<rparr>, \<lparr>id_key = -1, id_value = rest\<rparr>))"

definition id_copy_assign :: "bool \<Rightarrow> timer_id \<Rightarrow> timer_id \<Rightarrow> timer_id" where
  "id_copy_assign self other i =
     (if \<not> self then i\<lparr>id_key := id_key other, id_value := ts_copy_assign False (id_value other) (id_value i)\<rparr> else i)"

definition id_move_assign :: "bool \<Rightarrow> timer_id \<Rightarrow> timer_id \<Rightarrow> timer_id \<times> timer_id" where
  "id_move_assign self other i =
     (if \<not> self
      then (case ts_move_assign False (id_value other) (id_value i) of (v, rest) \<Rightarrow>
        (i\<lparr>id_key := id_key other, id_value := v\<rparr>, other\<lparr>id_key := -1, id_value := rest\<rparr>))
      else (i, i))"

definition id_eq :: "timer_id \<Rightarrow> timer_id \<Rightarrow> bool" where
  "id_eq i other \<longleftrightarrow> id_key i = id_key other \<and> ts_eq (id_value i) (id_value other)"

text \<open>
  An id survives copies, moves and assignments, so that \<^verbatim>\<open>removeTimer\<close> finds its timer by it; an id
  that was moved from is the default one, which no timer has.
\<close>

lemma timer_id_values:
  "id_eq (id_copy i) i" "id_eq (fst (id_move i)) i" "id_eq (snd (id_move i)) id_default"
  "id_eq (id_copy_assign False i j) i" "id_eq (fst (id_move_assign False i j)) i"
  "id_eq (snd (id_move_assign False i j)) id_default" "id_eq (id_copy_assign True i i) i" "fst (id_move_assign True i i) = i"
  by (simp_all add: id_eq_def id_copy_def id_move_def id_copy_assign_def id_move_assign_def id_default_def ts_eq_def
      ts_copy_def ts_move_def ts_copy_assign_def ts_move_assign_def ts_of_micros_def)

lemma id_eq_iff: "id_eq i j \<longleftrightarrow> i = j"
  by (cases i; cases j) (simp add: id_eq_def ts_eq_def)

lemma new_timer_not_default: "0 \<le> gen \<Longrightarrow> \<not> id_eq (tid (timer_new gen e r i f cb)) id_default"
  by (simp add: id_eq_def timer_new_def id_default_def)

end
