(* ===== verification/Socket_Queries.thy ===== *)
theory Socket_Queries
  imports Descriptors
begin

text \<open>
  The functions of \<^verbatim>\<open>nets/net/core/Socket.cpp\<close> that ask the kernel: the peer's address, the default
  buffer sizes (each found on a socket made for the purpose), and the name of a shutdown for the log.
\<close>

text \<open>\<open>how\<close> is the number the caller passes; 0, 1 and 2 are \<^verbatim>\<open>SHUT_RD\<close>, \<^verbatim>\<open>SHUT_WR\<close> and \<^verbatim>\<open>SHUT_RDWR\<close>.\<close>

definition shutdownHowToString :: "int \<Rightarrow> string" where
  "shutdownHowToString how =
     (if how = 1 then ''write'' else if how = 0 then ''read'' else if how = 2 then ''both''
      else ''unknown shutdown operation'')"

definition getPeerAddress ::
    "(FdType \<Rightarrow> 'k \<Rightarrow> (nat + byte list) \<times> 'k) \<Rightarrow> FdType \<Rightarrow> inet_sock_address \<Rightarrow> 'k \<Rightarrow> inet_sock_address \<times> 'k" where
  "getPeerAddress getpeername f sockAddr k =
     (case getpeername f k of (Inl e, k) \<Rightarrow> (sockAddr, k) | (Inr a, k) \<Rightarrow> (a @ drop (length a) sockAddr, k))"

datatype buf_option = SO_SNDBUF | SO_RCVBUF

type_synonym 'k get_option = "FdType \<Rightarrow> buf_option \<Rightarrow> 'k \<Rightarrow> (nat + int) \<times> 'k"

definition ask_option :: "'k get_option \<Rightarrow> FdType \<Rightarrow> buf_option \<Rightarrow> 'k \<Rightarrow> int \<times> 'k" where
  "ask_option G f b k = (case G f b k of (r, k) \<Rightarrow> (case r of Inl e \<Rightarrow> 0 | Inr v \<Rightarrow> v, k))"

definition getTcpSockSendBuf :: "'k net \<Rightarrow> 'k get_option \<Rightarrow> ('k, int) action" where
  "getTcpSockSendBuf N G = bind (createTcpSocket N AF_INET)
     (\<lambda>sockFd k. case ask_option G sockFd SO_SNDBUF k of (optVal, k) \<Rightarrow> return optVal (closeFd N sockFd k))"

definition getTcpSockRecvBuf :: "'k net \<Rightarrow> 'k get_option \<Rightarrow> ('k, int) action" where
  "getTcpSockRecvBuf N G = bind (createTcpSocket N AF_INET)
     (\<lambda>sockFd k. case ask_option G sockFd SO_RCVBUF k of (optVal, k) \<Rightarrow> return optVal (closeFd N sockFd k))"

definition getUdpSockSendBuf :: "'k net \<Rightarrow> 'k get_option \<Rightarrow> ('k, int) action" where
  "getUdpSockSendBuf N G = bind (createUdpSocket N AF_INET)
     (\<lambda>sockFd k. case ask_option G sockFd SO_SNDBUF k of (optVal, k) \<Rightarrow> return optVal (closeFd N sockFd k))"

definition getUdpSockRecvBuf :: "'k net \<Rightarrow> 'k get_option \<Rightarrow> ('k, int) action" where
  "getUdpSockRecvBuf N G = bind (createUdpSocket N AF_INET)
     (\<lambda>sockFd k. case ask_option G sockFd SO_RCVBUF k of (optVal, k) \<Rightarrow> return optVal (closeFd N sockFd k))"

text \<open>Each of them leaves the descriptors as they were, whatever the answers.\<close>

lemma createUdpSocket_fds:
  assumes spec: "fds_spec N S fds" and run: "createUdpSocket N a k = (r, k')" and works: "fcntl_works N"
  shows "case r of Inl e \<Rightarrow> fds k' = fds k | Inr f \<Rightarrow> opens fds f k k'"
proof -
  obtain r1 k1 where s: "net_socket N a SOCK_DGRAM k = (r1, k1)" by force
  show ?thesis
  proof (cases r1)
    case (Inl e)
    then show ?thesis using run s socket_fds(1)[OF spec, of a SOCK_DGRAM k] by (auto simp: createUdpSocket_def)
  next
    case (Inr f)
    obtain b k2 where c: "net_fcntl N f k1 = (b, k2)" by force
    have "b" using works c by (metis fcntl_works_def fst_conv)
    moreover have "fds k2 = fds k1" using keeps_fds(1)[OF spec c] .
    ultimately show ?thesis using run s Inr c socket_fds(2)[OF spec, of a SOCK_DGRAM k f k1]
      by (auto simp: createUdpSocket_def setSockCloExec_def opens_def)
  qed
qed

lemma probe_fds:
  assumes spec: "fds_spec N S fds" and pos: "\<And>g. g \<in> fds k \<Longrightarrow> 0 \<le> g" and keep: "\<forall>f b k. fds (snd (G f b k)) = fds k"
    and made: "\<And>r k'. create k = (r, k') \<Longrightarrow> case r of Inl e \<Rightarrow> fds k' = fds k | Inr f \<Rightarrow> opens fds f k k'"
  shows "fds (snd (bind create (\<lambda>sockFd k. case ask_option G sockFd opt k of (optVal, k) \<Rightarrow> return optVal (closeFd N sockFd k)) k)) = fds k"
proof -
  obtain r k1 where c: "create k = (r, k1)" by force
  show ?thesis
  proof (cases r)
    case (Inl e) then show ?thesis using made[OF c] c by simp
  next
    case (Inr f)
    have o: "opens fds f k k1" using made[OF c] Inr by simp
    obtain v k2 where a: "ask_option G f opt k1 = (v, k2)" by force
    then have "k2 = snd (G f opt k1)" by (cases "G f opt k1") (simp add: ask_option_def)
    then have k2: "fds k2 = fds k1" using keep by simp
    have "fds (closeFd N f k2) = fds k2 - {f}"
      by (rule closeFd_fds[OF spec]) (use k2 o pos in \<open>auto simp: opens_def\<close>)
    then show ?thesis using c Inr a k2 o by (auto simp: opens_def)
  qed
qed

lemma buffer_queries_fds:
  assumes spec: "fds_spec N S fds" and "fcntl_works N" and "\<And>g. g \<in> fds k \<Longrightarrow> 0 \<le> g" and "\<forall>f b k. fds (snd (G f b k)) = fds k"
  shows "fds (snd (getTcpSockSendBuf N G k)) = fds k" "fds (snd (getTcpSockRecvBuf N G k)) = fds k"
    "fds (snd (getUdpSockSendBuf N G k)) = fds k" "fds (snd (getUdpSockRecvBuf N G k)) = fds k"
  unfolding getTcpSockSendBuf_def getTcpSockRecvBuf_def getUdpSockSendBuf_def getUdpSockRecvBuf_def
  using createTcpSocket_fds[OF spec _ assms(2)] createUdpSocket_fds[OF spec _ assms(2)]
  by (intro probe_fds[OF spec assms(3,4)]; blast)+

section \<open>The descriptor of the poller\<close>

text \<open>Constructor and destructor of \<^verbatim>\<open>EpollPoller\<close>; \<open>create\<close> is \<^verbatim>\<open>epoll_create1\<close>.\<close>

definition EpollPoller_new :: "('k \<Rightarrow> (nat + FdType) \<times> 'k) \<Rightarrow> ('k, FdType) action" where
  "EpollPoller_new create k =
     (case create k of
        (Inl e, k) \<Rightarrow> throw (RuntimeError ''EpollPoller epoll create1 failed with result epollFd < 0'') k
      | (Inr epollFd, k) \<Rightarrow> return epollFd k)"

definition EpollPoller_destroy :: "'k net \<Rightarrow> FdType \<Rightarrow> 'k \<Rightarrow> 'k" where
  "EpollPoller_destroy N epollFd k = closeFd N epollFd k"

text \<open>The name of an operation for the log; 1, 2 and 3 are \<^verbatim>\<open>EPOLL_CTL_ADD\<close>, \<^verbatim>\<open>EPOLL_CTL_DEL\<close> and \<^verbatim>\<open>EPOLL_CTL_MOD\<close>.\<close>

definition epollOptToString :: "int \<Rightarrow> string" where
  "epollOptToString opt =
     (if opt = 1 then ''ADD'' else if opt = 3 then ''MOD'' else if opt = 2 then ''DEL''
      else ''unknown epoll ctl operation'')"

lemma EpollPoller_life:
  assumes spec: "fds_spec N S fds" and pos: "\<And>g. g \<in> fds k \<Longrightarrow> 0 \<le> g"
    and c: "create k = (Inr f, k1)" and o: "opens fds f k k1"
  shows "EpollPoller_new create k = (Inr f, k1)" and "fds (EpollPoller_destroy N f k1) = fds k"
proof -
  show "EpollPoller_new create k = (Inr f, k1)" using c by (simp add: EpollPoller_new_def)
  have "fds (closeFd N f k1) = fds k1 - {f}" by (rule closeFd_fds[OF spec]) (use o pos in \<open>auto simp: opens_def\<close>)
  then show "fds (EpollPoller_destroy N f k1) = fds k" using o by (auto simp: EpollPoller_destroy_def opens_def)
qed

end
