(* ===== verification/Pool_Threads.thy ===== *)
theory Pool_Threads
  imports Thread_Helper Thread_Pool
begin

text \<open>
  The threads of \<^verbatim>\<open>nets/base/ThreadPool\<close> and their names: \<^verbatim>\<open>addThreadTask\<close> prints the name into an
  array of the length that \<open>Thread_Helper\<close> can hold, and the new thread sets it first.
\<close>

text \<open>\<^verbatim>\<open>snprintf\<close> writes at most one character less than the array has, and the terminator.\<close>

definition threadName :: "string \<Rightarrow> 32 word \<Rightarrow> string" where
  "threadName name c = take (kThreadNameMaxLength - 1) (c_str name @ ''-Thread-'' @ dec (numOfActiveThreads c))"

definition ThreadWrapper_start :: "string \<Rightarrow> 'a thread_locals_scheme \<Rightarrow> 'a thread_locals_scheme res" where
  "ThreadWrapper_start n t = setCurrentThreadName n t"

text \<open>Whatever the name of the pool, the name fits and the thread has it, cut to 63 characters.\<close>

lemma pool_thread_named:
  assumes "thread_is t k s"
  shows "\<exists>t'. ThreadWrapper_start (threadName name c) t = Inr t' \<and> thread_is t' k (threadName name c) \<and>
    currentThreadName t' = Inr (threadName name c)"
proof -
  have "NUL \<notin> set (threadName name c)"
    using dec_no_NUL[of "numOfActiveThreads c"] by (auto simp: threadName_def c_str_no_NUL dest!: in_set_takeD)
  then have id: "c_str (threadName name c) = threadName name c" by (rule c_str_id)
  have "length (threadName name c) < kThreadNameMaxLength" by (simp add: threadName_def kThreadNameMaxLength_def)
  then obtain t' where "setCurrentThreadName (threadName name c) t = Inr t'" "thread_is t' k (threadName name c)"
    using setCurrentThreadName_is[OF assms, of "threadName name c"] unfolding id by blast
  then show ?thesis using currentThreadName_is[of t' k "threadName name c"] unfolding ThreadWrapper_start_def by blast
qed

end
