(* ===== verification/Singleton.thy ===== *)
theory Singleton
  imports Nets_Prelude
begin

text \<open>
  \<^verbatim>\<open>nets/base/Singleton.h\<close>: \<^verbatim>\<open>getInstance\<close> of a class made a singleton by the macros, called by any
  number of threads. \<^verbatim>\<open>std::call_once\<close> is modelled as the standard describes it: one thread at a time
  executes the closure, the others wait; a closure that returns sets the flag, one that throws passes
  the exception to its caller and leaves the flag, and a waiting thread tries next. Constructor and
  \<^verbatim>\<open>afterInit\<close> are the user's and may throw.
\<close>

text \<open>
  A thread in \<^verbatim>\<open>getInstance\<close> is in \<^verbatim>\<open>call_once\<close>, in the closure before the test, past the assignment to
  \<^verbatim>\<open>_INSTANCE\<close>, or about to return. Instances are numbered by construction; \<open>results\<close> and \<open>threw\<close>
  record how the calls ended and \<open>inits\<close> the instances whose \<^verbatim>\<open>afterInit\<close> ended.
\<close>

datatype singleton_pc = SCall | SBody | SAfter | SReturn

record singleton =
  sInstance :: "nat option"
  onceFlag :: bool
  onceActive :: "nat option"
  sPc :: "nat \<Rightarrow> singleton_pc option"
  built :: nat
  inits :: "nat list"
  results :: "(nat \<times> nat option) list"
  threw :: "nat list"

definition INIT_SINGLETON :: singleton where
  "INIT_SINGLETON = \<lparr>sInstance = None, onceFlag = False, onceActive = None, sPc = (\<lambda>t. None), built = 0, inits = [],
     results = [], threw = []\<rparr>"

definition at :: "nat \<Rightarrow> singleton_pc option \<Rightarrow> singleton \<Rightarrow> singleton" where
  "at t p s = s\<lparr>sPc := (sPc s)(t := p)\<rparr>"

text \<open>The end of the closure: normally, or by an exception.\<close>

definition once_done :: "nat \<Rightarrow> singleton \<Rightarrow> singleton" where
  "once_done t s = at t (Some SReturn) (s\<lparr>onceFlag := True, onceActive := None\<rparr>)"

definition once_threw :: "nat \<Rightarrow> singleton \<Rightarrow> singleton" where
  "once_threw t s = at t None (s\<lparr>onceActive := None, threw := threw s @ [t]\<rparr>)"

inductive singleton_step :: "singleton \<Rightarrow> singleton \<Rightarrow> bool" where
  get_call: "sPc s t = None \<Longrightarrow> singleton_step s (at t (Some SCall) s)"
| get_passed: "sPc s t = Some SCall \<Longrightarrow> onceFlag s \<Longrightarrow> singleton_step s (at t (Some SReturn) s)"
| get_enter: "sPc s t = Some SCall \<Longrightarrow> \<not> onceFlag s \<Longrightarrow> onceActive s = None \<Longrightarrow>
    singleton_step s (at t (Some SBody) (s\<lparr>onceActive := Some t\<rparr>))"
| body_have: "sPc s t = Some SBody \<Longrightarrow> sInstance s \<noteq> None \<Longrightarrow> singleton_step s (once_done t s)"
| init_new: "sPc s t = Some SBody \<Longrightarrow> sInstance s = None \<Longrightarrow>
    singleton_step s (at t (Some SAfter) (s\<lparr>sInstance := Some (built s), built := Suc (built s)\<rparr>))"
| init_new_threw: "sPc s t = Some SBody \<Longrightarrow> sInstance s = None \<Longrightarrow> singleton_step s (once_threw t s)"
| after_init: "sPc s t = Some SAfter \<Longrightarrow> sInstance s = Some n \<Longrightarrow>
    singleton_step s (once_done t (s\<lparr>inits := inits s @ [n]\<rparr>))"
| after_init_threw: "sPc s t = Some SAfter \<Longrightarrow> singleton_step s (once_threw t s)"
| get_return: "sPc s t = Some SReturn \<Longrightarrow>
    singleton_step s (at t None (s\<lparr>results := results s @ [(t, sInstance s)]\<rparr>))"

inductive_cases singleton_stepE: "singleton_step s s'"

section \<open>One instance\<close>

text \<open>
  The thread in the closure is the active one; an instance is there once the closure has ended, and
  is the only one that was built; \<^verbatim>\<open>afterInit\<close> has ended at most once, and if no call has thrown, once
  before the flag was set.
\<close>

definition in_once :: "singleton_pc option \<Rightarrow> bool" where
  "in_once p \<longleftrightarrow> p = Some SBody \<or> p = Some SAfter"

lemma in_once_simps [simp]:
  "\<not> in_once None" "\<not> in_once (Some SCall)" "\<not> in_once (Some SReturn)" "in_once (Some SBody)" "in_once (Some SAfter)"
  by (simp_all add: in_once_def)

definition singleton_inv :: "singleton \<Rightarrow> bool" where
  "singleton_inv s \<longleftrightarrow>
     (\<forall>t. in_once (sPc s t) \<longleftrightarrow> onceActive s = Some t) \<and>
     (onceFlag s \<longrightarrow> onceActive s = None) \<and>
     (\<forall>t. sPc s t = Some SReturn \<longrightarrow> onceFlag s) \<and>
     (\<forall>t. sPc s t = Some SAfter \<longrightarrow> sInstance s = Some 0 \<and> inits s = []) \<and>
     (if onceFlag s then sInstance s = Some 0 else inits s = []) \<and>
     sInstance s = (if built s = 0 then None else Some 0) \<and> built s \<le> 1 \<and>
     (inits s = [] \<or> inits s = [0]) \<and>
     (\<forall>r\<in>set (results s). snd r = Some 0) \<and> (results s \<noteq> [] \<longrightarrow> onceFlag s) \<and>
     (threw s = [] \<longrightarrow> (onceFlag s \<longrightarrow> inits s = [0]) \<and>
        (sInstance s \<noteq> None \<and> \<not> onceFlag s \<longrightarrow> (\<exists>t. onceActive s = Some t \<and> sPc s t = Some SAfter)))"

lemma singleton_inv_new: "singleton_inv INIT_SINGLETON"
  by (simp add: singleton_inv_def INIT_SINGLETON_def)

lemmas singleton_simps = singleton_inv_def at_def once_done_def once_threw_def

text \<open>A thread outside the closure may move without changing more.\<close>

lemma singleton_inv_out:
  assumes "singleton_inv s" and "\<not> in_once (sPc s t)" and "\<not> in_once p" and "p = Some SReturn \<longrightarrow> onceFlag s"
  shows "singleton_inv (at t p s)"
  using assms by (auto simp: singleton_inv_def at_def)

lemma singleton_in:
  "singleton_inv s \<Longrightarrow> in_once (sPc s t) \<Longrightarrow> onceActive s = Some t \<and> \<not> onceFlag s \<and> (\<forall>u. u \<noteq> t \<longrightarrow> \<not> in_once (sPc s u))"
  by (auto simp: singleton_inv_def)

lemma singleton_step_inv:
  assumes "singleton_step s s'" and inv: "singleton_inv s"
  shows "singleton_inv s'"
  using assms(1)
proof cases
  case (get_call t) then show ?thesis using singleton_inv_out[OF inv] by simp
next
  case (get_passed t) then show ?thesis using singleton_inv_out[OF inv] by simp
next
  case (get_enter t) then show ?thesis using inv by (auto simp: singleton_inv_def at_def)
next
  case (body_have t) then show ?thesis using inv singleton_in[OF inv, of t] by (auto simp: singleton_inv_def at_def once_done_def split: if_splits)
next
  case (init_new t) then show ?thesis using inv singleton_in[OF inv, of t] by (auto simp: singleton_inv_def at_def split: if_splits)
next
  case (init_new_threw t) then show ?thesis using inv singleton_in[OF inv, of t] by (auto simp: singleton_inv_def at_def once_threw_def)
next
  case (after_init t n) then show ?thesis using inv singleton_in[OF inv, of t] by (auto simp: singleton_inv_def at_def once_done_def split: if_splits)
next
  case (after_init_threw t) then show ?thesis using inv singleton_in[OF inv, of t] by (auto simp: singleton_inv_def at_def once_threw_def)
next
  case (get_return t) then show ?thesis using inv by (auto simp: singleton_inv_def at_def split: if_splits)
qed

lemma singleton_steps_inv: "singleton_step\<^sup>*\<^sup>* s s' \<Longrightarrow> singleton_inv s \<Longrightarrow> singleton_inv s'"
  by (induction rule: rtranclp_induct) (auto intro: singleton_step_inv)

text \<open>
  C29. One instance. Whatever threads call \<^verbatim>\<open>getInstance\<close>, and whatever constructors throw: every call
  that returns gives the same instance, no other is ever built, \<^verbatim>\<open>afterInit\<close> ends at most once, and if
  no call has thrown, it has ended before the first call returned. A call that waits waits for a
  thread that is in the closure.
\<close>

theorem singleton_one_instance:
  assumes "singleton_step\<^sup>*\<^sup>* INIT_SINGLETON s"
  shows "list_all (\<lambda>r. snd r = Some 0) (results s) \<and> built s \<le> 1 \<and> length (inits s) \<le> 1 \<and>
    (threw s = [] \<and> results s \<noteq> [] \<longrightarrow> inits s = [0]) \<and>
    (\<forall>t. sPc s t = Some SCall \<longrightarrow> onceFlag s \<or> onceActive s = None \<or> (\<exists>u. onceActive s = Some u \<and> in_once (sPc s u)))"
proof -
  have "singleton_inv s" using singleton_steps_inv[OF assms singleton_inv_new] .
  then show ?thesis by (auto simp: singleton_inv_def list_all_iff)
qed

lemmas singleton_via = converse_rtranclp_into_rtranclp[of singleton_step]

text \<open>Two threads, the first of which runs the closure while the second waits.\<close>

lemmas run_simps = INIT_SINGLETON_def at_def once_done_def once_threw_def

lemma two_calls_run: "\<exists>s. singleton_step\<^sup>*\<^sup>* INIT_SINGLETON s \<and> results s = [(2, Some 0), (1, Some 0)] \<and> inits s = [0]"
  apply (rule exI, rule conjI)
   apply (rule singleton_via[OF get_call[where t = 1]], simp_all add: run_simps)[1]
   apply (rule singleton_via[OF get_enter[where t = 1]], simp_all add: run_simps)[1]
   apply (rule singleton_via[OF get_call[where t = 2]], simp_all add: run_simps)[1]
   apply (rule singleton_via[OF init_new[where t = 1]], simp_all add: run_simps)[1]
   apply (rule singleton_via[OF after_init[where t = 1]], simp_all add: run_simps)[1]
   apply (rule singleton_via[OF get_passed[where t = 2]], simp_all add: run_simps)[1]
   apply (rule singleton_via[OF get_return[where t = 2]], simp_all add: run_simps)[1]
   apply (rule singleton_via[OF get_return[where t = 1]], simp_all add: run_simps)[1]
   apply (rule rtranclp.rtrancl_refl)
  apply (simp add: run_simps)
  done

theorem singleton_one_instance_witness:
  "\<exists>s. singleton_step\<^sup>*\<^sup>* INIT_SINGLETON s \<and> results s = [(2, Some 0), (1, Some 0)] \<and> inits s = [0] \<and> built s \<le> 1"
  using two_calls_run singleton_one_instance by blast

text \<open>
  If \<^verbatim>\<open>afterInit\<close> throws, the instance stays: the next call finds it, sets the flag and returns it, and
  \<^verbatim>\<open>afterInit\<close> never runs again.
\<close>

lemma after_init_skipped:
  "\<exists>s. singleton_step\<^sup>*\<^sup>* INIT_SINGLETON s \<and> threw s = [1] \<and> results s = [(2, Some 0)] \<and> onceFlag s \<and> inits s = []"
  apply (rule exI, rule conjI)
   apply (rule singleton_via[OF get_call[where t = 1]], simp_all add: run_simps)[1]
   apply (rule singleton_via[OF get_enter[where t = 1]], simp_all add: run_simps)[1]
   apply (rule singleton_via[OF init_new[where t = 1]], simp_all add: run_simps)[1]
   apply (rule singleton_via[OF after_init_threw[where t = 1]], simp_all add: run_simps)[1]
   apply (rule singleton_via[OF get_call[where t = 2]], simp_all add: run_simps)[1]
   apply (rule singleton_via[OF get_enter[where t = 2]], simp_all add: run_simps)[1]
   apply (rule singleton_via[OF body_have[where t = 2]], simp_all add: run_simps)[1]
   apply (rule singleton_via[OF get_return[where t = 2]], simp_all add: run_simps)[1]
   apply (rule rtranclp.rtrancl_refl)
  apply (simp add: run_simps)
  done

end
