(* ===== verification/Server_Life.thy ===== *)
theory Server_Life
  imports Event_Loop_Group Bootstraps Futures
begin

text \<open>
  \<^verbatim>\<open>nets/net/bootstrap\<close>, the calls that start, wait for and stop a server or client: the overloads of
  \<^verbatim>\<open>bind\<close> and \<^verbatim>\<open>connect\<close>, \<^verbatim>\<open>sync\<close>, and the life of a server as a step relation over the two loop
  groups of \<open>Event_Loop_Group\<close>.
\<close>

section \<open>bind and connect\<close>

text \<open>
  The closure given to \<^verbatim>\<open>submit\<close> runs \<^verbatim>\<open>doBind\<close> or \<^verbatim>\<open>doConnect\<close> and the caller waits for the future, whose
  content nobody looks at. An outcome that is no exception of C++ (a fault or an endless loop) is passed on.
\<close>

definition outcome_of :: "'a res \<Rightarrow> (unit + thrown) res" where
  "outcome_of r = (case r of Inr v \<Rightarrow> Inr (Inl ()) | Inl (Throw e) \<Rightarrow> Inr (Inr (StdDerived ''std::exception'')) | Inl e \<Rightarrow> Inl e)"

definition future_wait :: "'a promise \<Rightarrow> unit res" where
  "future_wait p = (case p of Unset \<Rightarrow> Inl Hang | _ \<Rightarrow> Inr ())"

definition submit_and_wait :: "'a res \<Rightarrow> unit res" where
  "submit_and_wait r = ebind (outcome_of r) (\<lambda>r. ebind (promise_task_void r Unset) future_wait)"

definition sboot_bind ::
    "'k srv_env \<Rightarrow> store \<Rightarrow> inet_sock_address \<Rightarrow> server_bootstrap \<Rightarrow> 'k \<Rightarrow> unit res \<times> server_bootstrap \<times> 'k" where
  "sboot_bind E H addr b k = (case sboot_doBind E H addr b k of (r, b, k) \<Rightarrow> (submit_and_wait r, b, k))"

definition sboot_bind_port ::
    "'k srv_env \<Rightarrow> store \<Rightarrow> 16 word \<Rightarrow> bool \<Rightarrow> server_bootstrap \<Rightarrow> 'k \<Rightarrow> unit res \<times> server_bootstrap \<times> 'k" where
  "sboot_bind_port E H port ipv6 b k = sboot_bind E H (createAnySockAddress port ipv6) b k"

definition sboot_bind_ip ::
    "inet_libc \<Rightarrow> 'k srv_env \<Rightarrow> store \<Rightarrow> string \<Rightarrow> 16 word \<Rightarrow> bool \<Rightarrow> server_bootstrap \<Rightarrow> 'k \<Rightarrow> unit res \<times> server_bootstrap \<times> 'k" where
  "sboot_bind_ip L E H ip port ipv6 b k =
     (case isa_of_ip L ip port ipv6 of Inl e \<Rightarrow> (Inl e, b, k) | Inr a \<Rightarrow> sboot_bind E H a b k)"

definition bs_bind ::
    "'k dg_env \<Rightarrow> store \<Rightarrow> inet_sock_address \<Rightarrow> bootstrap \<Rightarrow> 'k \<Rightarrow> unit res \<times> bootstrap \<times> 'k" where
  "bs_bind E H addr b k = (case bs_doBind E H addr b k of (r, b, k) \<Rightarrow> (submit_and_wait r, b, k))"

definition bs_bind_default :: "'k dg_env \<Rightarrow> store \<Rightarrow> bootstrap \<Rightarrow> 'k \<Rightarrow> unit res \<times> bootstrap \<times> 'k" where
  "bs_bind_default E H b k = bs_bind E H isa_default b k"

definition bs_bind_port :: "'k dg_env \<Rightarrow> store \<Rightarrow> 16 word \<Rightarrow> bool \<Rightarrow> bootstrap \<Rightarrow> 'k \<Rightarrow> unit res \<times> bootstrap \<times> 'k" where
  "bs_bind_port E H port ipv6 b k = bs_bind E H (createAnySockAddress port ipv6) b k"

definition bs_bind_ip ::
    "inet_libc \<Rightarrow> 'k dg_env \<Rightarrow> store \<Rightarrow> string \<Rightarrow> 16 word \<Rightarrow> bool \<Rightarrow> bootstrap \<Rightarrow> 'k \<Rightarrow> unit res \<times> bootstrap \<times> 'k" where
  "bs_bind_ip L E H ip port ipv6 b k =
     (case isa_of_ip L ip port ipv6 of Inl e \<Rightarrow> (Inl e, b, k) | Inr a \<Rightarrow> bs_bind E H a b k)"

definition bs_connect ::
    "'k srv_env \<Rightarrow> store \<Rightarrow> inet_sock_address \<Rightarrow> bootstrap \<Rightarrow> 'k \<Rightarrow> unit res \<times> 'k con_world" where
  "bs_connect E H addr b k = (case bs_doConnect E H addr b k of (r, w) \<Rightarrow> (submit_and_wait r, w))"

definition bs_connect_ip ::
    "inet_libc \<Rightarrow> 'k srv_env \<Rightarrow> store \<Rightarrow> string \<Rightarrow> 16 word \<Rightarrow> bool \<Rightarrow> bootstrap \<Rightarrow> 'k \<Rightarrow> (unit res \<times> 'k con_world) res" where
  "bs_connect_ip L E H ip port ipv6 b k = ebind (isa_of_ip L ip port ipv6) (\<lambda>a. Inr (bs_connect E H a b k))"

text \<open>
  The caller cannot tell a failed \<^verbatim>\<open>bind\<close> from one that worked; only an address that does not parse
  is reported.
\<close>

lemma submit_and_wait_silent: "submit_and_wait (Inl (Throw e)) = submit_and_wait (Inr v)"
  by (simp add: submit_and_wait_def outcome_of_def future_wait_def submit_void_is_submit)

lemma bind_failure_is_silent:
  assumes "sboot_doBind E H a b k = (Inl (Throw e), b', k')"
  shows "sboot_bind E H a b k = (Inr (), b', k')"
  using assms by (simp add: sboot_bind_def submit_and_wait_def outcome_of_def future_wait_def submit_void_is_submit)

section \<open>The life of a server\<close>

text \<open>
  The thread that owns a server: it calls \<^verbatim>\<open>bind\<close> any number of times (each starts the main group and
  waits for \<^verbatim>\<open>doBind\<close>), then \<^verbatim>\<open>sync\<close>, which starts the child group and waits for the loops of both. Its
  place inside a call of a group is the group's \<open>lgMain\<close>; the other steps of the groups are those of
  their threads. An accept is the main loop's call of \<^verbatim>\<open>childLoopGroup_.next()\<close>.
\<close>

datatype server_pc = VIdle | VMainLoop | VChildLoop | VMainSync | VChildSync | VDone

record server_life =
  svPc :: server_pc
  svBound :: bool
  svMain :: loop_group
  svChild :: loop_group

definition server_life_new :: "int \<Rightarrow> server_life res" where
  "server_life_new n = ebind (lg_new 1) (\<lambda>m. ebind (lg_new n) (\<lambda>c.
     Inr \<lparr>svPc = VIdle, svBound = False, svMain = m, svChild = c\<rparr>))"

definition enter :: "group_main \<Rightarrow> loop_group \<Rightarrow> loop_group" where
  "enter m g = g\<lparr>lgMain := m\<rparr>"

inductive server_step :: "server_life \<Rightarrow> server_life \<Rightarrow> bool" where
  sv_bind: "svPc s = VIdle \<Longrightarrow> server_step s (s\<lparr>svPc := VMainLoop, svMain := enter (MSubmit 0) (svMain s)\<rparr>)"
| sv_bound: "svPc s = VMainLoop \<Longrightarrow> lgMain (svMain s) = MIdle \<Longrightarrow> server_step s (s\<lparr>svPc := VIdle, svBound := True\<rparr>)"
| sv_sync: "svPc s = VIdle \<Longrightarrow> server_step s (s\<lparr>svPc := VChildLoop, svChild := enter (MSubmit 0) (svChild s)\<rparr>)"
| sv_started: "svPc s = VChildLoop \<Longrightarrow> lgMain (svChild s) = MIdle \<Longrightarrow>
    server_step s (s\<lparr>svPc := VMainSync, svMain := enter (MSync 0) (svMain s)\<rparr>)"
| sv_main_over: "svPc s = VMainSync \<Longrightarrow> lgMain (svMain s) = MIdle \<Longrightarrow>
    server_step s (s\<lparr>svPc := VChildSync, svChild := enter (MSync 0) (svChild s)\<rparr>)"
| sv_returned: "svPc s = VChildSync \<Longrightarrow> lgMain (svChild s) = MIdle \<Longrightarrow> server_step s (s\<lparr>svPc := VDone\<rparr>)"
| sv_main: "group_works (svMain s) g \<Longrightarrow> server_step s (s\<lparr>svMain := g\<rparr>)"
| sv_child: "group_works (svChild s) g \<Longrightarrow> server_step s (s\<lparr>svChild := g\<rparr>)"

text \<open>Where the owner is, and what it has already waited for.\<close>

definition all_ended :: "loop_group \<Rightarrow> bool" where
  "all_ended g \<longleftrightarrow> (\<forall>t<numOfEventLoops g. lgClosures g t = Some TEnded)"

definition syncing :: "loop_group \<Rightarrow> bool" where
  "syncing g \<longleftrightarrow> (\<exists>i. lgMain g = MSync i) \<or> lgMain g = MIdle \<and> (lgFutures g \<noteq> [] \<longrightarrow> all_ended g)"

definition waited :: "loop_group \<Rightarrow> bool" where
  "waited g \<longleftrightarrow> lgMain g = MIdle \<and> (lgFutures g \<noteq> [] \<longrightarrow> all_ended g)"

definition looping :: "loop_group \<Rightarrow> bool" where
  "looping g \<longleftrightarrow> (\<forall>i. lgMain g \<noteq> MSync i) \<and> (lgMain g = MIdle \<longrightarrow> lgFutures g \<noteq> [])"

lemma group_step_count: "group_step g g' \<Longrightarrow> numOfEventLoops g' = numOfEventLoops g"
  by (cases rule: group_step.cases, assumption) (simp_all add: start_closures_def set_closure_def push_loop_fields)

lemma group_step_futures: "group_step g g' \<Longrightarrow> lgFutures g \<noteq> [] \<Longrightarrow> lgFutures g' \<noteq> []"
  by (cases rule: group_step.cases, assumption) (simp_all add: start_closures_def set_closure_def push_loop_fields)

lemma ended_stays: "group_step g g' \<Longrightarrow> group_inv g \<Longrightarrow> lgClosures g t = Some TEnded \<Longrightarrow> lgClosures g' t = Some TEnded"
  by (cases rule: group_step.cases, assumption)
    (auto simp: start_closures_def set_closure_def push_loop_fields group_inv_def loops_ok_def)

lemma futures_same: "group_step g g' \<Longrightarrow> (\<forall>i. lgMain g \<noteq> MIn i) \<Longrightarrow> lgFutures g' = lgFutures g"
  by (cases rule: group_step.cases, assumption) (simp_all add: start_closures_def set_closure_def push_loop_fields)

lemma all_ended_stays: "group_step g g' \<Longrightarrow> group_inv g \<Longrightarrow> all_ended g \<Longrightarrow> all_ended g'"
  using group_step_count[of g g'] ended_stays[of g g'] by (simp add: all_ended_def)

lemma waited_works:
  assumes "group_works g g'" and "group_inv g" and "waited g"
  shows "waited g'"
  using assms all_ended_stays[of g g'] futures_same[of g g'] by (simp add: group_works_def waited_def)

lemma sync_step:
  assumes "group_step g g'" and "lgMain g = MSync i"
  shows "(\<exists>j. lgMain g' = MSync j) \<or> lgMain g' = MIdle \<and> i \<ge> length (lgFutures g) \<and> lgClosures g' = lgClosures g"
  using assms(1) by cases (use assms(2) in \<open>simp_all add: start_closures_def set_closure_def push_loop_fields\<close>)

lemma syncing_works:
  assumes works: "group_works g g'" and inv: "group_inv g" and "syncing g"
  shows "syncing g'"
proof (cases "lgMain g = MIdle")
  case True
  then have "waited g" using assms(3) by (simp add: syncing_def waited_def)
  from waited_works[OF works inv this] show ?thesis by (simp add: waited_def syncing_def)
next
  case False
  then obtain i where i: "lgMain g = MSync i" using assms(3) by (auto simp: syncing_def)
  have step: "group_step g g'" using works by (simp add: group_works_def)
  show ?thesis
    using sync_step[OF step i] sync_over[OF inv _ i] futures_same[OF step] i group_step_count[OF step]
    by (auto simp: syncing_def all_ended_def)
qed

lemma looping_works:
  assumes works: "group_works g g'" and inv: "group_inv g" and n: "0 < numOfEventLoops g" and l: "looping g"
  shows "looping g'"
proof -
  have step: "group_step g g'" using works by (simp add: group_works_def)
  have m: "lgMain g = MLock \<Longrightarrow> lgFutures g \<noteq> []" using inv n by (auto simp: group_inv_def main_ok_def Let_def)
  from step show ?thesis
    by cases (use m l works in \<open>auto simp: looping_def group_works_def start_closures_def set_closure_def push_loop_fields\<close>)
qed

text \<open>The invariant of a server with \<open>n\<close> loops for its connections.\<close>

definition server_inv :: "int \<Rightarrow> server_life \<Rightarrow> bool" where
  "server_inv n s \<longleftrightarrow> 0 < n \<and> group_inv (svMain s) \<and> group_inv (svChild s) \<and>
     numOfEventLoops (svMain s) = 1 \<and> numOfEventLoops (svChild s) = nat n \<and> (svBound s \<longrightarrow> lgFutures (svMain s) \<noteq> []) \<and>
     (case svPc s of
        VIdle \<Rightarrow> lgMain (svMain s) = MIdle \<and> lgMain (svChild s) = MIdle
      | VMainLoop \<Rightarrow> looping (svMain s) \<and> lgMain (svChild s) = MIdle
      | VChildLoop \<Rightarrow> lgMain (svMain s) = MIdle \<and> looping (svChild s)
      | VMainSync \<Rightarrow> syncing (svMain s) \<and> lgMain (svChild s) = MIdle \<and> lgFutures (svChild s) \<noteq> []
      | VChildSync \<Rightarrow> waited (svMain s) \<and> syncing (svChild s) \<and> lgFutures (svChild s) \<noteq> []
      | VDone \<Rightarrow> waited (svMain s) \<and> waited (svChild s) \<and> lgFutures (svChild s) \<noteq> [])"

lemma enter_loop: "lgMain g = MIdle \<Longrightarrow> group_step g (enter (MSubmit 0) g)"
  unfolding enter_def by (rule loop_call)

lemma enter_sync: "lgMain g = MIdle \<Longrightarrow> group_step g (enter (MSync 0) g)"
  unfolding enter_def by (rule sync_call)

lemma enter_fields [simp]:
  "lgMain (enter m g) = m" "lgFutures (enter m g) = lgFutures g" "numOfEventLoops (enter m g) = numOfEventLoops g"
  by (simp_all add: enter_def)

lemma server_step_inv:
  assumes "server_step s s'" and inv: "server_inv n s"
  shows "server_inv n s'"
proof -
  have m: "group_inv (svMain s)" and c: "group_inv (svChild s)" and n: "0 < n" "numOfEventLoops (svMain s) = 1"
    "numOfEventLoops (svChild s) = nat n" using inv by (simp_all add: server_inv_def)
  have w: "group_inv g'" "numOfEventLoops g' = numOfEventLoops g" "lgFutures g \<noteq> [] \<longrightarrow> lgFutures g' \<noteq> []"
    "lgMain g = MIdle \<longrightarrow> lgMain g' = MIdle"
    if "group_works g g'" "group_inv g" for g g'
    using that group_step_inv[of g g'] group_step_count[of g g'] group_step_futures[of g g'] by (auto simp: group_works_def)
  from assms(1) show ?thesis
  proof cases
    case sv_bind then show ?thesis
      using inv group_step_inv[OF enter_loop m] by (simp add: server_inv_def looping_def)
  next
    case sv_bound then show ?thesis using inv by (simp add: server_inv_def looping_def)
  next
    case sv_sync then show ?thesis
      using inv group_step_inv[OF enter_loop c] by (simp add: server_inv_def looping_def)
  next
    case sv_started then show ?thesis
      using inv group_step_inv[OF enter_sync m] by (simp add: server_inv_def looping_def syncing_def)
  next
    case sv_main_over then show ?thesis
      using inv group_step_inv[OF enter_sync c] by (simp add: server_inv_def syncing_def waited_def)
  next
    case sv_returned then show ?thesis using inv by (simp add: server_inv_def syncing_def waited_def)
  next
    case (sv_main g) then show ?thesis
      using inv w[OF sv_main(2) m] waited_works[OF sv_main(2) m] syncing_works[OF sv_main(2) m] looping_works[OF sv_main(2) m]
      by (cases "svPc s") (simp_all add: server_inv_def)
  next
    case (sv_child g) then show ?thesis
      using inv w[OF sv_child(2) c] waited_works[OF sv_child(2) c] syncing_works[OF sv_child(2) c] looping_works[OF sv_child(2) c]
      by (cases "svPc s") (simp_all add: server_inv_def)
  qed
qed

lemma server_life_inv:
  assumes "server_life_new n = Inr s0" and "n < 2 ^ 30" and "server_step\<^sup>*\<^sup>* s0 s"
  shows "server_inv n s"
  using assms(3)
proof (induction rule: rtranclp_induct)
  case base
  from assms(1) obtain m c where mc: "lg_new 1 = Inr m" "lg_new n = Inr c" and
    s0: "s0 = \<lparr>svPc = VIdle, svBound = False, svMain = m, svChild = c\<rparr>"
    by (auto simp: server_life_new_def ebind_eq_Inr)
  have "lgMain m = MIdle" "lgMain c = MIdle" using mc by (auto simp: lg_new_def ebind_eq_Inr)
  then show ?case using lg_new_inv[OF mc(1)] lg_new_inv[OF mc(2) assms(2)] by (simp add: server_inv_def s0)
qed (rule server_step_inv)

text \<open>
  C14. A server runs until all its loops have ended. Over every run of the owner's calls and of the
  threads of both groups: when \<^verbatim>\<open>sync\<close> has returned, every loop of the child group has ended, and, if
  \<^verbatim>\<open>bind\<close> had returned before, the main loop as well; and while \<^verbatim>\<open>sync\<close> waits and afterwards, the child
  group has all its loops, so that the acceptor always finds one for a new connection.
\<close>

theorem server_sync_waits:
  assumes "server_life_new n = Inr s0" and "n < 2 ^ 30" and "server_step\<^sup>*\<^sup>* s0 s"
  shows "(svPc s = VDone \<longrightarrow> (\<forall>t<nat n. lgClosures (svChild s) t = Some TEnded) \<and>
           (svBound s \<longrightarrow> lgClosures (svMain s) 0 = Some TEnded)) \<and>
         (svPc s \<in> {VMainSync, VChildSync, VDone} \<longrightarrow> set (lgLoops (svChild s)) = {..<nat n} \<and>
           (\<forall>k<nat n. group_next \<lparr>nextLoop = k, eventLoops = lgLoops (svChild s)\<rparr> \<noteq> Inl Undefined))"
proof -
  have inv: "server_inv n s" using server_life_inv[OF assms] .
  then have c: "group_inv (svChild s)" and n: "numOfEventLoops (svChild s) = nat n" by (simp_all add: server_inv_def)
  have "set (lgLoops (svChild s)) = {..<nat n} \<and> length (lgLoops (svChild s)) = nat n"
    if "svPc s \<in> {VMainSync, VChildSync, VDone}"
  proof -
    have "lgMain (svChild s) = MIdle \<or> (\<exists>i. lgMain (svChild s) = MSync i)" "lgFutures (svChild s) \<noteq> []"
      using inv that by (auto simp: server_inv_def syncing_def waited_def)
    then have "length (lgLoops (svChild s)) = nat n" using c n by (auto simp: group_inv_def main_ok_def Let_def)
    then show ?thesis using full_group[OF c] n by simp
  qed
  then have "svPc s \<in> {VMainSync, VChildSync, VDone} \<longrightarrow> set (lgLoops (svChild s)) = {..<nat n} \<and>
      (\<forall>k<nat n. group_next \<lparr>nextLoop = k, eventLoops = lgLoops (svChild s)\<rparr> \<noteq> Inl Undefined)"
    by (simp add: group_next_def Let_def)
  moreover have "svPc s = VDone \<longrightarrow> all_ended (svChild s) \<and> (svBound s \<longrightarrow> all_ended (svMain s))"
    using inv by (auto simp: server_inv_def waited_def)
  moreover have "numOfEventLoops (svMain s) = 1" using inv by (simp add: server_inv_def)
  ultimately show ?thesis using n by (simp add: all_ended_def)
qed

lemma server_main: "group_works\<^sup>*\<^sup>* g g' \<Longrightarrow> server_step\<^sup>*\<^sup>* (s\<lparr>svMain := g\<rparr>) (s\<lparr>svMain := g'\<rparr>)"
proof (induction rule: rtranclp_induct)
  case (step y z)
  then show ?case using sv_main[of "s\<lparr>svMain := y\<rparr>" z] by (simp add: rtranclp.rtrancl_into_rtrancl)
qed simp

lemma server_child: "group_works\<^sup>*\<^sup>* g g' \<Longrightarrow> server_step\<^sup>*\<^sup>* (s\<lparr>svChild := g\<rparr>) (s\<lparr>svChild := g'\<rparr>)"
proof (induction rule: rtranclp_induct)
  case (step y z)
  then show ?case using sv_child[of "s\<lparr>svChild := y\<rparr>" z] by (simp add: rtranclp.rtrancl_into_rtrancl)
qed simp

text \<open>A server with one loop for its connections: it binds, starts, and is stopped.\<close>

abbreviation one_server :: "server_pc \<Rightarrow> bool \<Rightarrow> loop_group \<Rightarrow> loop_group \<Rightarrow> server_life" where
  "one_server v b m c \<equiv> \<lparr>svPc = v, svBound = b, svMain = m, svChild = c\<rparr>"

lemma enter_one [simp]: "enter m' (one_group p ls fs m c) = one_group p ls fs m' c"
  by (simp add: enter_def one_group_def)

lemma one_server_run:
  "server_step\<^sup>*\<^sup>* (one_server VIdle False (empty_group MIdle) (empty_group MIdle))
     (one_server VDone True (full_one MIdle TEnded) (full_one MIdle TEnded))"
proof -
  note via = rtranclp_trans[of server_step, OF r_into_rtranclp] rtranclp_trans[of server_step]
  note main = server_main[of _ _ "one_server v b undefined c" for v b c, simplified]
    and child = server_child[of _ _ "one_server v b m undefined" for v b m, simplified]
  show ?thesis
    apply (rule via(1)[OF sv_bind], (simp del: One_nat_def)+)
    apply (rule via(2)[OF main[OF one_group_works]])
    apply (rule via(1)[OF sv_bound], (simp del: One_nat_def)+)
    apply (rule via(1)[OF sv_sync], (simp del: One_nat_def)+)
    apply (rule via(2)[OF child[OF one_group_works]])
    apply (rule via(1)[OF sv_started], (simp del: One_nat_def)+)
    apply (rule via(2)[OF main[OF one_group_sync]])
    apply (rule via(1)[OF sv_main_over], (simp del: One_nat_def)+)
    apply (rule via(2)[OF child[OF one_group_sync]])
    apply (rule via(1)[OF sv_returned], (simp del: One_nat_def)+)
    done
qed

theorem server_sync_waits_witness:
  "\<exists>s0 s. server_life_new 1 = Inr s0 \<and> server_step\<^sup>*\<^sup>* s0 s \<and> svPc s = VDone \<and> svBound s \<and>
     (\<forall>t<1. lgClosures (svChild s) t = Some TEnded) \<and> lgClosures (svMain s) 0 = Some TEnded"
proof -
  have new: "server_life_new 1 = Inr (one_server VIdle False (empty_group MIdle) (empty_group MIdle))"
    by (simp add: server_life_new_def one_group_new)
  from server_sync_waits[OF new _ one_server_run] new one_server_run show ?thesis by fastforce
qed

end
