(* ===== verification/Signal_Handler.thy ===== *)
theory Signal_Handler
  imports Bootstraps
begin

text \<open>
  \<^verbatim>\<open>nets/base/SignalHandler\<close> and the threads' notion of their event loop (\<^verbatim>\<open>EventLoop\<close>'s constructor and
  destructor): two pieces of process-wide state that outlive the objects which set them.
\<close>

section \<open>Signals\<close>

text \<open>
  The process: whether the handler of the class is installed for the six signals, the static
  function object, which holds the address of a bootstrap, and the bootstraps that exist, by number,
  with their loop groups \<open>'g\<close>.
\<close>

record 'g process =
  installed :: "signo set"
  signalHandler :: "nat option"
  bootstraps :: "nat \<Rightarrow> 'g option"

definition process_start :: "'g process" where
  "process_start = \<lparr>installed = {}, signalHandler = None, bootstraps = (\<lambda>i. None)\<rparr>"

definition initSignalHandler :: "nat \<Rightarrow> 'g process \<Rightarrow> 'g process" where
  "initSignalHandler h p =
     p\<lparr>signalHandler := Some h, installed := {SIGPIPE, SIGHUP, SIGINT, SIGQUIT, SIGTERM, SIGSEGV}\<rparr>"

definition bootstrap_construct :: "nat \<Rightarrow> 'g \<Rightarrow> 'g process \<Rightarrow> 'g process" where
  "bootstrap_construct i g p = initSignalHandler i (p\<lparr>bootstraps := (bootstraps p)(i \<mapsto> g)\<rparr>)"

text \<open>The destructor is the default one.\<close>

definition bootstrap_destroy :: "nat \<Rightarrow> 'g process \<Rightarrow> 'g process" where
  "bootstrap_destroy i p = p\<lparr>bootstraps := (bootstraps p)(i := None)\<rparr>"

text \<open>
  The installed handler calls the function object, if there is one; calling a member of a bootstrap
  that is gone is undefined. \<open>None\<close> is the default action of the system, the end of the process.
\<close>

definition dispatchSignal :: "('g \<Rightarrow> 'g) \<Rightarrow> signo \<Rightarrow> 'g process \<Rightarrow> 'g process res" where
  "dispatchSignal shutdown signo p =
     (case signalHandler p of
        None \<Rightarrow> Inr p
      | Some h \<Rightarrow> (case bootstraps p h of
          None \<Rightarrow> Inl Undefined
        | Some g \<Rightarrow> ebind (handleSignal shutdown signo g) (\<lambda>g. Inr (p\<lparr>bootstraps := (bootstraps p)(h \<mapsto> g)\<rparr>))))"

definition deliver :: "('g \<Rightarrow> 'g) \<Rightarrow> signo \<Rightarrow> 'g process \<Rightarrow> 'g process res option" where
  "deliver shutdown signo p = (if signo \<in> installed p then Some (dispatchSignal shutdown signo p) else None)"

fun construct_all :: "(nat \<times> 'g) list \<Rightarrow> 'g process \<Rightarrow> 'g process" where
  "construct_all [] p = p"
| "construct_all ((i, g) # bs) p = construct_all bs (bootstrap_construct i g p)"

lemma construct_all_append: "construct_all (bs @ cs) p = construct_all cs (construct_all bs p)"
  by (induction bs p rule: construct_all.induct) simp_all

lemma bootstrap_process_simps [simp]:
  "bootstraps (bootstrap_construct i g p) = (bootstraps p)(i \<mapsto> g)" "signalHandler (bootstrap_construct i g p) = Some i"
  "signo \<in> installed (bootstrap_construct i g p)"
  "bootstraps (bootstrap_destroy i p) = (bootstraps p)(i := None)" "signalHandler (bootstrap_destroy i p) = signalHandler p"
  "installed (bootstrap_destroy i p) = installed p"
  by (cases signo; simp add: bootstrap_construct_def bootstrap_destroy_def initSignalHandler_def)+

text \<open>
  Signals and bootstraps. After any number of servers and clients have been constructed, a
  terminating signal shuts down the one constructed last, completely, and none of the others; a
  broken pipe changes nothing; and once that last one has been destroyed the signal is undefined
  behaviour, even while others still run.
\<close>

lemma signal_reaches_last_bootstrap:
  assumes "p = construct_all (bs @ [(i, gs)]) process_start"
  shows "(\<exists>p'. deliver server_shutdown SIGTERM p = Some (Inr p') \<and>
           map_option server_isShutdown (bootstraps p' i) = Some True \<and> (\<forall>j. j \<noteq> i \<longrightarrow> bootstraps p' j = bootstraps p j)) \<and>
         deliver server_shutdown SIGPIPE p = Some (Inr p) \<and>
         deliver server_shutdown SIGTERM (bootstrap_destroy i p) = Some (Inl Undefined)"
proof -
  have p: "p = bootstrap_construct i gs (construct_all bs process_start)" using assms by (simp add: construct_all_append)
  obtain m c where mc: "server_shutdown gs = (m, c)" by force
  with shutdown_isShutdown[of gs] have "server_isShutdown (m, c)" by simp
  with p mc show ?thesis
    by (simp add: deliver_def dispatchSignal_def)
qed

section \<open>The loop of a thread\<close>

text \<open>Each thread has a variable for its loop; loops are numbered, and remember the thread that made them.\<close>

record loop_threads =
  tCurrentThreadEventLoop :: "nat \<Rightarrow> nat option"
  loopThreadId :: "nat \<Rightarrow> nat option"

definition EventLoop_new :: "nat \<Rightarrow> nat \<Rightarrow> loop_threads \<Rightarrow> loop_threads res" where
  "EventLoop_new t l s =
     (if tCurrentThreadEventLoop s t \<noteq> None
      then Inl (Throw (RuntimeError ''EventLoop there must be only one loop per thread''))
      else Inr (s\<lparr>tCurrentThreadEventLoop := (tCurrentThreadEventLoop s)(t \<mapsto> l), loopThreadId := (loopThreadId s)(l \<mapsto> t)\<rparr>))"

definition EventLoop_destroy :: "nat \<Rightarrow> nat \<Rightarrow> loop_threads \<Rightarrow> loop_threads" where
  "EventLoop_destroy t l s =
     s\<lparr>tCurrentThreadEventLoop := (tCurrentThreadEventLoop s)(t := None), loopThreadId := (loopThreadId s)(l := None)\<rparr>"

definition isInCurrentEventLoop :: "nat \<Rightarrow> nat \<Rightarrow> loop_threads \<Rightarrow> bool" where
  "isInCurrentEventLoop t l s \<longleftrightarrow> tCurrentThreadEventLoop s t = Some l"

definition currentEventLoop :: "nat \<Rightarrow> loop_threads \<Rightarrow> nat option" where
  "currentEventLoop t s = tCurrentThreadEventLoop s t"

text \<open>Loops come and go, each made with a new number and destroyed by the thread that made it.\<close>

inductive loop_life :: "loop_threads \<Rightarrow> bool" where
  no_loops: "loop_life \<lparr>tCurrentThreadEventLoop = (\<lambda>t. None), loopThreadId = (\<lambda>l. None)\<rparr>"
| loop_made: "loop_life s \<Longrightarrow> loopThreadId s l = None \<Longrightarrow> EventLoop_new t l s = Inr s' \<Longrightarrow> loop_life s'"
| loop_gone: "loop_life s \<Longrightarrow> loopThreadId s l = Some t \<Longrightarrow> loop_life (EventLoop_destroy t l s)"

lemma loop_life_threads: "loop_life s \<Longrightarrow> tCurrentThreadEventLoop s t = Some l \<longleftrightarrow> loopThreadId s l = Some t"
proof (induction arbitrary: t l rule: loop_life.induct)
  case (loop_made s l' t' s')
  have s': "s' = s\<lparr>tCurrentThreadEventLoop := (tCurrentThreadEventLoop s)(t' \<mapsto> l'), loopThreadId := (loopThreadId s)(l' \<mapsto> t')\<rparr>"
    and none: "tCurrentThreadEventLoop s t' = None" using loop_made(3) by (auto simp: EventLoop_new_def split: if_splits)
  show ?case using loop_made(4)[of t l] loop_made(4)[of t' l] loop_made(4)[of t l'] loop_made(2) none by (simp add: s')
next
  case (loop_gone s l' t')
  show ?case using loop_gone(3)[of t l] loop_gone(3)[of t' l] loop_gone(3)[of t' l'] loop_gone(3)[of t l'] loop_gone(2)
    by (auto simp: EventLoop_destroy_def)
qed simp

lemma isInCurrentEventLoop_is_thread: "loop_life s \<Longrightarrow> isInCurrentEventLoop t l s \<longleftrightarrow> loopThreadId s l = Some t"
  by (simp add: isInCurrentEventLoop_def loop_life_threads)

text \<open>
  The loops of a group are destroyed with it, by the thread of its owner: if that thread has a loop of
  its own, it forgets it, and takes itself for a stranger in its own loop.
\<close>

lemma loop_destroyed_elsewhere:
  assumes "isInCurrentEventLoop t mine s" and "l \<noteq> mine"
  shows "\<not> isInCurrentEventLoop t mine (EventLoop_destroy t l s)" and "loopThreadId (EventLoop_destroy t l s) mine = loopThreadId s mine"
  using assms by (simp_all add: isInCurrentEventLoop_def EventLoop_destroy_def)

end
