(* ===== verification/Spec2Isabelle.thy ===== *)
theory Spec2Isabelle
  imports Socket_Channel Socket_Options Inet_Address Event_Loop Handler_Pipeline Thread_Pool Stack_Buffer
    Server_Channel Connector_Channel Datagram_Channel Bootstraps String_Utils
    Log_Appender Futures Thread_Helper Log_Formatter Logger Event_Loop_Group
    Connection Client_Server Handover Channel_Life Exceptions Buffer_Values Time_Values Socket_Queries Pool_Threads Singleton Server_Life Signal_Handler
begin

text \<open>
  \<^bold>\<open>nets: a verified model of a reactor network library\<close>

  The program (\<^verbatim>\<open>src/nets\<close>, C++) is a network library in the style of Netty. An event loop
  (\<^verbatim>\<open>EventLoop\<close>) runs in one thread: each turn it runs the timers that are due (\<^verbatim>\<open>TimerManager\<close>), the
  tasks posted by other threads, and then waits in epoll (\<^verbatim>\<open>EpollPoller\<close>) and calls the handlers of the
  channels that are ready. A channel (\<^verbatim>\<open>Channel\<close> and its subclasses) wraps a descriptor: the server
  channel accepts, the connector channel connects, and both hand a descriptor to a
  \<^verbatim>\<open>SocketChannel\<close>, which buffers outgoing bytes in \<^verbatim>\<open>ByteBuffer\<close>s and passes what arrives to a
  pipeline of user handlers; the datagram channel does the same for UDP. Bootstraps build the
  channels. Loops run in the threads of a \<^verbatim>\<open>ThreadPool\<close>, whose workers take tasks from a
  \<^verbatim>\<open>BoundedBlockingQueue\<close>.

  \<^bold>\<open>Conventions\<close> (theory \<open>Nets_Prelude\<close>). A \<^verbatim>\<open>size_t\<close> is a \<open>nat\<close> below \<open>2 ^ 64\<close> with the wrap-around
  written out (\<open>sz_add\<close>, \<open>sz_sub\<close>); other machine integers are words, or \<open>int\<close> where the code
  cannot overflow. Memory is a list, and \<open>mem_read\<close> and \<open>mem_write\<close> give \<open>Undefined\<close> out of
  bounds. An operation that can fail returns \<open>fault + 'a\<close>: \<open>Throw\<close> an exception, \<open>Undefined\<close>
  behaviour, or \<open>Hang\<close> for a loop that does not end. The build defines \<^verbatim>\<open>NDEBUG\<close>, so assertions
  are not part of the behaviour. The log statements inside the other components are left out of
  their models; what a log statement does is modelled by itself (\<open>Logger\<close>). The kernel is a parameter: records
  of functions on an abstract kernel state (\<open>sys\<close> in \<open>Kernel_Interface\<close>, \<open>net\<close> in \<open>Descriptors\<close>),
  with what is relied on as predicates (\<open>read_spec\<close>, \<open>stream_spec\<close>, \<open>epoll_spec\<close>, \<open>fds_spec\<close>) that state what the
  manual pages say; each has a concrete instance. User handlers are parameters as well.

  \<^bold>\<open>Theories and what they show\<close>
  \<^item> \<open>Nets_Prelude\<close>: the conventions, C division, and the locale \<open>simulation\<close> (an implementation step
    refines a specification step, hence all sequences do).
  \<^item> \<open>Byte_Buffer\<close> (\<^verbatim>\<open>net/core/ByteBuffer\<close>): every operation byte for byte. Any sequence of calls within
    their preconditions stays in bounds and keeps the invariant; typed values round-trip; the capacity policy is exact.
  \<^item> \<open>Epoll_Channel\<close> (\<^verbatim>\<open>net/channel/Channel\<close>, \<^verbatim>\<open>net/poller/EpollPoller\<close>): event masks, registration,
    dispatch. The kernel's interest set follows the channel's; each reported mask calls exactly
    the right handlers.
  \<^item> \<open>Socket_Options\<close> (\<^verbatim>\<open>ChannelOption.h\<close>, the setters of \<^verbatim>\<open>Socket.cpp\<close>) and \<open>Inet_Address\<close>
    (\<^verbatim>\<open>InetSockAddress\<close>): which option becomes which request, and addresses from text and back.
  \<^item> \<open>Socket_Channel\<close> (\<^verbatim>\<open>net/channel/SocketChannel\<close>): writing, vectored flushing, reading, closing.
    On a healthy connection, with write events that find at most 512 buffers, the bytes reach the
    kernel once and in order; exactly one disconnect is reported unless an inactive channel is shut
    down again; reading is exact and ends; an inactive channel is inert.
  \<^item> \<open>Connection\<close> (\<^verbatim>\<open>SocketChannelContext\<close>): two socket channels joined by TCP, as a step relation over
    both event loops and both kernels. What one end's handlers have seen is a prefix of what the
    other end wrote, and all of it once nothing waits. \<open>Client_Server\<close> carries this over to the
    connections that the server channel accepts and the connector makes.
  \<^item> \<open>Handover\<close> (\<^verbatim>\<open>SocketChannel::channelActive\<close> in the acceptor's thread): the function statement by
    statement, interleaved with the loop that the channel belongs to. Nothing is heard too early or
    twice; that the first read can come before the connect event is shown as well.
  \<^item> \<open>Channel_Life\<close> (\<^verbatim>\<open>~SocketChannel\<close>, \<^verbatim>\<open>EventLoop::runPendingTasks\<close>): who holds a channel until its
    destructor. A connected one is never let go of, an inactive one is destroyed by the loop alone, and
    no task comes after that unless another thread writes to a channel already inactive. The
    descriptor is in the kernel's interest set exactly as long as the channel is in the loop's table;
    \<open>Channel_Interest\<close> shows that every operation of the socket channel keeps set and flag together.
  \<^item> \<open>Buffer_Values\<close>, \<open>Time_Values\<close>, \<open>Socket_Queries\<close>: copies, moves and comparisons of buffers,
    timestamps and timer ids; the remaining questions to the kernel and the poller's descriptor.
    Programs over buffers refine programs over byte strings.
  \<^item> \<open>Timer_Manager\<close> (\<^verbatim>\<open>base/Timestamp\<close>, \<^verbatim>\<open>base/timer\<close>): timers fire exactly on schedule while callbacks
    add and remove timers during the walk; cancelled timers never fire; \<^verbatim>\<open>update\<close> ends if timers that
    repeat for ever have a positive interval and callbacks add none.
  \<^item> \<open>Event_Loop\<close> (\<^verbatim>\<open>EventLoop\<close>, \<^verbatim>\<open>NotifyChannel\<close>, \<^verbatim>\<open>EventLoopGroup\<close>): the loop thread and any number of
    others as a step relation. Tasks run once and in order, no wake-up is lost, and a
    loop that was shut down stays so.
  \<^item> \<open>Blocking_Queue\<close> and \<open>Thread_Pool\<close> (\<^verbatim>\<open>BoundedBlockingQueue.h\<close>, \<^verbatim>\<open>ThreadPool\<close>): step relations at the
    grain of critical sections and atomic accesses. The queue is fifo and loses no wake-up; the
    packed control word of the pool counts its threads, no task is lost or stranded. \<open>Futures\<close> adds
    \<^verbatim>\<open>submit\<close> of pool and loop: each submitted task has one fate, and its future is set accordingly.
    \<open>Pool_Threads\<close> names the threads.
  \<^item> \<open>Event_Loop_Group\<close> (\<^verbatim>\<open>EventLoopGroup::loopEach\<close>, \<^verbatim>\<open>syncEach\<close>): the start of the loop threads, run on the
    pool's own step relation; \<open>Server_Life\<close>: the bootstraps' \<^verbatim>\<open>bind\<close>, \<^verbatim>\<open>connect\<close> and \<^verbatim>\<open>sync\<close> as their owner
    calls them, on two such groups. When \<^verbatim>\<open>sync\<close> returns, every loop of both groups has run to its end.
  \<^item> \<open>Singleton\<close>, \<open>Signal_Handler\<close>, \<open>Thread_Helper\<close>: process-wide and thread-local state; one instance
    for all threads, the handler of signals, the loop, id and name of a thread over forks.
    \<open>Exceptions\<close>: the classes, their messages and their handlers.
  \<^item> \<open>Handler_Pipeline\<close> (\<^verbatim>\<open>ChannelHandler\<close>, \<^verbatim>\<open>ChannelHandlerPipeline\<close> and the two concrete pipelines): the
    linked list in an explicit store refines a list as long as no handler is added twice; events propagate in order.
  \<^item> \<open>Descriptors\<close> (the rest of \<^verbatim>\<open>Socket.cpp\<close>), \<open>Server_Channel\<close>, \<open>Connector_Channel\<close>, \<open>Datagram_Channel\<close>
    and \<open>Bootstraps\<close> (\<^verbatim>\<open>net/channel\<close>, \<^verbatim>\<open>net/bootstrap\<close>): sockets from creation to close. No path
    of accepting, binding or connecting leaks a descriptor, but for the socket on which \<^verbatim>\<open>FD_CLOEXEC\<close> is
    refused, and a set-up that throws in the connector closes one twice; a connector has one attempt in
    progress over all retries; a datagram comes and goes whole.
  \<^item> \<open>Stack_Buffer\<close> (\<^verbatim>\<open>StackBuffer.h\<close>, \<^verbatim>\<open>LogBuffer\<close>) and \<open>String_Utils\<close> (\<^verbatim>\<open>StringUtils\<close>): composing a log line,
    and trimming, splitting and comparing strings, against reference functions. \<open>Log_Appender\<close>
    (\<^verbatim>\<open>LogFile\<close>, \<^verbatim>\<open>FileLogAppender\<close>): the background thread loses and reorders no line in a single file;
    where lines are lost (at shutdown, when rolling twice in a second) is shown as well.
  \<^item> \<open>Log_Formatter\<close> (\<^verbatim>\<open>DefaultLogFormatter\<close>) and \<open>Logger\<close> (\<^verbatim>\<open>Logger\<close>, \<^verbatim>\<open>LoggerManager\<close>, the macros): the text of
    a line with its cached time, levels, appenders, and a log statement from the macro to the file.

  \<^bold>\<open>Bounds and fuel.\<close> No definition uses fuel. Loops that may not end are partial functions into
  \<open>option\<close> (\<open>capacityLoop\<close>, \<open>doReadLoop\<close>, \<open>updateLoop\<close>, the walks along a pipeline, \<open>split_loop\<close>, \<open>write_loop\<close>), and
  the theorems state that they return, or name the inputs for which they do not.

  \<^bold>\<open>Interfaces.\<close> Contracts that several operations or clients share are locales, interpreted on the
  model's own definitions: \<open>simulation\<close> on the pipeline (\<open>Handler_Pipeline\<close>), the log stream
  (\<open>Stack_Buffer\<close>), the values of buffers (\<open>Buffer_Values\<close>) and the thread-local cache (\<open>Thread_Helper\<close>), \<open>byte_fifo\<close> on the byte buffer, \<open>bounded_fifo\<close> on the queue, and
  \<open>invariant_actions\<close> of \<open>Descriptors\<close> (operations that may throw and keep an invariant) on the read
  events of the server and on the timers and the turns of the connector, for the descriptors there
  and again for the state of the new channels in \<open>Client_Server\<close>. The kernel's laws are
  predicates on its parameter, and the channels use them through the lemmas \<open>*_fds\<close>.
  \<open>Bootstraps\<close> composes the channels: the state a successful bind leaves satisfies the ledger from
  which accepting is shown not to leak, and the connector it sets up satisfies the start condition
  of the connector theorems.

  \<^bold>\<open>Not modelled.\<close> The headers of types and platform macros; the abstract classes \<^verbatim>\<open>Poller\<close> and
  \<^verbatim>\<open>PollerFactory\<close>, of which there is one implementation; assertions; accessors of a single member,
  which are the fields of the records. The activation of an accepted channel is interleaved with
  the loop of that channel at the grain of statements and whole handlers (\<open>Handover\<close>); what the
  machine does with the unsynchronised accesses themselves, to the loop's channel table, the state
  and the root logger's pointer, is undefined and outside the models.
\<close>

end
